(* ===== verification/OsPrelude.thy ===== *)
theory OsPrelude
  imports Main "HOL-Library.Word"
begin

unbundle bit_operations_syntax

text \<open>
  The prelude of the development: the machine integers of the kernel, the byte
  buffers that model C arrays, and the generic facts on words and lists that
  the component theories share.

  Conventions of the whole development.
  \<^item> \<open>uint8_t\<close>, \<open>uint16_t\<close>, \<open>uint32_t\<close>, \<open>uint64_t\<close>, \<open>size_t\<close> and pointers are words
    of that width wherever a wrap-around can be observed; loop counters and
    array indices that the code keeps in range are \<^typ>\<open>nat\<close>.
  \<^item> A C string argument is the list of its characters before the terminating
    NUL; a string buffer is given by its content in the same way.
  \<^item> A C array is a list; a read or write outside of it is never silently
    total: the model returns an error or the surrounding code's own guard is
    modelled.
\<close>

type_synonym u8 = "8 word"
type_synonym u16 = "16 word"
type_synonym u32 = "32 word"
type_synonym u64 = "64 word"

named_theorems word_nat \<open>facts that move word arithmetic to natural numbers\<close>

section \<open>Words\<close>

lemma unat_sub_one [word_nat]:
  fixes x :: "'a::len word"
  assumes "x \<noteq> 0"
  shows "unat (x - 1) = unat x - 1"
  using assms by (simp add: unat_minus_one)

lemma unat_lt_2p64 [simp]: "unat (x :: u64) < 18446744073709551616"
proof -
  have "unat x < 2 ^ LENGTH(64)" by (rule unsigned_less)
  then show ?thesis by simp
qed

lemma unat_lt_2p32 [simp]: "unat (x :: u32) < 4294967296"
proof -
  have "unat x < 2 ^ LENGTH(32)" by (rule unsigned_less)
  then show ?thesis by simp
qed

lemma two64: "(2 :: nat) ^ 64 = 18446744073709551616"
  by simp

lemma unat_m1_u64 [simp]: "unat (- 1 :: u64) = 18446744073709551615"
  by (simp add: unsigned_minus_1_eq_mask mask_eq_exp_minus_1)

lemma unat_of_nat_u64 [word_nat]:
  "n < 2 ^ 64 \<Longrightarrow> unat (of_nat n :: u64) = n"
  by (simp add: unat_of_nat take_bit_nat_eq_self)

lemma unat_of_nat_u32 [word_nat]:
  "n < 2 ^ 32 \<Longrightarrow> unat (of_nat n :: u32) = n"
  by (simp add: unat_of_nat take_bit_nat_eq_self)

lemma uint_eq_uint_iff [simp]: "uint x = uint y \<longleftrightarrow> x = (y :: 'a::len word)"
  by (auto intro: unsigned_word_eqI)

lemma unat_eq_unat_iff [simp]: "unat x = unat y \<longleftrightarrow> x = (y :: 'a::len word)"
  by (auto intro: unsigned_word_eqI)

lemma unat_ucast_32_64 [simp]: "unat (ucast (n :: u32) :: u64) = unat n"
proof -
  have "unat n < 2 ^ 64" by (rule less_trans [OF unat_lt_2p32]) simp
  then have "take_bit 64 (unat n) = unat n" by (rule take_bit_nat_eq_self)
  then show ?thesis by (simp add: unsigned_ucast_eq)
qed

lemma unat_Suc_u64: "unat (x :: u64) < 2 ^ 32 \<Longrightarrow> unat (x + 1) = Suc (unat x)"
  by (simp add: unat_word_ariths)

lemma word_diff_eq_iff: "(a - b = c) = (a = b + (c :: 'a::len word))"
  by (auto simp: algebra_simps)

section \<open>Powers of two\<close>

lemma nat_and_pred_pow2: "0 < (n::nat) \<Longrightarrow> (n AND (n - 1)) = 0 \<Longrightarrow> \<exists>k. n = 2 ^ k"
proof (induction n rule: less_induct)
  case (less n)
  show ?case
  proof (cases "even n")
    case True
    then obtain m where m: "n = 2 * m" "0 < m" using less.prems(1) by (auto elim: evenE)
    have "(n AND (n - 1)) = 2 * (m AND (m - 1))"
    proof -
      have "(n - 1) div 2 = m - 1" using m by linarith
      with m show ?thesis by (subst and_rec) auto
    qed
    with less.IH [of m] less.prems m obtain k where "m = 2 ^ k" by auto
    then have "n = 2 ^ Suc k" using m by simp
    then show ?thesis ..
  next
    case False
    then obtain m where m: "n = 2 * m + 1" by (auto elim: oddE)
    have "(n AND (n - 1)) = 2 * m"
      using m by (subst and_rec) auto
    with less.prems m have "n = 2 ^ 0" by simp
    then show ?thesis ..
  qed
qed

lemma unat_pow2: "k < 32 \<Longrightarrow> unat (2 ^ k :: u32) = 2 ^ k"
proof -
  assume "k < 32"
  then have "(2::nat) ^ k < 2 ^ 32" by (rule power_strict_increasing) simp
  then have "unat (of_nat (2 ^ k) :: u32) = 2 ^ k" by (rule unat_of_nat_u32)
  then show ?thesis by simp
qed

lemma mod_add_inj:
  assumes "((a::nat) + i) mod c = (a + j) mod c" "i < c" "j < c"
  shows "i = j"
  using assms
proof (induction i j rule: linorder_wlog)
  case (le i j)
  then have "c dvd (a + j) - (a + i)"
    by (metis mod_eq_dvd_iff_nat add_le_cancel_left)
  with le show ?case by (auto dest: dvd_imp_le)
qed metis

section \<open>Byte buffers\<close>

text \<open>
  \<open>buf_write xs off ys\<close> is \<open>memcpy(xs + off, ys, |ys|)\<close> on an array given by its content,
  \<open>buf_read xs off n\<close> is the \<open>n\<close> bytes at \<open>xs + off\<close>.
\<close>

definition buf_write :: "'a list \<Rightarrow> nat \<Rightarrow> 'a list \<Rightarrow> 'a list" where
  "buf_write xs off ys = take off xs @ ys @ drop (off + length ys) xs"

definition buf_read :: "'a list \<Rightarrow> nat \<Rightarrow> nat \<Rightarrow> 'a list" where
  "buf_read xs off n = take n (drop off xs)"

lemma length_buf_write [simp]:
  "off + length ys \<le> length xs \<Longrightarrow> length (buf_write xs off ys) = length xs"
  by (simp add: buf_write_def)

lemma length_buf_read [simp]: "length (buf_read xs off n) = min n (length xs - off)"
  by (simp add: buf_read_def)

lemma nth_buf_write:
  "off + length ys \<le> length xs \<Longrightarrow> i < length xs \<Longrightarrow>
   buf_write xs off ys ! i = (if off \<le> i \<and> i < off + length ys then ys ! (i - off) else xs ! i)"
  by (auto simp: buf_write_def nth_append min_def)

lemma nth_buf_read: "i < n \<Longrightarrow> off + i < length xs \<Longrightarrow> buf_read xs off n ! i = xs ! (off + i)"
  by (simp add: buf_read_def)

lemma buf_read_write_same [simp]:
  "off + length ys \<le> length xs \<Longrightarrow> buf_read (buf_write xs off ys) off (length ys) = ys"
  by (simp add: buf_read_def buf_write_def)

lemma buf_read_write_other:
  assumes "off + length ys \<le> length xs" and "o' + n \<le> length xs"
    and "o' + n \<le> off \<or> off + length ys \<le> o'"
  shows "buf_read (buf_write xs off ys) o' n = buf_read xs o' n"
  using assms by (intro nth_equalityI) (auto simp: nth_buf_read nth_buf_write)

lemma buf_read_write_prefix:
  assumes "off + n \<le> length xs" and "length ys \<le> n"
  shows "buf_read (buf_write xs off ys) off n = ys @ drop (length ys) (buf_read xs off n)"
  using assms by (intro nth_equalityI) (auto simp: nth_buf_read nth_buf_write nth_append)

lemma take_buf_read: "m \<le> n \<Longrightarrow> take m (buf_read xs off n) = buf_read xs off m"
  by (simp add: buf_read_def min_def)

section \<open>First match\<close>

text \<open>The loop of every table scan: the index of the first entry that satisfies the test.\<close>

fun find_index :: "('a \<Rightarrow> bool) \<Rightarrow> 'a list \<Rightarrow> nat option" where
  "find_index P [] = None"
| "find_index P (x # xs) =
     (if P x then Some 0 else case find_index P xs of None \<Rightarrow> None | Some i \<Rightarrow> Some (Suc i))"

lemma find_index_Some:
  "find_index P xs = Some i \<Longrightarrow> i < length xs \<and> P (xs ! i) \<and> (\<forall>j < i. \<not> P (xs ! j))"
proof (induction xs arbitrary: i)
  case (Cons x xs)
  show ?case
  proof (cases i)
    case 0
    then show ?thesis using Cons.prems by (auto split: if_splits option.splits)
  next
    case (Suc k)
    then have "\<not> P x" "find_index P xs = Some k"
      using Cons.prems by (auto split: if_splits option.splits)
    with Cons.IH [OF this(2)] Suc show ?thesis by (auto simp: less_Suc_eq_0_disj)
  qed
qed simp

lemma find_index_None: "find_index P xs = None \<longleftrightarrow> (\<forall>x\<in>set xs. \<not> P x)"
  by (induction xs) (auto split: option.splits)

lemma find_index_first:
  "i < length xs \<Longrightarrow> P (xs ! i) \<Longrightarrow> (\<And>j. j < i \<Longrightarrow> \<not> P (xs ! j)) \<Longrightarrow> find_index P xs = Some i"
proof (induction xs arbitrary: i)
  case (Cons x xs)
  show ?case
  proof (cases i)
    case 0
    then show ?thesis using Cons.prems(2) by simp
  next
    case (Suc k)
    have "\<not> P x" using Cons.prems(3) [of 0] Suc by simp
    moreover have "find_index P xs = Some k"
      using Cons.IH [of k] Cons.prems(1,2) Cons.prems(3) [of "Suc _"] Suc by simp
    ultimately show ?thesis using Suc by simp
  qed
qed simp

lemma find_index_update:
  "\<not> P (xs ! i) \<Longrightarrow> \<not> P y \<Longrightarrow> find_index P (xs[i := y]) = find_index P xs"
proof (induction xs arbitrary: i)
  case (Cons x xs)
  then show ?case by (cases i) auto
qed simp

end
