(* ===== verification/CStr.thy ===== *)
theory CStr
  imports OsPrelude
begin

text \<open>
  \<open>src/kernel/lib/string.c\<close>: the freestanding memory and string routines every
  other component calls. Memory is a function from 64-bit addresses to bytes,
  pointer arithmetic wraps as on the machine, and each loop is a recursion in
  the order in which the code writes. The loops that only stop at a NUL are
  \<^theory_text>\<open>partial_function (option)\<close>: no terminator, no result.
\<close>

type_synonym mem = "u64 \<Rightarrow> u8"

section \<open>Definitions\<close>

primrec memset :: "mem \<Rightarrow> u64 \<Rightarrow> u8 \<Rightarrow> nat \<Rightarrow> mem" where
  "memset m s c 0 = m"
| "memset m s c (Suc n) = memset (m(s := c)) (s + 1) c n"

primrec memcpy :: "mem \<Rightarrow> u64 \<Rightarrow> u64 \<Rightarrow> nat \<Rightarrow> mem" where
  "memcpy m d s 0 = m"
| "memcpy m d s (Suc n) = memcpy (m(d := m s)) (d + 1) (s + 1) n"

primrec copy_down :: "mem \<Rightarrow> u64 \<Rightarrow> u64 \<Rightarrow> nat \<Rightarrow> mem" where
  "copy_down m d s 0 = m"
| "copy_down m d s (Suc n) = copy_down (m(d - 1 := m (s - 1))) (d - 1) (s - 1) n"

definition memmove :: "mem \<Rightarrow> u64 \<Rightarrow> u64 \<Rightarrow> nat \<Rightarrow> mem" where
  "memmove m d s n =
     (if d < s then memcpy m d s n
      else copy_down m (d + of_nat n) (s + of_nat n) n)"

primrec memcmp :: "mem \<Rightarrow> u64 \<Rightarrow> u64 \<Rightarrow> nat \<Rightarrow> int" where
  "memcmp m p1 p2 0 = 0"
| "memcmp m p1 p2 (Suc n) =
     (if m p1 \<noteq> m p2 then uint (m p1) - uint (m p2)
      else memcmp m (p1 + 1) (p2 + 1) n)"

partial_function (option) strlen_loop :: "mem \<Rightarrow> u64 \<Rightarrow> u64 \<Rightarrow> u64 option" where
  "strlen_loop m s n = (if m (s + n) = 0 then Some n else strlen_loop m s (n + 1))"

definition strlen :: "mem \<Rightarrow> u64 \<Rightarrow> u64 option" where
  "strlen m s = strlen_loop m s 0"

partial_function (option) strcmp :: "mem \<Rightarrow> u64 \<Rightarrow> u64 \<Rightarrow> int option" where
  "strcmp m s1 s2 =
     (if m s1 \<noteq> 0 \<and> m s1 = m s2 then strcmp m (s1 + 1) (s2 + 1)
      else Some (uint (m s1) - uint (m s2)))"

primrec strncmp :: "mem \<Rightarrow> u64 \<Rightarrow> u64 \<Rightarrow> nat \<Rightarrow> int" where
  "strncmp m s1 s2 0 = 0"
| "strncmp m s1 s2 (Suc n) =
     (if m s1 = 0 \<or> m s2 = 0 \<or> m s1 \<noteq> m s2 then uint (m s1) - uint (m s2)
      else strncmp m (s1 + 1) (s2 + 1) n)"

primrec strncpy :: "mem \<Rightarrow> u64 \<Rightarrow> u64 \<Rightarrow> nat \<Rightarrow> mem" where
  "strncpy m d s 0 = m"
| "strncpy m d s (Suc n) =
     (if m s \<noteq> 0 then strncpy (m(d := m s)) (d + 1) (s + 1) n
      else memset m d 0 (Suc n))"

partial_function (option) strchr :: "mem \<Rightarrow> u64 \<Rightarrow> int \<Rightarrow> u64 option option" where
  "strchr m s c =
     (if m s = 0 then Some None
      else if sint (m s) = c then Some (Some s)
      else strchr m (s + 1) c)"

partial_function (option) strrchr_loop ::
    "mem \<Rightarrow> u64 \<Rightarrow> u8 \<Rightarrow> u64 option \<Rightarrow> u64 option option" where
  "strrchr_loop m s c last_p =
     (if m s = 0 then Some last_p
      else strrchr_loop m (s + 1) c (if m s = c then Some s else last_p))"

definition strrchr :: "mem \<Rightarrow> u64 \<Rightarrow> u8 \<Rightarrow> u64 option option" where
  "strrchr m s c = strrchr_loop m s c None"

primrec strncat_loop :: "mem \<Rightarrow> u64 \<Rightarrow> u64 \<Rightarrow> nat \<Rightarrow> mem" where
  "strncat_loop m d s 0 = m(d := 0)"
| "strncat_loop m d s (Suc n) =
     (if m s \<noteq> 0 then strncat_loop (m(d := m s)) (d + 1) (s + 1) n
      else m(d := 0))"

definition strncat :: "mem \<Rightarrow> u64 \<Rightarrow> u64 \<Rightarrow> nat \<Rightarrow> mem option" where
  "strncat m d s n =
     (case strlen m d of None \<Rightarrow> None
      | Some dest_len \<Rightarrow> Some (strncat_loop m (d + dest_len) s n))"

section \<open>Block operations\<close>

lemma unat_pred_offset:
  "(a :: u64) \<noteq> s \<Longrightarrow> unat (a - (s + 1)) = unat (a - s) - 1 \<and> 0 < unat (a - s)"
  by (simp add: diff_diff_add [symmetric] word_nat unat_gt_0)

lemma memset_eq:
  "n \<le> 2 ^ 64 \<Longrightarrow> memset m s c n a = (if unat (a - s) < n then c else m a)"
proof (induction n arbitrary: m s)
  case (Suc n)
  then show ?case
    using unat_pred_offset [of a s] by (cases "a = s") auto
qed simp

lemma memcpy_eq:
  assumes "n \<le> 2 ^ 64" and "unat (d - s) = 0 \<or> n \<le> unat (d - s)"
  shows "memcpy m d s n a = (if unat (a - d) < n then m (s + (a - d)) else m a)"
  using assms
proof (induction n arbitrary: m d s)
  case (Suc n)
  have IH: "memcpy (m(d := m s)) (d + 1) (s + 1) n a =
      (if unat (a - (d + 1)) < n then (m(d := m s)) (s + 1 + (a - (d + 1)))
       else (m(d := m s)) a)"
    using Suc.prems by (intro Suc.IH) auto
  show ?case
  proof (cases "a = d")
    case True
    then show ?thesis using Suc.prems IH by auto
  next
    case False
    have "s + (a - d) \<noteq> d" if "unat (a - d) \<le> n"
    proof
      assume "s + (a - d) = d"
      then have "d - s = a - d" by (metis add_diff_cancel_left')
      with that Suc.prems False show False by (auto simp: unat_eq_zero)
    qed
    then show ?thesis
      using IH False unat_pred_offset [of a d] by (auto simp: algebra_simps)
  qed
qed simp

lemma copy_down_eq:
  assumes "n \<le> 2 ^ 64" and "unat (s - d) = 0 \<or> n \<le> unat (s - d)"
  shows "copy_down m (d + of_nat n) (s + of_nat n) n a =
    (if unat (a - d) < n then m (s + (a - d)) else m a)"
  using assms
proof (induction n arbitrary: m)
  case (Suc n)
  let ?n = "of_nat n :: u64"
  let ?m = "m(d + ?n := m (s + ?n))"
  have n: "unat ?n = n" using Suc.prems by (simp add: word_nat)
  have IH: "copy_down ?m (d + ?n) (s + ?n) n a =
      (if unat (a - d) < n then ?m (s + (a - d)) else ?m a)"
    using Suc.prems by (intro Suc.IH) auto
  have ne: "s + (a - d) \<noteq> d + ?n" if "unat (a - d) < n"
  proof
    assume "s + (a - d) = d + ?n"
    then have "s - d = ?n - (a - d)" by (simp add: algebra_simps)
    moreover have "unat (?n - (a - d)) = n - unat (a - d)"
      using that n by (simp add: unat_sub word_le_nat_alt)
    ultimately have "unat (s - d) = n - unat (a - d)" by metis
    with that Suc.prems show False by linarith
  qed
  have "a = d + ?n \<longleftrightarrow> unat (a - d) = n"
    using n by (metis add_diff_cancel_left' diff_add_cancel unsigned_word_eqI)
  then show ?case
    using IH ne n by (auto simp: algebra_simps)
qed simp

section \<open>C strings in memory\<close>

text \<open>\<open>cstr_at m p s\<close>: the NUL-free bytes \<open>s\<close> lie at address \<open>p\<close>, followed by a NUL.\<close>

definition cstr_at :: "mem \<Rightarrow> u64 \<Rightarrow> u8 list \<Rightarrow> bool" where
  "cstr_at m p s \<longleftrightarrow> length s < 2 ^ 64 \<and> 0 \<notin> set s \<and> m (p + of_nat (length s)) = 0 \<and>
     (\<forall>i < length s. m (p + of_nat i) = s ! i)"

lemma cstr_at_Nil [simp]: "cstr_at m p [] \<longleftrightarrow> m p = 0"
  by (simp add: cstr_at_def)

lemma cstr_at_Cons [simp]:
  "cstr_at m p (c # s) \<longleftrightarrow> m p = c \<and> c \<noteq> 0 \<and> cstr_at m (p + 1) s \<and> Suc (length s) < 2 ^ 64"
  by (auto simp: cstr_at_def less_Suc_eq_0_disj algebra_simps)

lemma cstr_at_unique: "cstr_at m p s \<Longrightarrow> cstr_at m p t \<Longrightarrow> s = t"
proof (induction s arbitrary: p t)
  case (Cons c s)
  then show ?case by (cases t) auto
next
  case Nil
  then show ?case by (cases t) auto
qed

lemma strlen_loop_cstr:
  "cstr_at m (p + n) s \<Longrightarrow> strlen_loop m p n = Some (n + of_nat (length s))"
proof (induction s arbitrary: n)
  case Nil
  then show ?case by (simp add: strlen_loop.simps)
next
  case (Cons c s)
  from Cons.prems have "strlen_loop m p (n + 1) = Some (n + 1 + of_nat (length s))"
    by (intro Cons.IH) (simp add: add.assoc)
  with Cons.prems show ?case
    by (subst strlen_loop.simps) (simp add: algebra_simps)
qed

lemma strcmp_cstr:
  "cstr_at m p s \<Longrightarrow> cstr_at m q t \<Longrightarrow> \<exists>r. strcmp m p q = Some r \<and>
     (r = 0 \<longleftrightarrow> s = t) \<and> (r < 0 \<longleftrightarrow> ord_class.lexordp s t)"
proof (induction s arbitrary: p q t)
  case Nil
  then show ?case
    by (cases t)
      (auto simp: strcmp.simps [of m p q] uint_0_iff unsigned_eq_0_iff
        simp flip: word_neq_0_conv intro: order_neq_le_trans)
next
  case (Cons c s)
  show ?case
  proof (cases t)
    case Nil
    with Cons.prems show ?thesis
      by (auto simp: strcmp.simps [of m p q] uint_0_iff)
  next
    case (Cons d u)
    with Cons.prems Cons.IH [of "p + 1" "q + 1" u] show ?thesis
      by (cases "c = d") (auto simp: strcmp.simps [of m p q] word_less_def not_less_iff_gr_or_eq)
  qed
qed

lemma strncmp_eq_0:
  assumes "cstr_at m p s" and "cstr_at m q t"
  shows "strncmp m p q n = 0 \<longleftrightarrow> take n s = take n t"
  using assms
proof (induction n arbitrary: p q s t)
  case (Suc n)
  then show ?case
    by (cases s; cases t) (auto simp: uint_0_iff)
qed simp

lemma memcmp_eq_0: "memcmp m p q n = 0 \<longleftrightarrow> (\<forall>i < n. m (p + of_nat i) = m (q + of_nat i))"
proof (induction n arbitrary: p q)
  case (Suc n)
  show ?case
    unfolding less_Suc_eq_0_disj by (auto simp: Suc.IH algebra_simps)
qed simp

lemma cstr_at_upd:
  "cstr_at m p s \<Longrightarrow> \<forall>i \<le> length s. p + of_nat i \<noteq> d \<Longrightarrow> cstr_at (m(d := c)) p s"
  by (auto simp: cstr_at_def)

lemma unat_offset_Suc: "Suc n \<le> unat ((x :: u64) - d) \<Longrightarrow> n \<le> unat (x - (d + 1))"
  using unat_pred_offset [of x d] by (cases "x = d") auto

lemma strncpy_eq:
  assumes "cstr_at m s t" and "n \<le> 2 ^ 64"
    and "\<forall>i \<le> length t. n \<le> unat (s + of_nat i - d)"
  shows "strncpy m d s n a =
    (if unat (a - d) < n then (if unat (a - d) < length t then t ! unat (a - d) else 0) else m a)"
  using assms
proof (induction n arbitrary: m d s t)
  case (Suc n)
  show ?case
  proof (cases t)
    case Nil
    with Suc.prems show ?thesis
      by (simp add: memset_eq del: memset.simps)
  next
    case (Cons c u)
    let ?m = "m(d := c)"
    have away: "Suc n \<le> unat (s + of_nat i - d)" if "i \<le> Suc (length u)" for i
      using Suc.prems(3) Cons that by (metis length_Cons)
    have off: "Suc n \<le> unat (s + 1 + of_nat i - d)" if "i \<le> length u" for i
      using away [of "Suc i"] that by (simp add: algebra_simps)
    have u: "cstr_at ?m (s + 1) u"
      using Suc.prems(1) Cons off by (intro cstr_at_upd) fastforce+
    have far: "n \<le> unat (s + 1 + of_nat i - (d + 1))" if "i \<le> length u" for i
      by (rule unat_offset_Suc) (rule off [OF that])
    have IH: "strncpy ?m (d + 1) (s + 1) n a =
      (if unat (a - (d + 1)) < n
       then (if unat (a - (d + 1)) < length u then u ! unat (a - (d + 1)) else 0) else ?m a)"
      using far Suc.prems(2) by (intro Suc.IH [OF u]) auto
    show ?thesis
      using Suc.prems Cons IH unat_pred_offset [of a d]
      by (cases "a = d") (auto simp: nth_Cons')
  qed
qed simp

section \<open>Properties\<close>

text \<open>
  \<open>memmove\<close> copies its source range even when the two ranges overlap: after the
  call every byte of the destination is the byte the source held before, and no
  other byte of memory has changed.
\<close>

theorem memmove_correct:
  assumes "unat d + n \<le> 2 ^ 64" and "unat s + n \<le> 2 ^ 64"
  shows "memmove m d s n a = (if unat (a - d) < n then m (s + (a - d)) else m a)"
proof (cases "d < s")
  case True
  then have "unat (d - s) = 2 ^ 64 - (unat s - unat d)"
    by (simp add: unat_sub_if' word_less_nat_alt)
  with assms have "n \<le> unat (d - s)" by linarith
  with assms True show ?thesis
    by (simp only: memmove_def if_True) (rule memcpy_eq; linarith)
next
  case False
  then have "unat (s - d) = 0 \<or> unat (s - d) = 2 ^ 64 - (unat d - unat s)"
    by (auto simp: unat_sub_if' word_less_nat_alt)
  with assms have "unat (s - d) = 0 \<or> n \<le> unat (s - d)" by linarith
  with assms False show ?thesis
    by (simp only: memmove_def if_False) (rule copy_down_eq; linarith)
qed

theorem memmove_correct_witness:
  "unat (1 :: u64) + 2 \<le> 2 ^ 64 \<and> unat (0 :: u64) + 2 \<le> 2 ^ 64 \<and>
   memmove (\<lambda>a. ucast a) 1 0 2 2 = 1"
  using memmove_correct [of 1 2 0 "\<lambda>a. ucast a" 2] by simp

text \<open>
  \<open>strlen\<close> and \<open>strcmp\<close> return on every NUL-terminated string, with the length
  and with a result that is zero exactly for equal strings and negative exactly
  when the first string is lexicographically smaller (bytes unsigned).
\<close>

theorem strlen_strcmp_correct:
  assumes "cstr_at m p s" and "cstr_at m q t"
  shows "strlen m p = Some (of_nat (length s)) \<and>
    (\<exists>r. strcmp m p q = Some r \<and> (r = 0 \<longleftrightarrow> s = t) \<and> (r < 0 \<longleftrightarrow> ord_class.lexordp s t))"
  using assms strlen_loop_cstr [of m p 0 s] strcmp_cstr by (simp add: strlen_def)

theorem strlen_strcmp_correct_witness:
  "strlen ((\<lambda>_. 0)(5 := 65)) 5 = Some 1 \<and>
   (\<exists>r. strcmp ((\<lambda>_. 0)(5 := 65)) 5 0 = Some r \<and> \<not> r < 0)"
proof -
  have h: "cstr_at ((\<lambda>_. 0)(5 := 65)) 5 [65]" "cstr_at ((\<lambda>_. 0)(5 := 65)) 0 []"
    by simp_all
  show ?thesis
    using strlen_strcmp_correct [OF h] by auto
qed

end
