(* ===== verification/RingBuf.thy ===== *)
theory RingBuf
  imports OsPrelude
begin

text \<open>
  \<open>src/kernel/ipc/ringbuf.h\<close>: the single-producer single-consumer ring buffer that
  carries driver streams and the messages of ports. The record holds the shared
  header and the data area that follows it; \<open>write_idx\<close> and \<open>read_idx\<close> are the
  monotonic 64-bit counters, kept at their width. \<open>ringbuf_contents\<close> is the FIFO
  queue a ring stands for, and the operations refine enqueue and dequeue on it.
\<close>

section \<open>State and operations\<close>

record ringbuf =
  magic :: u64
  version :: u32
  slot_size :: u32
  slot_count :: u32
  rb_pad :: u32
  write_idx :: u64
  read_idx :: u64
  rb_reserved :: "u8 list"
  rb_data :: "u8 list"

definition RINGBUF_MAGIC :: u64 where
  "RINGBUF_MAGIC = 0x52494E4742554631"

definition RINGBUF_VERSION :: u32 where
  "RINGBUF_VERSION = 1"

definition is_pow2 :: "u32 \<Rightarrow> bool" where
  "is_pow2 n \<longleftrightarrow> n \<noteq> 0 \<and> (n AND (n - 1)) = 0"

definition ringbuf_required_size :: "u32 \<Rightarrow> u32 \<Rightarrow> u64" where
  "ringbuf_required_size ss sc = 64 + ucast ss * ucast sc"

text \<open>\<open>mem\<close> is \<open>None\<close> for a null pointer; the bytes after the header become the data area.\<close>

definition ringbuf_init :: "ringbuf option \<Rightarrow> u32 \<Rightarrow> u32 \<Rightarrow> int \<times> ringbuf option" where
  "ringbuf_init mem ss sc =
     (case mem of None \<Rightarrow> (-1, None)
      | Some rb \<Rightarrow>
          if \<not> is_pow2 ss \<or> ss < 8 then (-1, mem)
          else if \<not> is_pow2 sc \<or> sc < 2 then (-1, mem)
          else (0, Some (rb\<lparr>magic := RINGBUF_MAGIC, version := RINGBUF_VERSION,
                 slot_size := ss, slot_count := sc, rb_pad := 0,
                 write_idx := 0, read_idx := 0,
                 rb_reserved := replicate 24 0,
                 rb_data := replicate (unat ss * unat sc) 0\<rparr>)))"

definition ringbuf_valid :: "ringbuf option \<Rightarrow> bool" where
  "ringbuf_valid mem =
     (case mem of None \<Rightarrow> False
      | Some rb \<Rightarrow> magic rb = RINGBUF_MAGIC \<and> version rb = RINGBUF_VERSION \<and>
          is_pow2 (slot_size rb) \<and> slot_size rb \<ge> 8 \<and>
          is_pow2 (slot_count rb) \<and> slot_count rb \<ge> 2)"

text \<open>Byte offset in the data area of the slot that a counter value selects.\<close>

definition slot_off :: "ringbuf \<Rightarrow> u64 \<Rightarrow> nat" where
  "slot_off rb idx = unat ((idx AND ucast (slot_count rb - 1)) * ucast (slot_size rb))"

definition ringbuf_push :: "ringbuf \<Rightarrow> u8 list \<Rightarrow> u32 \<Rightarrow> int \<times> ringbuf" where
  "ringbuf_push rb data sz =
     (let widx = write_idx rb; ridx = read_idx rb in
      if widx - ridx = ucast (slot_count rb) then (-1, rb)
      else if sz > slot_size rb then (-1, rb)
      else (0, rb\<lparr>rb_data := buf_write (rb_data rb) (slot_off rb widx) (take (unat sz) data),
                  write_idx := widx + 1\<rparr>))"

primrec push_loop :: "ringbuf \<Rightarrow> u8 list \<Rightarrow> u8 list \<Rightarrow> nat \<Rightarrow> nat \<Rightarrow> u64 \<Rightarrow> u8 list" where
  "push_loop rb dat src item_size 0 widx = dat"
| "push_loop rb dat src item_size (Suc n) widx =
     push_loop rb (buf_write dat (slot_off rb widx) (take item_size src))
       (drop item_size src) item_size n (widx + 1)"

definition ringbuf_push_batch :: "ringbuf \<Rightarrow> u8 list \<Rightarrow> u32 \<Rightarrow> u32 \<Rightarrow> u32 \<times> ringbuf" where
  "ringbuf_push_batch rb items item_size n =
     (let widx = write_idx rb; ridx = read_idx rb;
          avail = slot_count rb - ucast (widx - ridx);
          n = (if avail < n then avail else n) in
      if item_size > slot_size rb then (0, rb)
      else (n, rb\<lparr>rb_data := push_loop rb (rb_data rb) items (unat item_size) (unat n) widx,
                  write_idx := widx + ucast n\<rparr>))"

definition ringbuf_pop :: "ringbuf \<Rightarrow> u32 \<Rightarrow> int \<times> u8 list \<times> ringbuf" where
  "ringbuf_pop rb sz =
     (let ridx = read_idx rb; widx = write_idx rb in
      if ridx = widx then (-1, [], rb)
      else if sz > slot_size rb then (-1, [], rb)
      else (0, buf_read (rb_data rb) (slot_off rb ridx) (unat sz),
            rb\<lparr>read_idx := ridx + 1\<rparr>))"

primrec pop_loop :: "ringbuf \<Rightarrow> nat \<Rightarrow> nat \<Rightarrow> u64 \<Rightarrow> u8 list" where
  "pop_loop rb item_size 0 ridx = []"
| "pop_loop rb item_size (Suc n) ridx =
     buf_read (rb_data rb) (slot_off rb ridx) item_size @ pop_loop rb item_size n (ridx + 1)"

definition ringbuf_pop_batch :: "ringbuf \<Rightarrow> u32 \<Rightarrow> u32 \<Rightarrow> u32 \<times> u8 list \<times> ringbuf" where
  "ringbuf_pop_batch rb item_size n =
     (let ridx = read_idx rb; widx = write_idx rb;
          avail = ucast (widx - ridx);
          n = (if avail < n then avail else n) in
      if item_size > slot_size rb then (0, [], rb)
      else (n, pop_loop rb (unat item_size) (unat n) ridx, rb\<lparr>read_idx := ridx + ucast n\<rparr>))"

definition ringbuf_used :: "ringbuf \<Rightarrow> u32" where
  "ringbuf_used rb =
     (let d = ucast (write_idx rb - read_idx rb) in
      if d < slot_count rb then d else slot_count rb)"

definition ringbuf_free :: "ringbuf \<Rightarrow> u32" where
  "ringbuf_free rb = slot_count rb - ringbuf_used rb"

definition ringbuf_empty :: "ringbuf \<Rightarrow> bool" where
  "ringbuf_empty rb \<longleftrightarrow> write_idx rb = read_idx rb"

definition ringbuf_full :: "ringbuf \<Rightarrow> bool" where
  "ringbuf_full rb \<longleftrightarrow> ringbuf_used rb = slot_count rb"

section \<open>Invariant and abstraction\<close>

lemma is_pow2_iff: "is_pow2 n \<longleftrightarrow> (\<exists>k < 32. n = 2 ^ k)"
proof
  assume n: "is_pow2 n"
  then have "unat (n AND (n - 1)) = 0" "n \<noteq> 0" by (auto simp: is_pow2_def)
  then have "(unat n AND (unat n - 1)) = 0" "0 < unat n"
    by (simp_all add: unsigned_and_eq word_nat unat_gt_0)
  then obtain k where k: "unat n = 2 ^ k" using nat_and_pred_pow2 by blast
  have "2 ^ k < (2 ^ 32 :: nat)" using unat_lt_2p32 [of n] k by simp
  then have "k < 32" using power_less_imp_less_exp [of "2::nat" k 32] by simp
  moreover from k have "n = 2 ^ k"
    by (metis of_nat_numeral of_nat_power of_nat_unat ucast_id)
  ultimately show "\<exists>k < 32. n = 2 ^ k" by blast
next
  assume "\<exists>k < 32. n = 2 ^ k"
  then obtain k where k: "k < 32" "n = 2 ^ k" by blast
  have "(2 ^ k AND (2 ^ k - 1 :: u32)) = 0"
    by (rule bit_word_eqI) (auto simp: bit_simps simp flip: mask_eq_exp_minus_1)
  moreover have "(2 ^ k :: u32) \<noteq> 0" using k(1) by simp
  ultimately show "is_pow2 n" by (simp add: is_pow2_def k)
qed

lemma pow2_mask:
  assumes "is_pow2 n"
  shows "unat ((w :: u64) AND ucast (n - 1)) = unat w mod unat n"
proof -
  from assms obtain k where k: "k < 32" "n = 2 ^ k" by (auto simp: is_pow2_iff)
  have "(ucast (n - 1) :: u64) = mask k"
    unfolding k(2) using k(1)
    by (auto simp: bit_eq_iff bit_simps simp flip: mask_eq_exp_minus_1)
  moreover have "unat n = 2 ^ k" using k by (simp add: unat_pow2)
  ultimately show ?thesis
    by (simp add: take_bit_eq_mask [symmetric] unsigned_take_bit_eq)
      (simp add: take_bit_eq_mod)
qed

lemma pow2_dvd: "is_pow2 n \<Longrightarrow> unat n dvd 2 ^ 64"
  using le_imp_power_dvd [of _ 64 "2::nat"] by (auto simp: is_pow2_iff unat_pow2)

lemma pow2_add_mod:
  assumes "is_pow2 n"
  shows "unat ((w :: u64) + of_nat i) mod unat n = (unat w + i) mod unat n"
proof -
  have "unat (w + of_nat i) = (unat w + i) mod 2 ^ 64"
    by (simp add: unat_word_ariths unat_of_nat take_bit_eq_mod mod_simps)
  then show ?thesis
    using pow2_dvd [OF assms] by (simp add: mod_mod_cancel)
qed

definition rb_inv :: "ringbuf \<Rightarrow> bool" where
  "rb_inv rb \<longleftrightarrow> ringbuf_valid (Some rb) \<and>
     length (rb_data rb) = unat (slot_count rb) * unat (slot_size rb) \<and>
     unat (write_idx rb - read_idx rb) \<le> unat (slot_count rb)"

definition slot_at :: "ringbuf \<Rightarrow> u64 \<Rightarrow> u8 list" where
  "slot_at rb idx = buf_read (rb_data rb) (slot_off rb idx) (unat (slot_size rb))"

definition ringbuf_len :: "ringbuf \<Rightarrow> nat" where
  "ringbuf_len rb = unat (write_idx rb - read_idx rb)"

definition ringbuf_contents :: "ringbuf \<Rightarrow> u8 list list" where
  "ringbuf_contents rb = map (\<lambda>i. slot_at rb (read_idx rb + of_nat i)) [0..<ringbuf_len rb]"

lemma length_contents [simp]: "length (ringbuf_contents rb) = ringbuf_len rb"
  by (simp add: ringbuf_contents_def)

lemma rb_inv_pow2 [dest]:
  "rb_inv rb \<Longrightarrow> is_pow2 (slot_count rb)"
  "rb_inv rb \<Longrightarrow> is_pow2 (slot_size rb)"
  by (simp_all add: rb_inv_def ringbuf_valid_def)

lemma is_pow2_pos: "is_pow2 n \<Longrightarrow> 0 < unat n"
  by (simp add: is_pow2_def unat_gt_0)

lemma slot_off_eq:
  assumes "is_pow2 (slot_count rb)"
  shows "slot_off rb idx = (unat idx mod unat (slot_count rb)) * unat (slot_size rb)"
proof -
  let ?i = "unat idx mod unat (slot_count rb)"
  have "?i < 2 ^ 32" "unat (slot_size rb) < 2 ^ 32"
    using is_pow2_pos [OF assms] unat_lt_2p32 [of "slot_count rb"] unat_lt_2p32 [of "slot_size rb"]
    by (auto intro: less_trans [OF mod_less_divisor])
  then have "?i * unat (slot_size rb) < 2 ^ 32 * 2 ^ 32"
    by (intro mult_strict_mono) auto
  then show ?thesis
    using pow2_mask [OF assms, of idx]
    by (simp add: slot_off_def unat_word_ariths)
qed

lemma slot_off_add:
  assumes "is_pow2 (slot_count rb)"
  shows "slot_off rb (idx + of_nat i) =
    ((unat idx + i) mod unat (slot_count rb)) * unat (slot_size rb)"
  using slot_off_eq [OF assms] pow2_add_mod [OF assms] by simp

lemma slot_off_bound:
  assumes "rb_inv rb"
  shows "slot_off rb idx + unat (slot_size rb) \<le> length (rb_data rb)"
proof -
  have "Suc (unat idx mod unat (slot_count rb)) \<le> unat (slot_count rb)"
    using assms is_pow2_pos by (simp add: Suc_leI rb_inv_pow2)
  then have "Suc (unat idx mod unat (slot_count rb)) * unat (slot_size rb) \<le> length (rb_data rb)"
    using assms unfolding rb_inv_def by (metis mult_le_mono1)
  with assms show ?thesis by (simp add: slot_off_eq rb_inv_pow2)
qed

lemma slots_apart:
  assumes "rb_inv rb" and "i \<noteq> j" and "i < unat (slot_count rb)" and "j < unat (slot_count rb)"
  shows "slot_off rb (idx + of_nat i) + unat (slot_size rb) \<le> slot_off rb (idx + of_nat j) \<or>
         slot_off rb (idx + of_nat j) + unat (slot_size rb) \<le> slot_off rb (idx + of_nat i)"
proof -
  let ?a = "(unat idx + i) mod unat (slot_count rb)"
  let ?b = "(unat idx + j) mod unat (slot_count rb)"
  have "?a \<noteq> ?b" using mod_add_inj [of "unat idx" i _ j] assms by blast
  then have "Suc ?a \<le> ?b \<or> Suc ?b \<le> ?a" by linarith
  then have "Suc ?a * unat (slot_size rb) \<le> ?b * unat (slot_size rb) \<or>
      Suc ?b * unat (slot_size rb) \<le> ?a * unat (slot_size rb)"
    by (metis mult_le_mono1)
  with assms(1) show ?thesis by (simp add: slot_off_add rb_inv_pow2 add.commute)
qed

lemma slot_at_write_part_other:
  assumes "rb_inv rb" and "k + length x \<le> unat (slot_size rb)"
    and "i \<noteq> j" and "i < unat (slot_count rb)" and "j < unat (slot_count rb)"
  shows "slot_at (rb\<lparr>rb_data := buf_write (rb_data rb) (slot_off rb (idx + of_nat j) + k) x\<rparr>)
      (idx + of_nat i) = slot_at rb (idx + of_nat i)"
proof -
  have b: "slot_off rb (idx + of_nat k) + unat (slot_size rb) \<le> length (rb_data rb)" for k
    by (rule slot_off_bound [OF assms(1)])
  show ?thesis
    using slots_apart [OF assms(1,3-), of idx] b [of i] b [of j] assms(2)
    unfolding slot_at_def by (auto simp: slot_off_def intro!: buf_read_write_other)
qed

lemmas slot_at_write_other = slot_at_write_part_other [where k = 0, simplified]

lemma slot_at_write_same:
  assumes "rb_inv rb" and "length x \<le> unat (slot_size rb)"
  shows "slot_at (rb\<lparr>rb_data := buf_write (rb_data rb) (slot_off rb idx) x\<rparr>) idx =
    x @ drop (length x) (slot_at rb idx)"
  using slot_off_bound [OF assms(1), of idx] assms(2)
  by (simp add: slot_at_def slot_off_def buf_read_write_prefix)

lemma slot_at_update_idx [simp]:
  "slot_at (rb\<lparr>write_idx := w\<rparr>) i = slot_at rb i"
  "slot_at (rb\<lparr>read_idx := w\<rparr>) i = slot_at rb i"
  by (simp_all add: slot_at_def slot_off_def)

section \<open>The sequential operations refine a bounded queue\<close>

lemma ringbuf_len_less_2p64: "ringbuf_len rb < 2 ^ 64"
  by (simp add: ringbuf_len_def)

lemma full_iff: "write_idx rb - read_idx rb = ucast (slot_count rb) \<longleftrightarrow>
    ringbuf_len rb = unat (slot_count rb)"
  unfolding ringbuf_len_def by (metis unat_ucast_32_64 unat_eq_unat_iff)

lemma empty_iff: "read_idx rb = write_idx rb \<longleftrightarrow> ringbuf_len rb = 0"
  by (auto simp: ringbuf_len_def unat_eq_zero)

lemma write_idx_conv: "write_idx rb = read_idx rb + of_nat (ringbuf_len rb)"
  by (simp add: ringbuf_len_def)

text \<open>Advancing a counter is what makes a slot enter or leave the queue.\<close>

lemma advance_write:
  assumes "rb_inv rb" and "ringbuf_len rb < unat (slot_count rb)"
  shows "rb_inv (rb\<lparr>write_idx := write_idx rb + 1\<rparr>) \<and>
    ringbuf_contents (rb\<lparr>write_idx := write_idx rb + 1\<rparr>) =
      ringbuf_contents rb @ [slot_at rb (write_idx rb)]"
proof -
  let ?r = "rb\<lparr>write_idx := write_idx rb + 1\<rparr>"
  have rlen: "ringbuf_len ?r = Suc (ringbuf_len rb)"
    using less_trans [OF assms(2) unat_lt_2p32]
    by (simp add: ringbuf_len_def diff_add_eq [symmetric] unat_Suc_u64)
  then have "rb_inv ?r"
    using assms by (simp add: rb_inv_def ringbuf_valid_def ringbuf_len_def)
  moreover have "ringbuf_contents ?r = ringbuf_contents rb @ [slot_at rb (write_idx rb)]"
    unfolding ringbuf_contents_def rlen by (simp add: write_idx_conv [symmetric])
  ultimately show ?thesis by blast
qed

lemma advance_read:
  assumes "rb_inv rb" and "0 < ringbuf_len rb"
  shows "rb_inv (rb\<lparr>read_idx := read_idx rb + 1\<rparr>) \<and>
    ringbuf_contents rb =
      slot_at rb (read_idx rb) # ringbuf_contents (rb\<lparr>read_idx := read_idx rb + 1\<rparr>)"
proof -
  let ?r = "rb\<lparr>read_idx := read_idx rb + 1\<rparr>"
  have rlen: "ringbuf_len ?r = ringbuf_len rb - 1"
    using assms(2) unfolding ringbuf_len_def
    by (simp add: diff_diff_add [symmetric] word_nat unat_gt_0)
  then have "rb_inv ?r"
    using assms(1) by (auto simp: rb_inv_def ringbuf_valid_def ringbuf_len_def)
  moreover have "ringbuf_contents rb = slot_at rb (read_idx rb) # ringbuf_contents ?r"
    using assms(2) rlen unfolding ringbuf_contents_def
    by (cases "ringbuf_len rb")
      (simp_all add: upt_rec [of 0] map_Suc_upt [symmetric] algebra_simps del: upt_Suc)
  ultimately show ?thesis by blast
qed

lemma write_slot_inv:
  assumes "rb_inv rb" and "ringbuf_len rb < unat (slot_count rb)"
    and "k + length x \<le> unat (slot_size rb)"
  shows "rb_inv (rb\<lparr>rb_data := buf_write (rb_data rb) (slot_off rb (write_idx rb) + k) x\<rparr>) \<and>
    ringbuf_contents (rb\<lparr>rb_data := buf_write (rb_data rb) (slot_off rb (write_idx rb) + k) x\<rparr>) =
      ringbuf_contents rb"
proof -
  let ?d = "rb\<lparr>rb_data := buf_write (rb_data rb) (slot_off rb (write_idx rb) + k) x\<rparr>"
  have "slot_at ?d (read_idx rb + of_nat i) = slot_at rb (read_idx rb + of_nat i)"
    if "i < ringbuf_len rb" for i
    using slot_at_write_part_other [OF assms(1,3), of i "ringbuf_len rb" "read_idx rb"] that assms(2)
    by (simp add: write_idx_conv)
  moreover have "ringbuf_len ?d = ringbuf_len rb" by (simp add: ringbuf_len_def)
  ultimately have "ringbuf_contents ?d = ringbuf_contents rb"
    by (simp add: ringbuf_contents_def)
  moreover have "rb_inv ?d"
    using assms slot_off_bound [OF assms(1), of "write_idx rb"]
    by (simp add: rb_inv_def ringbuf_valid_def)
  ultimately show ?thesis by blast
qed

lemma ringbuf_push_full:
  "ringbuf_len rb = unat (slot_count rb) \<Longrightarrow> ringbuf_push rb x n = (-1, rb)"
  by (simp add: ringbuf_push_def full_iff)

lemma ringbuf_push_room:
  assumes "rb_inv rb" and "ringbuf_len rb < unat (slot_count rb)"
    and "n \<le> slot_size rb" and "unat n \<le> length x"
  shows "\<exists>rb'. ringbuf_push rb x n = (0, rb') \<and> rb_inv rb' \<and>
    ringbuf_contents rb' = ringbuf_contents rb @
      [take (unat n) x @ drop (unat n) (slot_at rb (write_idx rb))] \<and>
    slot_size rb' = slot_size rb \<and> slot_count rb' = slot_count rb"
proof -
  let ?x = "take (unat n) x"
  let ?d = "rb\<lparr>rb_data := buf_write (rb_data rb) (slot_off rb (write_idx rb)) ?x\<rparr>"
  have len: "length ?x = unat n" "unat n \<le> unat (slot_size rb)"
    using assms by (simp_all add: word_le_nat_alt)
  have d: "rb_inv ?d" "ringbuf_contents ?d = ringbuf_contents rb" "ringbuf_len ?d = ringbuf_len rb"
    using write_slot_inv [OF assms(1,2), of 0 ?x] len by (simp_all add: ringbuf_len_def)
  have new: "slot_at ?d (write_idx rb) = ?x @ drop (unat n) (slot_at rb (write_idx rb))"
    using slot_at_write_same [OF assms(1), of ?x "write_idx rb"] len by simp
  have "ringbuf_push rb x n = (0, ?d\<lparr>write_idx := write_idx ?d + 1\<rparr>)"
    using assms full_iff [of rb] by (auto simp: ringbuf_push_def Let_def)
  then show ?thesis using advance_write [of ?d] d new assms(2) by auto
qed

lemma ringbuf_pop_empty: "ringbuf_len rb = 0 \<Longrightarrow> ringbuf_pop rb n = (-1, [], rb)"
  by (simp add: ringbuf_pop_def empty_iff)

lemma ringbuf_pop_item:
  assumes "rb_inv rb" and "ringbuf_contents rb = x # xs" and "n \<le> slot_size rb"
  shows "\<exists>rb'. ringbuf_pop rb n = (0, take (unat n) x, rb') \<and> rb_inv rb' \<and>
    ringbuf_contents rb' = xs \<and> slot_size rb' = slot_size rb \<and> slot_count rb' = slot_count rb"
proof -
  let ?r = "rb\<lparr>read_idx := read_idx rb + 1\<rparr>"
  have pos: "0 < ringbuf_len rb"
    using assms(2) by (metis length_contents length_greater_0_conv list.distinct(1))
  have "rb_inv ?r" "x = slot_at rb (read_idx rb)" "ringbuf_contents ?r = xs"
    using advance_read [OF assms(1) pos] assms(2) by auto
  moreover have "ringbuf_pop rb n = (0, take (unat n) (slot_at rb (read_idx rb)), ?r)"
    using pos assms(3) empty_iff [of rb]
    by (simp add: ringbuf_pop_def slot_at_def take_buf_read word_le_nat_alt Let_def word_less_nat_alt)
  ultimately show ?thesis by simp
qed

section \<open>The queue interface\<close>

text \<open>
  A bounded FIFO as its clients see it: what \<open>push\<close> and \<open>pop\<close> do to the queue the
  state stands for. Histories of calls are lists of \<open>fifo_op\<close>; \<open>fifo_run\<close> returns the
  items accepted, the items delivered and the final state.
\<close>

datatype 'a fifo_op = Push 'a | Pop

fun fifo_run ::
    "('s \<Rightarrow> 'a \<Rightarrow> bool \<times> 's) \<Rightarrow> ('s \<Rightarrow> 'a option \<times> 's) \<Rightarrow> 's \<Rightarrow> 'a fifo_op list \<Rightarrow>
     'a list \<times> 'a list \<times> 's" where
  "fifo_run push pop s [] = ([], [], s)"
| "fifo_run push pop s (Push x # ops) =
     (let (ok, s') = push s x; (acc, del, t) = fifo_run push pop s' ops in
      (if ok then x # acc else acc, del, t))"
| "fifo_run push pop s (Pop # ops) =
     (let (r, s') = pop s; (acc, del, t) = fifo_run push pop s' ops in
      (acc, (case r of None \<Rightarrow> del | Some x \<Rightarrow> x # del), t))"

locale bounded_fifo =
  fixes inv :: "'s \<Rightarrow> bool"
    and contents :: "'s \<Rightarrow> 'a list"
    and cap :: "'s \<Rightarrow> nat"
    and item_ok :: "'s \<Rightarrow> 'a \<Rightarrow> bool"
    and push :: "'s \<Rightarrow> 'a \<Rightarrow> bool \<times> 's"
    and pop :: "'s \<Rightarrow> 'a option \<times> 's"
  assumes contents_le_cap: "inv s \<Longrightarrow> length (contents s) \<le> cap s"
    and push_full: "inv s \<Longrightarrow> item_ok s x \<Longrightarrow> length (contents s) = cap s \<Longrightarrow> push s x = (False, s)"
    and push_room: "inv s \<Longrightarrow> item_ok s x \<Longrightarrow> length (contents s) < cap s \<Longrightarrow>
      \<exists>t. push s x = (True, t) \<and> inv t \<and> contents t = contents s @ [x] \<and>
          cap t = cap s \<and> item_ok t = item_ok s"
    and pop_empty: "inv s \<Longrightarrow> contents s = [] \<Longrightarrow> pop s = (None, s)"
    and pop_item: "inv s \<Longrightarrow> contents s = x # xs \<Longrightarrow>
      \<exists>t. pop s = (Some x, t) \<and> inv t \<and> contents t = xs \<and> cap t = cap s \<and> item_ok t = item_ok s"
begin

lemma push_cases:
  assumes "inv s" and "item_ok s x"
  obtains (full) "push s x = (False, s)" "length (contents s) = cap s"
  | (room) t where "push s x = (True, t)" "inv t" "contents t = contents s @ [x]"
      "cap t = cap s" "item_ok t = item_ok s"
  using assms push_full push_room contents_le_cap by (metis le_neq_implies_less)

lemma pop_cases:
  assumes "inv s"
  obtains (empty) "pop s = (None, s)" "contents s = []"
  | (item) x xs t where "contents s = x # xs" "pop s = (Some x, t)" "inv t" "contents t = xs"
      "cap t = cap s" "item_ok t = item_ok s"
  using assms pop_empty pop_item by (metis neq_Nil_conv)

lemma fifo_order:
  assumes "inv s" and "\<forall>x. Push x \<in> set ops \<longrightarrow> item_ok s x"
    and "fifo_run push pop s ops = (acc, del, t)"
  shows "contents s @ acc = del @ contents t \<and> inv t \<and> cap t = cap s"
  using assms
proof (induction ops arbitrary: s acc del)
  case (Cons op ops)
  show ?case
  proof (cases op)
    case (Push x)
    with Cons.prems have "item_ok s x" by simp
    with Cons.prems(1) show ?thesis
      using Cons Push by (cases rule: push_cases) (force split: prod.splits if_splits)+
  next
    case Pop
    from Cons.prems(1) show ?thesis
      using Cons Pop by (cases rule: pop_cases) (force split: prod.splits if_splits)+
  qed
qed simp

end

text \<open>Whole-slot transfers, as the kernel's ports use the ring, are such a queue.\<close>

definition ring_send :: "ringbuf \<Rightarrow> u8 list \<Rightarrow> bool \<times> ringbuf" where
  "ring_send rb x = (let (rc, rb') = ringbuf_push rb x (slot_size rb) in (rc = 0, rb'))"

definition ring_recv :: "ringbuf \<Rightarrow> u8 list option \<times> ringbuf" where
  "ring_recv rb =
     (let (rc, x, rb') = ringbuf_pop rb (slot_size rb) in (if rc = 0 then Some x else None, rb'))"

definition slot_item :: "ringbuf \<Rightarrow> u8 list \<Rightarrow> bool" where
  "slot_item rb x \<longleftrightarrow> length x = unat (slot_size rb)"

lemma length_slot_at: "rb_inv rb \<Longrightarrow> length (slot_at rb i) = unat (slot_size rb)"
  using slot_off_bound [of rb i] by (simp add: slot_at_def)

lemma contents_slot_item: "rb_inv rb \<Longrightarrow> x \<in> set (ringbuf_contents rb) \<Longrightarrow> slot_item rb x"
  by (auto simp: ringbuf_contents_def slot_item_def length_slot_at)

interpretation ring: bounded_fifo rb_inv ringbuf_contents "\<lambda>rb. unat (slot_count rb)"
  slot_item ring_send ring_recv
proof unfold_locales
  show "length (ringbuf_contents rb) \<le> unat (slot_count rb)" if "rb_inv rb" for rb
    using that by (simp add: rb_inv_def ringbuf_len_def)
next
  show "ring_send rb x = (False, rb)"
    if "length (ringbuf_contents rb) = unat (slot_count rb)" for rb x
    using that by (simp add: ring_send_def ringbuf_push_full)
next
  show "\<exists>t. ring_send rb x = (True, t) \<and> rb_inv t \<and> ringbuf_contents t = ringbuf_contents rb @ [x] \<and>
      unat (slot_count t) = unat (slot_count rb) \<and> slot_item t = slot_item rb"
    if "rb_inv rb" "slot_item rb x" "length (ringbuf_contents rb) < unat (slot_count rb)" for rb x
    using ringbuf_push_room [of rb "slot_size rb" x] length_slot_at [of rb "write_idx rb"] that
    by (auto simp: ring_send_def slot_item_def fun_eq_iff)
next
  show "ring_recv rb = (None, rb)" if "ringbuf_contents rb = []" for rb
    using that ringbuf_pop_empty [of rb "slot_size rb"]
    by (simp add: ring_recv_def flip: length_contents)
next
  show "\<exists>t. ring_recv rb = (Some x, t) \<and> rb_inv t \<and> ringbuf_contents t = xs \<and>
      unat (slot_count t) = unat (slot_count rb) \<and> slot_item t = slot_item rb"
    if "rb_inv rb" "ringbuf_contents rb = x # xs" for rb x xs
    using ringbuf_pop_item [OF that, of "slot_size rb"] contents_slot_item [of rb x] that
    by (auto simp: ring_recv_def slot_item_def fun_eq_iff)
qed

section \<open>Batches\<close>

primrec push_each :: "ringbuf \<Rightarrow> u8 list \<Rightarrow> u32 \<Rightarrow> nat \<Rightarrow> ringbuf" where
  "push_each rb src isz 0 = rb"
| "push_each rb src isz (Suc n) =
     push_each (snd (ringbuf_push rb (take (unat isz) src) isz)) (drop (unat isz) src) isz n"

primrec pop_each :: "ringbuf \<Rightarrow> u32 \<Rightarrow> nat \<Rightarrow> u8 list \<times> ringbuf" where
  "pop_each rb isz 0 = ([], rb)"
| "pop_each rb isz (Suc n) =
     (let (rc, x, rb') = ringbuf_pop rb isz; (xs, rb'') = pop_each rb' isz n in (x @ xs, rb''))"

lemma slot_off_cong [simp]:
  "slot_off (rb\<lparr>rb_data := d\<rparr>) i = slot_off rb i"
  "slot_off (rb\<lparr>write_idx := w\<rparr>) i = slot_off rb i"
  "slot_off (rb\<lparr>read_idx := w\<rparr>) i = slot_off rb i"
  by (simp_all add: slot_off_def)

lemma push_loop_cong [simp]:
  "push_loop (rb\<lparr>rb_data := d\<rparr>) = push_loop rb"
  "push_loop (rb\<lparr>write_idx := w\<rparr>) = push_loop rb"
proof -
  have "push_loop (rb\<lparr>rb_data := d\<rparr>) dat src isz n i = push_loop rb dat src isz n i"
    and "push_loop (rb\<lparr>write_idx := w\<rparr>) dat src isz n i = push_loop rb dat src isz n i"
    for dat src isz n i
    by (induction n arbitrary: dat src i) simp_all
  then show "push_loop (rb\<lparr>rb_data := d\<rparr>) = push_loop rb"
    and "push_loop (rb\<lparr>write_idx := w\<rparr>) = push_loop rb" by blast+
qed

lemma push_each_loop:
  assumes "isz \<le> slot_size rb" and "ringbuf_len rb + n \<le> unat (slot_count rb)"
  shows "push_each rb src isz n =
    rb\<lparr>rb_data := push_loop rb (rb_data rb) src (unat isz) n (write_idx rb),
       write_idx := write_idx rb + of_nat n\<rparr>"
  using assms
proof (induction n arbitrary: rb src)
  case (Suc n)
  let ?r = "rb\<lparr>rb_data := buf_write (rb_data rb) (slot_off rb (write_idx rb)) (take (unat isz) src),
       write_idx := write_idx rb + 1\<rparr>"
  have "ringbuf_len rb < unat (slot_count rb)" using Suc.prems by simp
  then have "ringbuf_len ?r = Suc (ringbuf_len rb)"
    using less_trans [OF \<open>ringbuf_len rb < _\<close> unat_lt_2p32]
    by (simp add: ringbuf_len_def diff_add_eq [symmetric] unat_Suc_u64)
  moreover have "ringbuf_push rb (take (unat isz) src) isz = (0, ?r)"
    using Suc.prems full_iff [of rb] by (auto simp: ringbuf_push_def Let_def)
  ultimately show ?case
    using Suc.IH [of ?r "drop (unat isz) src"] Suc.prems by (simp add: algebra_simps)
qed simp

lemma pop_each_loop:
  assumes "isz \<le> slot_size rb" and "n \<le> ringbuf_len rb"
  shows "pop_each rb isz n =
    (pop_loop rb (unat isz) n (read_idx rb), rb\<lparr>read_idx := read_idx rb + of_nat n\<rparr>)"
  using assms
proof (induction n arbitrary: rb)
  case (Suc n)
  let ?r = "rb\<lparr>read_idx := read_idx rb + 1\<rparr>"
  have "0 < ringbuf_len rb" using Suc.prems by simp
  then have len: "ringbuf_len ?r = ringbuf_len rb - 1"
    unfolding ringbuf_len_def by (simp add: diff_diff_add [symmetric] word_nat unat_gt_0)
  have cong: "pop_loop ?r k n i = pop_loop rb k n i" for k i
    by (induction n arbitrary: i) simp_all
  have "ringbuf_pop rb isz = (0, buf_read (rb_data rb) (slot_off rb (read_idx rb)) (unat isz), ?r)"
    using Suc.prems empty_iff [of rb] by (auto simp: ringbuf_pop_def Let_def)
  then show ?case
    using Suc.IH [of ?r] Suc.prems len cong by (simp add: algebra_simps)
qed simp

lemma unat_eq_of_nat: "unat (x :: u32) = k \<Longrightarrow> x = of_nat k"
  by auto

lemma unat_eq_of_nat_64: "unat (x :: u32) = k \<Longrightarrow> (ucast x :: u64) = of_nat k"
  by auto

lemma unat_len_u32:
  assumes "rb_inv rb"
  shows "unat (ucast (write_idx rb - read_idx rb) :: u32) = ringbuf_len rb"
proof -
  have "ringbuf_len rb \<le> unat (slot_count rb)"
    using assms by (simp add: rb_inv_def ringbuf_len_def)
  then have "ringbuf_len rb < 2 ^ 32"
    using unsigned_less [of "slot_count rb"] by (simp add: le_less_trans [OF _ unat_lt_2p32])
  then show ?thesis
    by (simp add: unsigned_ucast_eq ringbuf_len_def take_bit_nat_eq_self)
qed

definition batch_room :: "ringbuf \<Rightarrow> u32 \<Rightarrow> nat" where
  "batch_room rb n = min (unat n) (unat (slot_count rb) - ringbuf_len rb)"

lemma push_batch_eq:
  assumes "rb_inv rb" and "isz \<le> slot_size rb"
  shows "ringbuf_push_batch rb items isz n =
    (of_nat (batch_room rb n), push_each rb items isz (batch_room rb n))"
proof -
  let ?a = "slot_count rb - ucast (write_idx rb - read_idx rb)"
  have le: "ringbuf_len rb \<le> unat (slot_count rb)"
    using assms by (simp add: rb_inv_def ringbuf_len_def)
  then have a: "unat ?a = unat (slot_count rb) - ringbuf_len rb"
    using unat_len_u32 [OF assms(1)] by (simp add: unat_sub_if')
  let ?n = "if ?a < n then ?a else n"
  have n: "unat ?n = batch_room rb n"
    using a by (simp add: batch_room_def word_less_nat_alt)
  then have "?n = of_nat (batch_room rb n)" by (rule unat_eq_of_nat)
  moreover have "(ucast ?n :: u64) = of_nat (batch_room rb n)"
    using n by (rule unat_eq_of_nat_64)
  moreover have "ringbuf_len rb + batch_room rb n \<le> unat (slot_count rb)"
    using le by (simp add: batch_room_def)
  ultimately show ?thesis
    using leD [OF assms(2)] push_each_loop [OF assms(2), of "batch_room rb n" items] n
    by (simp add: ringbuf_push_batch_def Let_def)
qed

lemma pop_batch_eq:
  fixes n :: u32
  assumes "rb_inv rb" and "isz \<le> slot_size rb"
  defines "k \<equiv> min (unat n) (ringbuf_len rb)"
  shows "ringbuf_pop_batch rb isz n = (of_nat k, pop_each rb isz k)"
proof -
  let ?a = "ucast (write_idx rb - read_idx rb) :: u32"
  let ?n = "if ?a < n then ?a else n"
  have n: "unat ?n = k"
    using unat_len_u32 [OF assms(1)] by (simp add: k_def word_less_nat_alt)
  then have "?n = of_nat k" by (rule unat_eq_of_nat)
  moreover have "(ucast ?n :: u64) = of_nat k"
    using n by (rule unat_eq_of_nat_64)
  moreover have "k \<le> ringbuf_len rb" by (simp add: k_def)
  ultimately show ?thesis
    using leD [OF assms(2)] pop_each_loop [OF assms(2), of k] n
    by (simp add: ringbuf_pop_batch_def Let_def)
qed

section \<open>Properties of the sequential ring\<close>

lemma ringbuf_init_ok:
  assumes "ringbuf_init (Some mem) ss sc = (0, Some rb)"
  shows "rb_inv rb \<and> ringbuf_contents rb = [] \<and> slot_size rb = ss \<and> slot_count rb = sc"
  using assms
  by (auto simp: ringbuf_init_def rb_inv_def ringbuf_valid_def ringbuf_contents_def
    ringbuf_len_def split: if_splits)

lemma ring_too_big:
  "slot_size rb < n \<Longrightarrow> ringbuf_push rb x n = (-1, rb)"
  "slot_size rb < n \<Longrightarrow> ringbuf_pop rb n = (-1, [], rb)"
  by (simp_all add: ringbuf_push_def ringbuf_pop_def Let_def)

lemma ringbuf_used_len: "rb_inv rb \<Longrightarrow> unat (ringbuf_used rb) = ringbuf_len rb"
  using unat_len_u32 [of rb]
  by (auto simp: ringbuf_used_def Let_def word_less_nat_alt rb_inv_def ringbuf_len_def)

definition blank_ring :: ringbuf where
  "blank_ring = \<lparr>magic = 0, version = 0, slot_size = 0, slot_count = 0, rb_pad = 0,
     write_idx = 0, read_idx = 0, rb_reserved = [], rb_data = []\<rparr>"

definition ring_8_2 :: ringbuf where
  "ring_8_2 = the (snd (ringbuf_init (Some blank_ring) 8 2))"

lemma init_8_2: "ringbuf_init (Some blank_ring) 8 2 = (0, Some ring_8_2)"
  by code_simp

text \<open>
  C2. FIFO delivery. Starting from a freshly initialised ring, whatever sequence of
  whole-slot sends and receives is issued (refused sends on a full ring and empty
  receives included), the messages delivered followed by those still queued are exactly
  the messages accepted, in order; the ring stays valid and never holds more than
  \<open>slot_count\<close> messages.
\<close>

theorem ring_fifo_history:
  assumes "ringbuf_init (Some mem) ss sc = (0, Some rb)"
    and "\<forall>x. Push x \<in> set ops \<longrightarrow> length x = unat ss"
    and "fifo_run ring_send ring_recv rb ops = (acc, del, t)"
  shows "acc = del @ ringbuf_contents t \<and> rb_inv t \<and>
    length (ringbuf_contents t) \<le> unat sc"
proof -
  have rb: "rb_inv rb" "ringbuf_contents rb = []" "slot_size rb = ss" "slot_count rb = sc"
    using ringbuf_init_ok [OF assms(1)] by auto
  have "\<forall>x. Push x \<in> set ops \<longrightarrow> slot_item rb x"
    using assms(2) rb by (simp add: slot_item_def)
  then have "ringbuf_contents rb @ acc = del @ ringbuf_contents t \<and> rb_inv t \<and>
      unat (slot_count t) = unat (slot_count rb)"
    using ring.fifo_order [OF rb(1) _ assms(3)] by blast
  then show ?thesis using rb ring.contents_le_cap [of t] by auto
qed

theorem ring_fifo_history_witness:
  "\<exists>t. fifo_run ring_send ring_recv ring_8_2
      [Push (replicate 8 1), Push (replicate 8 2), Push (replicate 8 3), Pop, Push (replicate 8 4)]
    = ([replicate 8 1, replicate 8 2, replicate 8 4], [replicate 8 1], t) \<and>
    ringbuf_contents t = [replicate 8 2, replicate 8 4]"
proof -
  let ?ops = "[Push (replicate 8 1), Push (replicate 8 2), Push (replicate 8 3), Pop,
    Push (replicate 8 4)] :: u8 list fifo_op list"
  let ?run = "fifo_run ring_send ring_recv ring_8_2 ?ops"
  have run: "?run = ([replicate 8 1, replicate 8 2, replicate 8 4], [replicate 8 1],
      snd (snd ?run))"
    by code_simp
  have "\<forall>x. Push x \<in> set ?ops \<longrightarrow> length x = unat (8 :: u32)" by simp
  from ring_fifo_history [OF init_8_2 this run] run show ?thesis by auto
qed

text \<open>
  C20. Every branch of \<open>ringbuf_push\<close> and \<open>ringbuf_pop\<close> on a valid ring: a full ring, an
  empty ring and an item larger than a slot are refused with \<open>-1\<close> and change nothing;
  otherwise a push appends the item (the tail of the slot keeps its old bytes) and a pop
  returns the first \<open>n\<close> bytes of the oldest slot and removes it, and the ring stays valid.
\<close>

theorem ring_push_pop_correct:
  assumes "rb_inv rb" and "unat n \<le> length x"
  shows "(if ringbuf_len rb = unat (slot_count rb) \<or> slot_size rb < n
     then ringbuf_push rb x n = (-1, rb)
     else \<exists>rb'. ringbuf_push rb x n = (0, rb') \<and> rb_inv rb' \<and>
       ringbuf_contents rb' = ringbuf_contents rb @
         [take (unat n) x @ drop (unat n) (slot_at rb (write_idx rb))]) \<and>
   (if ringbuf_contents rb = [] \<or> slot_size rb < n
     then ringbuf_pop rb n = (-1, [], rb)
     else \<exists>rb'. ringbuf_pop rb n = (0, take (unat n) (hd (ringbuf_contents rb)), rb') \<and>
       rb_inv rb' \<and> ringbuf_contents rb' = tl (ringbuf_contents rb))"
proof (rule conjI, goal_cases)
  case 1
  show ?case
    using ringbuf_push_full [of rb x n] ringbuf_push_room [of rb n x] assms
      ring.contents_le_cap [OF assms(1)]
    by (auto simp: ring_too_big not_less)
next
  case 2
  show ?case
    using ringbuf_pop_empty [of rb n] ringbuf_pop_item [OF assms(1), of _ _ n]
    by (cases "ringbuf_contents rb")
      (auto simp: ring_too_big not_less simp flip: length_contents)
qed

theorem ring_push_pop_correct_witness:
  "rb_inv ring_8_2 \<and> (\<exists>rb'. ringbuf_push ring_8_2 [7, 9, 5, 5] 2 = (0, rb') \<and>
     ringbuf_contents rb' = [[7, 9, 0, 0, 0, 0, 0, 0]])"
proof -
  have i: "rb_inv ring_8_2" "ringbuf_contents ring_8_2 = []"
    using ringbuf_init_ok [OF init_8_2] by auto
  have e: "ringbuf_len ring_8_2 = 0" "unat (slot_count ring_8_2) = 2" "slot_size ring_8_2 = 8"
    "slot_at ring_8_2 (write_idx ring_8_2) = [0, 0, 0, 0, 0, 0, 0, 0]" by code_simp+
  show ?thesis
    using ring_push_pop_correct [OF i(1), of 2 "[7, 9, 5, 5]"] i e by auto
qed

text \<open>
  C27. The batch operations are the single operations iterated: on a valid ring and for
  items that fit a slot, \<open>ringbuf_push_batch\<close> accepts as many items as there are free
  slots (at most \<open>n\<close>) and leaves the ring that pushing them one after another leaves,
  and \<open>ringbuf_pop_batch\<close> returns what popping \<open>min n used\<close> times returns.
\<close>

theorem ring_batch_equiv:
  fixes n :: u32
  assumes "rb_inv rb" and "isz \<le> slot_size rb"
  shows "ringbuf_push_batch rb items isz n =
      (of_nat (batch_room rb n), push_each rb items isz (batch_room rb n)) \<and>
    ringbuf_pop_batch rb isz n =
      (of_nat (min (unat n) (ringbuf_len rb)), pop_each rb isz (min (unat n) (ringbuf_len rb)))"
  using push_batch_eq [OF assms] pop_batch_eq [OF assms] by blast

theorem ring_batch_equiv_witness:
  "rb_inv ring_8_2 \<and> fst (ringbuf_push_batch ring_8_2 (replicate 24 3) 8 3) = 2"
proof -
  have "rb_inv ring_8_2" using ringbuf_init_ok [OF init_8_2] by simp
  moreover have "8 \<le> slot_size ring_8_2" "batch_room ring_8_2 3 = 2" by code_simp+
  ultimately show ?thesis using ring_batch_equiv [of ring_8_2 8 "replicate 24 3" 3] by simp
qed

text \<open>
  \<open>ringbuf_init\<close> succeeds exactly on slot sizes that are powers of two of at least 8
  and slot counts that are powers of two of at least 2, and then yields a valid empty
  ring; on every valid ring \<open>ringbuf_used\<close>, \<open>ringbuf_free\<close>, \<open>ringbuf_empty\<close> and
  \<open>ringbuf_full\<close> report the length of the queue, the free slots, emptiness and fullness.
\<close>

theorem ring_init_and_counts:
  "(fst (ringbuf_init (Some mem) ss sc) = 0 \<longleftrightarrow>
     (\<exists>j k. 3 \<le> j \<and> j < 32 \<and> ss = 2 ^ j \<and> 1 \<le> k \<and> k < 32 \<and> sc = 2 ^ k)) \<and>
   (ringbuf_init (Some mem) ss sc = (0, Some rb) \<longrightarrow> rb_inv rb \<and> ringbuf_contents rb = []) \<and>
   (rb_inv rb \<longrightarrow>
     unat (ringbuf_used rb) = length (ringbuf_contents rb) \<and>
     unat (ringbuf_free rb) = unat (slot_count rb) - length (ringbuf_contents rb) \<and>
     (ringbuf_empty rb \<longleftrightarrow> ringbuf_contents rb = []) \<and>
     (ringbuf_full rb \<longleftrightarrow> length (ringbuf_contents rb) = unat (slot_count rb)))"
proof (intro conjI impI)
  have p: "(8 \<le> (2 ^ j :: u32)) = (3 \<le> j)" "(2 \<le> (2 ^ j :: u32)) = (1 \<le> j)" if "j < 32" for j
  proof -
    have u: "unat (2 ^ j :: u32) = 2 ^ j" using that by (rule unat_pow2)
    show "(8 \<le> (2 ^ j :: u32)) = (3 \<le> j)"
      using u power_increasing_iff [of "2::nat" 3 j] by (simp add: word_le_nat_alt)
    show "(2 \<le> (2 ^ j :: u32)) = (1 \<le> j)"
      using u power_increasing_iff [of "2::nat" 1 j] by (simp add: word_le_nat_alt)
  qed
  show "fst (ringbuf_init (Some mem) ss sc) = 0 \<longleftrightarrow>
     (\<exists>j k. 3 \<le> j \<and> j < 32 \<and> ss = 2 ^ j \<and> 1 \<le> k \<and> k < 32 \<and> sc = 2 ^ k)"
    using p by (auto simp: ringbuf_init_def is_pow2_iff not_less [symmetric])
next
  assume rb: "rb_inv rb"
  then show used: "unat (ringbuf_used rb) = length (ringbuf_contents rb)"
    by (simp add: ringbuf_used_len)
  have le: "length (ringbuf_contents rb) \<le> unat (slot_count rb)"
    using ring.contents_le_cap [OF rb] .
  show "unat (ringbuf_free rb) = unat (slot_count rb) - length (ringbuf_contents rb)"
    using used le by (simp add: ringbuf_free_def unat_sub_if')
  show "ringbuf_empty rb \<longleftrightarrow> ringbuf_contents rb = []"
    using empty_iff [of rb] by (auto simp: ringbuf_empty_def simp flip: length_contents)
  show "ringbuf_full rb \<longleftrightarrow> length (ringbuf_contents rb) = unat (slot_count rb)"
    using used by (metis ringbuf_full_def unat_eq_unat_iff)
qed (use ringbuf_init_ok in auto)

theorem ring_init_and_counts_witness:
  "rb_inv ring_8_2 \<and> ringbuf_used ring_8_2 = 0 \<and> ringbuf_empty ring_8_2"
proof -
  have "rb_inv ring_8_2 \<and> ringbuf_contents ring_8_2 = []"
    using ring_init_and_counts [of blank_ring 8 2 ring_8_2] init_8_2 by simp
  then show ?thesis
    using ring_init_and_counts [of blank_ring 8 2 ring_8_2] by (simp add: unat_eq_zero)
qed

end
