(* ===== verification/RingConc.thy ===== *)
theory RingConc
  imports RingBuf
begin

text \<open>
  The ring of \<open>src/kernel/ipc/ringbuf.h\<close> under concurrency: one producer running
  \<open>ringbuf_push\<close> and one consumer running \<open>ringbuf_pop\<close> at the same time, interleaved at
  every shared access (each counter load and store and each byte of the two
  \<open>memcpy\<close>s). The acquire and release accesses of the source order the counter accesses
  against the copies, so the steps of one thread are taken in program order. The
  invariant shows that no interleaving tears, loses, duplicates or reorders a message.
\<close>

section \<open>The two threads\<close>

text \<open>
  Program counters: idle, own counter loaded, copying (with the bytes already copied).
\<close>

datatype prod_pc = P_idle | P_load "u8 list" u64 | P_copy "u8 list" u64 nat

datatype cons_pc = C_idle | C_load u64 | C_copy u64 "u8 list"

record spsc =
  shared :: ringbuf
  prod :: prod_pc
  cons :: cons_pc
  sent :: "u8 list list"
  rcvd :: "u8 list list"

inductive spsc_step :: "spsc \<Rightarrow> spsc \<Rightarrow> bool" where
  p_start: "prod s = P_idle \<Longrightarrow> length x = unat (slot_size (shared s)) \<Longrightarrow>
    spsc_step s (s\<lparr>prod := P_load x (write_idx (shared s))\<rparr>)"
| p_full: "prod s = P_load x w \<Longrightarrow>
    w - read_idx (shared s) = ucast (slot_count (shared s)) \<Longrightarrow>
    spsc_step s (s\<lparr>prod := P_idle\<rparr>)"
| p_room: "prod s = P_load x w \<Longrightarrow>
    w - read_idx (shared s) \<noteq> ucast (slot_count (shared s)) \<Longrightarrow>
    spsc_step s (s\<lparr>prod := P_copy x w 0\<rparr>)"
| p_byte: "prod s = P_copy x w k \<Longrightarrow> k < unat (slot_size (shared s)) \<Longrightarrow>
    spsc_step s (s\<lparr>shared := (shared s)\<lparr>rb_data :=
        buf_write (rb_data (shared s)) (slot_off (shared s) w + k) [x ! k]\<rparr>,
      prod := P_copy x w (Suc k)\<rparr>)"
| p_publish: "prod s = P_copy x w (unat (slot_size (shared s))) \<Longrightarrow>
    spsc_step s (s\<lparr>shared := (shared s)\<lparr>write_idx := w + 1\<rparr>, prod := P_idle, sent := sent s @ [x]\<rparr>)"
| c_start: "cons s = C_idle \<Longrightarrow>
    spsc_step s (s\<lparr>cons := C_load (read_idx (shared s))\<rparr>)"
| c_empty: "cons s = C_load r \<Longrightarrow> r = write_idx (shared s) \<Longrightarrow>
    spsc_step s (s\<lparr>cons := C_idle\<rparr>)"
| c_item: "cons s = C_load r \<Longrightarrow> r \<noteq> write_idx (shared s) \<Longrightarrow>
    spsc_step s (s\<lparr>cons := C_copy r []\<rparr>)"
| c_byte: "cons s = C_copy r acc \<Longrightarrow> length acc < unat (slot_size (shared s)) \<Longrightarrow>
    spsc_step s (s\<lparr>cons := C_copy r
      (acc @ [rb_data (shared s) ! (slot_off (shared s) r + length acc)])\<rparr>)"
| c_release: "cons s = C_copy r acc \<Longrightarrow> length acc = unat (slot_size (shared s)) \<Longrightarrow>
    spsc_step s (s\<lparr>shared := (shared s)\<lparr>read_idx := r + 1\<rparr>, cons := C_idle, rcvd := rcvd s @ [acc]\<rparr>)"

definition spsc_init :: "ringbuf \<Rightarrow> spsc" where
  "spsc_init rb = \<lparr>shared = rb, prod = P_idle, cons = C_idle, sent = [], rcvd = []\<rparr>"

inductive spsc_reach :: "ringbuf \<Rightarrow> spsc \<Rightarrow> bool" for rb where
  start: "spsc_reach rb (spsc_init rb)"
| step: "spsc_reach rb s \<Longrightarrow> spsc_step s t \<Longrightarrow> spsc_reach rb t"

section \<open>Invariant\<close>

fun prod_ok :: "ringbuf \<Rightarrow> prod_pc \<Rightarrow> bool" where
  "prod_ok rb P_idle = True"
| "prod_ok rb (P_load x w) = (w = write_idx rb \<and> length x = unat (slot_size rb))"
| "prod_ok rb (P_copy x w k) = (w = write_idx rb \<and> length x = unat (slot_size rb) \<and>
     ringbuf_len rb < unat (slot_count rb) \<and> k \<le> unat (slot_size rb) \<and>
     take k (slot_at rb w) = take k x)"

fun cons_ok :: "ringbuf \<Rightarrow> cons_pc \<Rightarrow> bool" where
  "cons_ok rb C_idle = True"
| "cons_ok rb (C_load r) = (r = read_idx rb)"
| "cons_ok rb (C_copy r acc) = (r = read_idx rb \<and> 0 < ringbuf_len rb \<and>
     length acc \<le> unat (slot_size rb) \<and> take (length acc) (slot_at rb r) = acc)"

definition spsc_inv :: "spsc \<Rightarrow> bool" where
  "spsc_inv s \<longleftrightarrow> rb_inv (shared s) \<and> prod_ok (shared s) (prod s) \<and> cons_ok (shared s) (cons s) \<and>
     sent s = rcvd s @ ringbuf_contents (shared s)"

lemma slot_at_byte:
  assumes "rb_inv rb" and "k < unat (slot_size rb)"
  shows "slot_at (rb\<lparr>rb_data := buf_write (rb_data rb) (slot_off rb i + k) [b]\<rparr>) i =
    (slot_at rb i)[k := b]"
  using slot_off_bound [OF assms(1), of i] assms(2)
  by (intro nth_equalityI)
    (auto simp: slot_at_def nth_buf_read nth_buf_write nth_list_update slot_off_def)

lemma slot_at_nth:
  assumes "rb_inv rb" and "k < unat (slot_size rb)"
  shows "rb_data rb ! (slot_off rb i + k) = slot_at rb i ! k"
  using slot_off_bound [OF assms(1), of i] assms(2) by (simp add: slot_at_def nth_buf_read)

lemma contents_hd:
  assumes "0 < ringbuf_len rb"
  shows "hd (ringbuf_contents rb) = slot_at rb (read_idx rb)"
  using assms by (simp add: ringbuf_contents_def hd_map)

lemma prod_ok_full_slot:
  assumes "rb_inv rb" and "prod_ok rb (P_copy x w (unat (slot_size rb)))"
  shows "slot_at rb (write_idx rb) = x"
  using assms length_slot_at [OF assms(1), of w] by auto

text \<open>Producer steps keep what the consumer relies on, and conversely.\<close>

lemma cons_ok_stable:
  assumes "ringbuf_contents rb' = ringbuf_contents rb @ ys" and "read_idx rb' = read_idx rb"
    and "slot_size rb' = slot_size rb" and "cons_ok rb c"
  shows "cons_ok rb' c"
proof (cases c)
  case (C_copy r acc)
  with assms have "0 < ringbuf_len rb" by simp
  then have len: "0 < ringbuf_len rb'"
    using arg_cong [OF assms(1), of length] by simp
  then have "slot_at rb' (read_idx rb) = slot_at rb (read_idx rb)"
    using assms contents_hd [of rb] contents_hd [of rb'] \<open>0 < ringbuf_len rb\<close>
    by (metis hd_append2 length_contents length_greater_0_conv)
  then show ?thesis using C_copy assms len by auto
qed (use assms in auto)

lemma take_Suc_update: "k < length xs \<Longrightarrow> take (Suc k) (xs[k := b]) = take k xs @ [b]"
  by (simp add: take_Suc_conv_app_nth)

lemma p_byte_inv:
  assumes "spsc_inv s" and "prod s = P_copy x w k" and "k < unat (slot_size (shared s))"
  shows "spsc_inv (s\<lparr>shared := (shared s)\<lparr>rb_data :=
        buf_write (rb_data (shared s)) (slot_off (shared s) w + k) [x ! k]\<rparr>,
      prod := P_copy x w (Suc k)\<rparr>)"
proof -
  let ?r = "shared s"
  let ?d = "?r\<lparr>rb_data := buf_write (rb_data ?r) (slot_off ?r w + k) [x ! k]\<rparr>"
  have i: "rb_inv ?r" "w = write_idx ?r" "length x = unat (slot_size ?r)"
    "ringbuf_len ?r < unat (slot_count ?r)" "take k (slot_at ?r w) = take k x"
    using assms by (auto simp: spsc_inv_def)
  have d: "rb_inv ?d" "ringbuf_contents ?d = ringbuf_contents ?r"
    using write_slot_inv [of ?r k "[x ! k]"] i assms(3) by auto
  have "take (Suc k) (slot_at ?d w) = take (Suc k) x"
    using slot_at_byte [OF i(1) assms(3), of w "x ! k"] length_slot_at [OF i(1), of w] i assms(3)
    by (simp add: take_Suc_update take_Suc_conv_app_nth)
  moreover have "cons_ok ?d (cons s)"
    using cons_ok_stable [of ?d ?r "[]"] d assms(1) by (simp add: spsc_inv_def)
  moreover have "ringbuf_len ?d = ringbuf_len ?r" by (simp add: ringbuf_len_def)
  ultimately show ?thesis using d i assms by (simp add: spsc_inv_def)
qed

lemma p_publish_inv:
  assumes "spsc_inv s" and "prod s = P_copy x w (unat (slot_size (shared s)))"
  shows "spsc_inv (s\<lparr>shared := (shared s)\<lparr>write_idx := w + 1\<rparr>, prod := P_idle, sent := sent s @ [x]\<rparr>)"
proof -
  let ?r = "shared s"
  have i: "rb_inv ?r" "w = write_idx ?r" "ringbuf_len ?r < unat (slot_count ?r)"
    using assms by (auto simp: spsc_inv_def)
  have "slot_at ?r w = x"
    using prod_ok_full_slot [of ?r x w] assms i by (simp add: spsc_inv_def)
  then have a: "rb_inv (?r\<lparr>write_idx := w + 1\<rparr>)"
    "ringbuf_contents (?r\<lparr>write_idx := w + 1\<rparr>) = ringbuf_contents ?r @ [x]"
    using advance_write [of ?r] i by auto
  moreover have "cons_ok (?r\<lparr>write_idx := w + 1\<rparr>) (cons s)"
    using cons_ok_stable [OF a(2)] assms(1) by (simp add: spsc_inv_def)
  ultimately show ?thesis using assms(1) by (simp add: spsc_inv_def)
qed

lemma c_release_inv:
  assumes "spsc_inv s" and "cons s = C_copy r acc" and "length acc = unat (slot_size (shared s))"
  shows "spsc_inv (s\<lparr>shared := (shared s)\<lparr>read_idx := r + 1\<rparr>, cons := C_idle, rcvd := rcvd s @ [acc]\<rparr>)"
proof -
  let ?r = "shared s"
  have i: "rb_inv ?r" "r = read_idx ?r" "0 < ringbuf_len ?r" "take (length acc) (slot_at ?r r) = acc"
    using assms by (auto simp: spsc_inv_def)
  have "slot_at ?r r = acc" using i assms(3) length_slot_at [OF i(1), of r] by simp
  then have a: "rb_inv (?r\<lparr>read_idx := r + 1\<rparr>)"
    "ringbuf_contents ?r = acc # ringbuf_contents (?r\<lparr>read_idx := r + 1\<rparr>)"
    using advance_read [of ?r] i by auto
  have "ringbuf_len (?r\<lparr>read_idx := r + 1\<rparr>) \<le> ringbuf_len ?r"
    using arg_cong [OF a(2), of length] by simp
  then have "prod_ok (?r\<lparr>read_idx := r + 1\<rparr>) (prod s)"
    using assms(1) by (cases "prod s") (auto simp: spsc_inv_def)
  then show ?thesis using assms(1) a by (simp add: spsc_inv_def)
qed

lemma c_byte_inv:
  assumes "spsc_inv s" and "cons s = C_copy r acc" and "length acc < unat (slot_size (shared s))"
  shows "spsc_inv (s\<lparr>cons := C_copy r
      (acc @ [rb_data (shared s) ! (slot_off (shared s) r + length acc)])\<rparr>)"
  using assms slot_at_nth [of "shared s" "length acc" r] length_slot_at [of "shared s" r]
  by (auto simp: spsc_inv_def take_Suc_conv_app_nth)

lemma spsc_step_inv: "spsc_step s t \<Longrightarrow> spsc_inv s \<Longrightarrow> spsc_inv t"
proof (induction rule: spsc_step.induct)
  case (p_room s x w)
  have "ringbuf_len (shared s) \<le> unat (slot_count (shared s))"
    using p_room.prems ring.contents_le_cap [of "shared s"] by (simp add: spsc_inv_def)
  moreover have "ringbuf_len (shared s) \<noteq> unat (slot_count (shared s))"
    using p_room full_iff [of "shared s"] by (simp add: spsc_inv_def)
  ultimately show ?case using p_room by (simp add: spsc_inv_def)
next
  case (c_item s r)
  have "0 < ringbuf_len (shared s)"
    using c_item empty_iff [of "shared s"] by (simp add: spsc_inv_def)
  then show ?case using c_item by (simp add: spsc_inv_def)
qed (simp_all add: p_byte_inv p_publish_inv c_byte_inv c_release_inv, simp_all add: spsc_inv_def)

lemma spsc_reach_inv:
  assumes "spsc_reach rb s" and "rb_inv rb" and "ringbuf_contents rb = []"
  shows "spsc_inv s"
  using assms
proof (induction rule: spsc_reach.induct)
  case start
  then show ?case by (simp add: spsc_init_def spsc_inv_def)
qed (auto intro: spsc_step_inv)

section \<open>An undisturbed producer performs \<open>ringbuf_push\<close>\<close>

lemma buf_write_Cons:
  "off + Suc (length ys) \<le> length xs \<Longrightarrow>
   buf_write (buf_write xs off [y]) (Suc off) ys = buf_write xs off (y # ys)"
  by (simp add: buf_write_def min_def add.commute)

lemma p_bytes_run:
  assumes "spsc_reach rb s" and "prod s = P_copy x w k" and "length x = unat (slot_size (shared s))"
    and "k \<le> length x" and "slot_off (shared s) w + unat (slot_size (shared s)) \<le> length (rb_data (shared s))"
  shows "spsc_reach rb (s\<lparr>shared := (shared s)\<lparr>rb_data :=
      buf_write (rb_data (shared s)) (slot_off (shared s) w + k) (drop k x)\<rparr>,
    prod := P_copy x w (length x)\<rparr>)"
  using assms
proof (induction "length x - k" arbitrary: k s)
  case 0
  then have "s\<lparr>shared := (shared s)\<lparr>rb_data :=
      buf_write (rb_data (shared s)) (slot_off (shared s) w + k) (drop k x)\<rparr>,
    prod := P_copy x w (length x)\<rparr> = s" by (cases s) (simp add: buf_write_def)
  with 0 show ?case by simp
next
  case (Suc m)
  let ?t = "s\<lparr>shared := (shared s)\<lparr>rb_data :=
      buf_write (rb_data (shared s)) (slot_off (shared s) w + k) [x ! k]\<rparr>, prod := P_copy x w (Suc k)\<rparr>"
  have k: "k < length x" using Suc.hyps(2) by simp
  then have t: "spsc_reach rb ?t"
    using Suc.prems p_byte [of s x w k] by (auto intro: spsc_reach.step)
  then show ?case
    using Suc.hyps(1) [of "Suc k" ?t] Suc.hyps(2) Suc.prems k
    by (simp add: buf_write_Cons Cons_nth_drop_Suc)
qed

lemma push_run:
  assumes "spsc_reach rb s" and "spsc_inv s" and "prod s = P_idle"
    and "length x = unat (slot_size (shared s))"
    and "ringbuf_push (shared s) x (slot_size (shared s)) = (0, rb')"
  shows "spsc_reach rb (s\<lparr>shared := rb', sent := sent s @ [x]\<rparr>)"
proof -
  let ?w = "write_idx (shared s)"
  let ?r = "shared s"
  have room: "?w - read_idx ?r \<noteq> ucast (slot_count ?r)"
    and rb': "rb' = ?r\<lparr>rb_data := buf_write (rb_data ?r) (slot_off ?r ?w) x, write_idx := ?w + 1\<rparr>"
    using assms(4,5) by (auto simp: ringbuf_push_def Let_def split: if_splits)
  have b: "slot_off ?r ?w + unat (slot_size ?r) \<le> length (rb_data ?r)"
    using assms(2) slot_off_bound [of ?r ?w] by (simp add: spsc_inv_def)
  have 1: "spsc_reach rb (s\<lparr>prod := P_load x ?w\<rparr>)"
    using spsc_reach.step [OF assms(1) p_start] assms(3,4) by blast
  have 2: "spsc_reach rb (s\<lparr>prod := P_copy x ?w 0\<rparr>)"
    using spsc_reach.step [OF 1 p_room] room by simp
  have 3: "spsc_reach rb (s\<lparr>shared := ?r\<lparr>rb_data := buf_write (rb_data ?r) (slot_off ?r ?w) x\<rparr>,
      prod := P_copy x ?w (length x)\<rparr>)"
    using p_bytes_run [OF 2, of x ?w 0] assms(4) b by simp
  have "spsc_reach rb (s\<lparr>shared := rb', prod := P_idle, sent := sent s @ [x]\<rparr>)"
    using spsc_reach.step [OF 3 p_publish] assms(4) rb' by simp
  moreover have "s\<lparr>shared := rb', prod := P_idle, sent := sent s @ [x]\<rparr> =
      s\<lparr>shared := rb', sent := sent s @ [x]\<rparr>"
    using assms(3) by (cases s) simp
  ultimately show ?thesis by simp
qed

section \<open>Properties\<close>

text \<open>
  C1. Safe sharing without a lock. In every state the two threads can reach from an
  initialised ring, at any point of any interleaving, the messages received are a prefix
  of the messages sent, and the rest, in order and untorn, is what the ring holds; the
  producer never runs ahead of the consumer by more than \<open>slot_count\<close> messages.
\<close>

theorem spsc_fifo:
  assumes "ringbuf_init (Some mem) ss sc = (0, Some rb)" and "spsc_reach rb s"
  shows "sent s = rcvd s @ ringbuf_contents (shared s) \<and>
    length (sent s) - length (rcvd s) \<le> unat (slot_count (shared s)) \<and> rb_inv (shared s)"
proof -
  have "spsc_inv s"
    using spsc_reach_inv [OF assms(2)] ringbuf_init_ok [OF assms(1)] by simp
  then show ?thesis
    using ring.contents_le_cap [of "shared s"] by (simp add: spsc_inv_def)
qed

theorem spsc_fifo_witness:
  "\<exists>s. spsc_reach ring_8_2 s \<and> sent s = [replicate 8 5] \<and> rcvd s = [] \<and>
     ringbuf_contents (shared s) = [replicate 8 5]"
proof -
  let ?s = "spsc_init ring_8_2"
  let ?x = "replicate 8 5 :: u8 list"
  let ?p = "ringbuf_push ring_8_2 ?x 8"
  have z: "slot_size ring_8_2 = 8" and p: "?p = (0, snd ?p)" by code_simp+
  have r: "spsc_reach ring_8_2 ?s" by (rule spsc_reach.start)
  moreover have "spsc_inv ?s"
    using spsc_reach_inv [OF r] ringbuf_init_ok [OF init_8_2] by simp
  ultimately have t: "spsc_reach ring_8_2 (?s\<lparr>shared := snd ?p, sent := [?x]\<rparr>)"
    using push_run [of ring_8_2 ?s ?x "snd ?p"] z p by (simp add: spsc_init_def)
  show ?thesis
    using spsc_fifo [OF init_8_2 t] t by (intro exI [of _ "?s\<lparr>shared := snd ?p, sent := [?x]\<rparr>"])
      (simp add: spsc_init_def)
qed

end
