(* ===== verification/Security.thy ===== *)
theory Security
  imports OsPrelude
begin

text \<open>
  \<open>src/kernel/security/security.c\<close>: the entropy pool, the audit ring, the limiter of failed
  logins, the W^X check and the set-up of the stack canary. Clock ticks, time stamp counter
  readings, \<open>cpuid\<close> and \<open>rdrand\<close> results come from the machine and are arguments.
\<close>

section \<open>Entropy pool\<close>

definition POOL_WORDS :: nat where "POOL_WORDS = 32"

record epool =
  g_pool :: "u64 list"
  g_pool_idx :: u32

definition ROTL64 :: "u64 \<Rightarrow> nat \<Rightarrow> u64" where
  "ROTL64 x n = (push_bit n x OR drop_bit (64 - n) x)"

definition pool_quarter_round :: "u64 \<times> u64 \<times> u64 \<times> u64 \<Rightarrow> u64 \<times> u64 \<times> u64 \<times> u64" where
  "pool_quarter_round = (\<lambda>(a, b, c, d).
     let a = a + b; d = d XOR a; d = ROTL64 d 32;
         c = c + d; b = b XOR c; b = ROTL64 b 24;
         a = a + b; d = d XOR a; d = ROTL64 d 16;
         c = c + d; b = b XOR c; b = ROTL64 b 63 in
     (a, b, c, d))"

definition round_at :: "nat \<Rightarrow> nat \<Rightarrow> nat \<Rightarrow> nat \<Rightarrow> u64 list \<Rightarrow> u64 list" where
  "round_at i j k l p =
     (case pool_quarter_round (p ! i, p ! j, p ! k, p ! l) of (a, b, c, d) \<Rightarrow>
        p[i := a, j := b, k := c, l := d])"

definition pool_mix :: "u64 list \<Rightarrow> u64 list" where
  "pool_mix p =
     fold (\<lambda>i p. round_at (16 + i) (20 + i) (24 + i) (28 + i)
                   (round_at (0 + i) (4 + i) (8 + i) (12 + i) p)) [0..<4] p"

definition entropy_mix :: "u64 \<Rightarrow> epool \<Rightarrow> epool" where
  "entropy_mix seed e =
     (let k = unat (g_pool_idx e) mod POOL_WORDS in
      e\<lparr>g_pool := pool_mix ((g_pool e)[k := (g_pool e ! k) XOR seed]),
        g_pool_idx := g_pool_idx e + 1\<rparr>)"

definition entropy_get64 :: "u64 \<Rightarrow> epool \<Rightarrow> u64 \<times> epool" where
  "entropy_get64 tsc e =
     (let k = unat (g_pool_idx e) mod POOL_WORDS;
          p = pool_mix ((g_pool e)[k := (g_pool e ! k) XOR tsc]) in
      (p ! 0 XOR p ! (POOL_WORDS div 2),
       e\<lparr>g_pool := p[0 := p ! 0 + p ! 1], g_pool_idx := g_pool_idx e + 1\<rparr>))"

section \<open>Audit ring\<close>

definition AUDIT_RING_SIZE :: nat where "AUDIT_RING_SIZE = 64"
definition AUDIT_DETAIL_LEN :: nat where "AUDIT_DETAIL_LEN = 48"
definition AUDIT_LOGIN_OK :: u8 where "AUDIT_LOGIN_OK = 1"
definition AUDIT_LOGIN_FAIL :: u8 where "AUDIT_LOGIN_FAIL = 2"
definition AUDIT_SYSCALL_DENY :: u8 where "AUDIT_SYSCALL_DENY = 4"
definition AUDIT_EXEC :: u8 where "AUDIT_EXEC = 5"
definition AUDIT_STACK_SMASH :: u8 where "AUDIT_STACK_SMASH = 6"

record audit_entry =
  timestamp_ns :: u64
  a_pid :: u32
  a_uid :: u32
  event :: u8
  detail :: string

record audit =
  g_audit_ring :: "audit_entry list"
  g_audit_head :: u32

text \<open>The entry a call writes; the detail is cut to fit its field with the terminating NUL.\<close>

definition audit_make :: "u64 \<Rightarrow> u32 \<Rightarrow> u32 \<Rightarrow> u8 \<Rightarrow> string option \<Rightarrow> audit_entry" where
  "audit_make ticks pid uid ev det =
     \<lparr>timestamp_ns = ticks * 10000000, a_pid = pid, a_uid = uid, event = ev,
      detail = (case det of None \<Rightarrow> [] | Some d \<Rightarrow> take (AUDIT_DETAIL_LEN - 1) d)\<rparr>"

definition audit_log :: "u64 \<Rightarrow> u32 \<Rightarrow> u32 \<Rightarrow> u8 \<Rightarrow> string option \<Rightarrow> audit \<Rightarrow> audit" where
  "audit_log ticks pid uid ev det a =
     a\<lparr>g_audit_ring := (g_audit_ring a)[unat (g_audit_head a) mod AUDIT_RING_SIZE :=
           audit_make ticks pid uid ev det],
       g_audit_head := g_audit_head a + 1\<rparr>"

text \<open>The entries \<open>audit_dump\<close> prints, in the order in which it prints them.\<close>

definition audit_dump :: "audit \<Rightarrow> audit_entry list" where
  "audit_dump a =
     (let head = unat (g_audit_head a);
          count = (if head < AUDIT_RING_SIZE then head else AUDIT_RING_SIZE);
          start = (if head \<ge> AUDIT_RING_SIZE then head mod AUDIT_RING_SIZE else 0) in
      map (\<lambda>i. g_audit_ring a ! ((start + i) mod AUDIT_RING_SIZE)) [0..<count])"

section \<open>Login rate limiter\<close>

definition RATELIMIT_MAX_USERS :: nat where "RATELIMIT_MAX_USERS = 32"
definition RATELIMIT_WINDOW_NS :: u64 where "RATELIMIT_WINDOW_NS = 60 * 1000000000"
definition RATELIMIT_LOCKOUT_NS :: u64 where "RATELIMIT_LOCKOUT_NS = 30 * 1000000000"
definition RATELIMIT_THRESHOLD :: u32 where "RATELIMIT_THRESHOLD = 5"

record ratelimit_entry =
  rl_uid :: u32
  fail_count :: u32
  first_fail_ns :: u64
  lockout_until_ns :: u64

definition rl_zero :: ratelimit_entry where
  "rl_zero = \<lparr>rl_uid = 0, fail_count = 0, first_fail_ns = 0, lockout_until_ns = 0\<rparr>"

definition rl_find :: "u32 \<Rightarrow> ratelimit_entry list \<Rightarrow> nat option" where
  "rl_find uid t = find_index (\<lambda>e. rl_uid e = uid \<and> fail_count e > 0) t"

fun oldest_from :: "ratelimit_entry list \<Rightarrow> nat \<Rightarrow> u64 \<Rightarrow> nat \<Rightarrow> nat" where
  "oldest_from [] i ts idx = idx"
| "oldest_from (e # es) i ts idx =
     (if first_fail_ns e < ts then oldest_from es (Suc i) (first_fail_ns e) i
      else oldest_from es (Suc i) ts idx)"

definition rl_alloc :: "u32 \<Rightarrow> ratelimit_entry list \<Rightarrow> nat \<times> ratelimit_entry list" where
  "rl_alloc uid t =
     (case find_index (\<lambda>e. fail_count e = 0) t of
        Some i \<Rightarrow> (i, t[i := (t ! i)\<lparr>rl_uid := uid\<rparr>])
      | None \<Rightarrow> let i = oldest_from t 0 (-1) 0 in (i, t[i := rl_zero\<lparr>rl_uid := uid\<rparr>]))"

record sec =
  pool :: epool
  audit_st :: audit
  rl_table :: "ratelimit_entry list"
  stack_chk_guard :: u64

definition log_event :: "u64 \<Rightarrow> u32 \<Rightarrow> u8 \<Rightarrow> string \<Rightarrow> sec \<Rightarrow> sec" where
  "log_event ticks uid ev d s = s\<lparr>audit_st := audit_log ticks 0 uid ev (Some d) (audit_st s)\<rparr>"

definition auth_fail :: "u64 \<Rightarrow> u32 \<Rightarrow> sec \<Rightarrow> int \<times> sec" where
  "auth_fail ticks uid s =
     (let now_ns = ticks * 10000000;
          (i, t) = (case rl_find uid (rl_table s) of
                      Some i \<Rightarrow> (i, rl_table s) | None \<Rightarrow> rl_alloc uid (rl_table s));
          e = t ! i in
      if lockout_until_ns e > now_ns then
        (1, log_event ticks uid AUDIT_LOGIN_FAIL ''login attempt during lockout'' (s\<lparr>rl_table := t\<rparr>))
      else
        let e = (if now_ns - first_fail_ns e > RATELIMIT_WINDOW_NS
                 then e\<lparr>fail_count := 0, first_fail_ns := now_ns\<rparr> else e);
            e = (if fail_count e = 0 then e\<lparr>first_fail_ns := now_ns\<rparr> else e);
            e = e\<lparr>fail_count := fail_count e + 1\<rparr> in
        if fail_count e \<ge> RATELIMIT_THRESHOLD then
          (1, log_event ticks uid AUDIT_LOGIN_FAIL ''account locked after repeated failures''
                (s\<lparr>rl_table := t[i := e\<lparr>lockout_until_ns := now_ns + RATELIMIT_LOCKOUT_NS\<rparr>]\<rparr>))
        else
          (0, log_event ticks uid AUDIT_LOGIN_FAIL ''bad password'' (s\<lparr>rl_table := t[i := e]\<rparr>)))"

definition auth_success :: "u64 \<Rightarrow> u32 \<Rightarrow> sec \<Rightarrow> sec" where
  "auth_success ticks uid s =
     log_event ticks uid AUDIT_LOGIN_OK ''login successful''
       (case rl_find uid (rl_table s) of None \<Rightarrow> s
        | Some i \<Rightarrow> s\<lparr>rl_table := (rl_table s)[i := rl_zero]\<rparr>)"

section \<open>W^X and initialisation\<close>

definition security_check_wx :: "u64 \<Rightarrow> int \<Rightarrow> sec \<Rightarrow> int \<times> sec" where
  "security_check_wx ticks pr s =
     (if (pr AND 2) \<noteq> 0 \<and> (pr AND 4) \<noteq> 0 then
        (-1, log_event ticks 0 AUDIT_SYSCALL_DENY ''W^X violation: write+exec mapping rejected'' s)
      else (0, s))"

text \<open>\<open>rdrand\<close> is tried ten times, if bit 30 of \<open>ecx\<close> of \<open>cpuid\<close> leaf 1 announces it; the argument
  lists the outcomes of the attempts.\<close>

definition sec_rdrand64 :: "u32 \<Rightarrow> u64 option list \<Rightarrow> u64 option" where
  "sec_rdrand64 ecx tries =
     (if \<not> bit ecx 30 then None
      else case find_index (\<lambda>t. t \<noteq> None) (take 10 tries) of None \<Rightarrow> None | Some i \<Rightarrow> tries ! i)"

definition pair64 :: "u32 \<Rightarrow> u32 \<Rightarrow> u64" where
  "pair64 hi lo = (push_bit 32 (ucast hi) OR ucast lo)"

type_synonym cpuid_regs = "u32 \<times> u32 \<times> u32 \<times> u32"

definition seed_pool :: "u64 \<Rightarrow> u64 option list \<Rightarrow> cpuid_regs \<Rightarrow> cpuid_regs \<Rightarrow> u64 \<Rightarrow> epool \<Rightarrow> epool" where
  "seed_pool tsc tries cpuid0 cpuid1 tsc2 p =
     (case (cpuid0, cpuid1) of ((eax, ebx, ecx, edx), (eax1, ebx1, ecx1, edx1)) \<Rightarrow>
      let p = p\<lparr>g_pool := replicate POOL_WORDS 0\<rparr>;
          p = entropy_mix tsc p;
          p = entropy_mix (tsc XOR 0xdeadbeefcafe0000) p;
          p = (case sec_rdrand64 ecx1 tries of None \<Rightarrow> p | Some r \<Rightarrow> entropy_mix r p);
          p = entropy_mix (pair64 ebx edx) p;
          p = entropy_mix (pair64 ecx eax) p;
          p = entropy_mix (pair64 eax1 edx1) p in
      entropy_mix tsc2 p)"

definition security_init ::
    "u64 \<Rightarrow> u64 \<Rightarrow> u64 option list \<Rightarrow> cpuid_regs \<Rightarrow> cpuid_regs \<Rightarrow> u64 \<Rightarrow> u64 \<Rightarrow> sec \<Rightarrow> sec" where
  "security_init ticks tsc tries cpuid0 cpuid1 tsc2 tsc3 s =
     (let (canary, p) = entropy_get64 tsc3 (seed_pool tsc tries cpuid0 cpuid1 tsc2 (pool s));
          canary = (if canary = 0 \<or> canary = -1 then 0x596f75416c6c6f77 else canary);
          empty = \<lparr>timestamp_ns = 0, a_pid = 0, a_uid = 0, event = 0, detail = []\<rparr> in
      log_event ticks 0 AUDIT_EXEC ''security module initialised''
        \<lparr>pool = p, audit_st = (audit_st s)\<lparr>g_audit_ring := replicate AUDIT_RING_SIZE empty\<rparr>,
         rl_table = replicate RATELIMIT_MAX_USERS rl_zero, stack_chk_guard = canary\<rparr>)"

lemma ROTL64_back:
  assumes "0 < n" "n < 64"
  shows "ROTL64 (ROTL64 x n) (64 - n) = x"
  using assms by (intro bit_word_eqI) (auto simp: ROTL64_def bit_simps)

definition undo_round :: "u64 \<times> u64 \<times> u64 \<times> u64 \<Rightarrow> u64 \<times> u64 \<times> u64 \<times> u64" where
  "undo_round = (\<lambda>(a, b, c, d).
     let b = ROTL64 b 1; b = b XOR c; c = c - d;
         d = ROTL64 d 48; d = d XOR a; a = a - b;
         b = ROTL64 b 40; b = b XOR c; c = c - d;
         d = ROTL64 d 32; d = d XOR a; a = a - b in
     (a, b, c, d))"

lemma undo_quarter_round: "undo_round (pool_quarter_round x) = x"
proof -
  obtain a b c d where x: "x = (a, b, c, d)" by (cases x)
  show ?thesis unfolding x
    using ROTL64_back [of 32] ROTL64_back [of 24] ROTL64_back [of 16] ROTL64_back [of 63]
    by (simp add: undo_round_def pool_quarter_round_def Let_def xor.assoc)
qed

lemma redo_quarter_round: "pool_quarter_round (undo_round x) = x"
proof -
  obtain a b c d where x: "x = (a, b, c, d)" by (cases x)
  show ?thesis unfolding x
    using ROTL64_back [of 32] ROTL64_back [of 40] ROTL64_back [of 48] ROTL64_back [of 1]
    by (simp add: undo_round_def pool_quarter_round_def Let_def xor.assoc)
qed

definition undo_at :: "nat \<Rightarrow> nat \<Rightarrow> nat \<Rightarrow> nat \<Rightarrow> u64 list \<Rightarrow> u64 list" where
  "undo_at i j k l p =
     (case undo_round (p ! i, p ! j, p ! k, p ! l) of (a, b, c, d) \<Rightarrow>
        p[i := a, j := b, k := c, l := d])"

lemma list_update_back:
  "distinct [i, j, k, l] \<Longrightarrow> p[i := a, j := b, k := c, l := d, i := p ! i, j := p ! j, k := p ! k, l := p ! l] = p"
  by (rule nth_equalityI, simp, case_tac "ia = i"; case_tac "ia = j"; case_tac "ia = k"; case_tac "ia = l") simp_all

lemma undo_round_at:
  assumes "distinct [i, j, k, l]" "{i, j, k, l} \<subseteq> {..<length p}"
  shows "undo_at i j k l (round_at i j k l p) = p"
proof -
  obtain a b c d where q: "pool_quarter_round (p ! i, p ! j, p ! k, p ! l) = (a, b, c, d)"
    by (metis surj_pair)
  then have u: "undo_round (a, b, c, d) = (p ! i, p ! j, p ! k, p ! l)"
    by (metis undo_quarter_round)
  from assms show ?thesis
    using list_update_back [OF assms(1)] by (simp add: undo_at_def round_at_def q u)
qed

lemma length_round_at [simp]: "length (round_at i j k l p) = length p"
  by (simp add: round_at_def split: prod.split)

definition pool_unmix :: "u64 list \<Rightarrow> u64 list" where
  "pool_unmix p =
     fold (\<lambda>i p. undo_at (0 + i) (4 + i) (8 + i) (12 + i)
                   (undo_at (16 + i) (20 + i) (24 + i) (28 + i) p)) [3, 2, 1, 0] p"

lemma upt_0_4: "[0..<4] = [0, 1, 2, 3 :: nat]"
  by (simp add: upt_rec eval_nat_numeral)

lemma pool_unmix_mix: "length p = POOL_WORDS \<Longrightarrow> pool_unmix (pool_mix p) = p"
  by (simp add: pool_mix_def pool_unmix_def POOL_WORDS_def undo_round_at upt_0_4)

lemma length_pool_mix [simp]: "length (pool_mix p) = length p"
  by (simp add: pool_mix_def upt_rec)
lemma xor_right_cancel: "(x :: u64) XOR s = y XOR s \<Longrightarrow> x = y"
proof -
  assume "x XOR s = y XOR s"
  then have "(x XOR s) XOR s = (y XOR s) XOR s" by simp
  then show ?thesis by (simp add: xor.assoc)
qed

lemma xor_left_cancel: "(s :: u64) XOR x = s XOR y \<Longrightarrow> x = y"
  by (rule xor_right_cancel [of _ s]) (simp add: xor.commute)

lemma list_update_xor:
  fixes p q :: "u64 list"
  assumes "k < length p" "k < length q" "p[k := p ! k XOR s] = q[k := q ! k XOR s']"
  shows "(p = q \<longrightarrow> s = s') \<and> (s = s' \<longrightarrow> p = q)"
proof -
  have k: "p ! k XOR s = q ! k XOR s'"
    using arg_cong [OF assms(3), of "\<lambda>l. l ! k"] assms(1,2) by simp
  have l: "length p = length q" using arg_cong [OF assms(3), of length] by simp
  have "p ! j = q ! j" if "s = s'" "j < length p" for j
    using arg_cong [OF assms(3), of "\<lambda>l. l ! j"] k that by (cases "j = k") (auto dest: xor_right_cancel)
  with k l show ?thesis by (auto intro: nth_equalityI dest: xor_left_cancel)
qed

lemma pool_mix_inj:
  "length p = POOL_WORDS \<Longrightarrow> length q = POOL_WORDS \<Longrightarrow> pool_mix p = pool_mix q \<Longrightarrow> p = q"
  by (metis pool_unmix_mix)

lemma add_second_inj:
  fixes p q :: "u64 list"
  assumes "length p = POOL_WORDS" "length q = POOL_WORDS"
    "p[0 := p ! 0 + p ! 1] = q[0 := q ! 0 + q ! 1]"
  shows "p = q"
proof (rule nth_equalityI)
  show "length p = length q" using assms by simp
  have o: "p ! j = q ! j" if "j \<noteq> 0" for j
    using arg_cong [OF assms(3), of "\<lambda>l. l ! j"] that by simp
  have "p ! 0 + p ! 1 = q ! 0 + q ! 1"
    using arg_cong [OF assms(3), of "\<lambda>l. l ! 0"] assms(1,2) by (simp add: POOL_WORDS_def)
  then have "p ! 0 = q ! 0" using o [of 1] by simp
  then show "p ! j = q ! j" for j using o [of j] by (cases "j = 0") auto
qed

text \<open>
  The pool never loses entropy. Mixing in a seed and drawing a number are both injective
  steps of the pool: from pools with the same write position, different contents with the same
  input, and the same content with different inputs, always give different contents.
\<close>

theorem pool_steps_injective:
  assumes "length (g_pool e) = POOL_WORDS" "length (g_pool f) = POOL_WORDS"
    and "g_pool_idx e = g_pool_idx f"
    and "g_pool (entropy_mix s e) = g_pool (entropy_mix s' f) \<or>
         g_pool (snd (entropy_get64 s e)) = g_pool (snd (entropy_get64 s' f))"
  shows "(g_pool e = g_pool f \<longrightarrow> s = s') \<and> (s = s' \<longrightarrow> g_pool e = g_pool f)"
proof -
  let ?k = "unat (g_pool_idx e) mod POOL_WORDS"
  let ?p = "(g_pool e)[?k := g_pool e ! ?k XOR s]" and ?q = "(g_pool f)[?k := g_pool f ! ?k XOR s']"
  have k: "?k < POOL_WORDS" by (simp add: POOL_WORDS_def)
  have "pool_mix ?p = pool_mix ?q"
    using assms add_second_inj [of "pool_mix ?p" "pool_mix ?q"]
    by (auto simp: entropy_mix_def entropy_get64_def Let_def)
  then have "?p = ?q" using assms pool_mix_inj by simp
  then show ?thesis using list_update_xor [of ?k "g_pool e" "g_pool f" s s'] assms k by simp
qed

section \<open>Audit ring\<close>

definition log_call :: "u64 \<times> u32 \<times> u32 \<times> u8 \<times> string option \<Rightarrow> audit \<Rightarrow> audit" where
  "log_call = (\<lambda>(t, p, u, ev, d). audit_log t p u ev d)"

definition call_entry :: "u64 \<times> u32 \<times> u32 \<times> u8 \<times> string option \<Rightarrow> audit_entry" where
  "call_entry = (\<lambda>(t, p, u, ev, d). audit_make t p u ev d)"

lemma log_call_simps:
  "g_audit_ring (log_call c a) =
     (g_audit_ring a)[unat (g_audit_head a) mod AUDIT_RING_SIZE := call_entry c]"
  "g_audit_head (log_call c a) = g_audit_head a + 1"
  by (simp_all add: log_call_def call_entry_def audit_log_def split: prod.split)

lemma audit_ring_contents:
  assumes "length (g_audit_ring a) = AUDIT_RING_SIZE" "g_audit_head a = 0"
    and "length cs < 2 ^ 32"
  shows "unat (g_audit_head (fold log_call cs a)) = length cs \<and>
     length (g_audit_ring (fold log_call cs a)) = AUDIT_RING_SIZE \<and>
     (\<forall>j < length cs. length cs \<le> j + AUDIT_RING_SIZE \<longrightarrow>
        g_audit_ring (fold log_call cs a) ! (j mod AUDIT_RING_SIZE) = call_entry (cs ! j))"
  using assms(3)
proof (induction cs rule: rev_induct)
  case Nil
  then show ?case using assms by simp
next
  case (snoc c cs)
  let ?a = "fold log_call cs a"
  have IH: "unat (g_audit_head ?a) = length cs" "length (g_audit_ring ?a) = AUDIT_RING_SIZE"
    "\<And>j. j < length cs \<Longrightarrow> length cs \<le> j + AUDIT_RING_SIZE \<Longrightarrow>
        g_audit_ring ?a ! (j mod AUDIT_RING_SIZE) = call_entry (cs ! j)"
    using snoc by auto
  have h: "unat (g_audit_head ?a + 1) = Suc (length cs)"
    using IH(1) snoc.prems by (simp add: unat_word_ariths)
  have c: "g_audit_ring (log_call c ?a) =
      (g_audit_ring ?a)[length cs mod AUDIT_RING_SIZE := call_entry c]"
    "g_audit_head (log_call c ?a) = g_audit_head ?a + 1"
    by (simp_all add: log_call_simps IH(1))
  have ne: "length cs mod AUDIT_RING_SIZE \<noteq> j mod AUDIT_RING_SIZE"
    if "j < length cs" "Suc (length cs) \<le> j + AUDIT_RING_SIZE" for j
  proof
    assume "length cs mod AUDIT_RING_SIZE = j mod AUDIT_RING_SIZE"
    moreover have "0 < AUDIT_RING_SIZE" "length cs - j < AUDIT_RING_SIZE" using that by linarith+
    ultimately show False using mod_add_inj [of j 0 AUDIT_RING_SIZE "length cs - j"] that by simp
  qed
  have lt: "length cs mod AUDIT_RING_SIZE < AUDIT_RING_SIZE" by (simp add: AUDIT_RING_SIZE_def)
  show ?case using h IH(2,3) ne lt
    by (auto simp: c nth_append less_Suc_eq)
qed

text \<open>
  The audit log is a faithful tail of history. After any number of logged events from an
  empty log, \<open>audit_dump\<close> prints exactly the last 64 of them (all of them when there are fewer),
  oldest first, each with its own data.
\<close>

theorem audit_dump_last:
  assumes "length (g_audit_ring a) = AUDIT_RING_SIZE" and "g_audit_head a = 0"
    and "length cs < 2 ^ 32"
  shows "audit_dump (fold log_call cs a) =
    map call_entry (drop (length cs - AUDIT_RING_SIZE) cs)"
proof -
  let ?a = "fold log_call cs a" and ?n = "length cs"
  note C = audit_ring_contents [OF assms]
  have u: "unat (g_audit_head ?a) = ?n" using C by blast
  have el: "g_audit_ring ?a ! (j mod AUDIT_RING_SIZE) = call_entry (cs ! j)"
    if "j < ?n" "?n \<le> j + AUDIT_RING_SIZE" for j
    using C that by blast
  show ?thesis
  proof (cases "?n < AUDIT_RING_SIZE")
    case True
    then show ?thesis using el
      by (intro nth_equalityI) (auto simp: audit_dump_def Let_def u)
  next
    case False
    have "(?n mod AUDIT_RING_SIZE + i) mod AUDIT_RING_SIZE =
        (?n - AUDIT_RING_SIZE + i) mod AUDIT_RING_SIZE" for i
      using False by (metis mod_add_left_eq le_mod_geq not_less)
    then show ?thesis using el False
      by (intro nth_equalityI) (auto simp: audit_dump_def Let_def u)
  qed
qed

section \<open>Rate limiter\<close>

text \<open>What the table says of a user, and the rule one user's record follows on a failure.\<close>

definition rl_view :: "ratelimit_entry list \<Rightarrow> u32 \<Rightarrow> ratelimit_entry option" where
  "rl_view t uid = map_option (nth t) (rl_find uid t)"

definition rl_ok :: "ratelimit_entry list \<Rightarrow> bool" where
  "rl_ok t \<longleftrightarrow> (\<forall>e \<in> set t. fail_count e = 0 \<longrightarrow> lockout_until_ns e = 0) \<and>
     (\<forall>i < length t. \<forall>j < length t. fail_count (t ! i) \<noteq> 0 \<longrightarrow> fail_count (t ! j) \<noteq> 0 \<longrightarrow>
        rl_uid (t ! i) = rl_uid (t ! j) \<longrightarrow> i = j)"

definition fail_rule :: "u64 \<Rightarrow> u32 \<Rightarrow> ratelimit_entry option \<Rightarrow> bool \<times> ratelimit_entry option" where
  "fail_rule now uid v =
     (case v of
        None \<Rightarrow> (False, Some \<lparr>rl_uid = uid, fail_count = 1, first_fail_ns = now, lockout_until_ns = 0\<rparr>)
      | Some e \<Rightarrow>
          if now < lockout_until_ns e then (True, v)
          else if now - first_fail_ns e > RATELIMIT_WINDOW_NS
          then (False, Some (e\<lparr>fail_count := 1, first_fail_ns := now\<rparr>))
          else if fail_count e + 1 \<ge> RATELIMIT_THRESHOLD
          then (True, Some (e\<lparr>fail_count := fail_count e + 1,
                              lockout_until_ns := now + RATELIMIT_LOCKOUT_NS\<rparr>))
          else (False, Some (e\<lparr>fail_count := fail_count e + 1\<rparr>)))"

lemma rl_ok_uniq:
  "rl_ok t \<Longrightarrow> i < length t \<Longrightarrow> j < length t \<Longrightarrow> fail_count (t ! i) \<noteq> 0 \<Longrightarrow> fail_count (t ! j) \<noteq> 0 \<Longrightarrow>
   rl_uid (t ! i) = rl_uid (t ! j) \<Longrightarrow> i = j"
  unfolding rl_ok_def by blast

lemma rl_ok_free: "rl_ok t \<Longrightarrow> e \<in> set t \<Longrightarrow> fail_count e = 0 \<Longrightarrow> lockout_until_ns e = 0"
  unfolding rl_ok_def by blast

lemma rl_find_alt: "rl_find uid t = find_index (\<lambda>e. rl_uid e = uid \<and> fail_count e \<noteq> 0) t"
proof -
  have "(0 < x) = (x \<noteq> 0)" for x :: u32 by (rule word_neq_0_conv [symmetric])
  then show ?thesis unfolding rl_find_def by (simp only:)
qed

lemma rl_viewI:
  assumes "rl_ok t" "i < length t" "rl_uid (t ! i) = uid" "fail_count (t ! i) \<noteq> 0"
  shows "rl_find uid t = Some i"
  unfolding rl_find_alt
proof (rule find_index_first)
  show "i < length t" by (rule assms(2))
  show "rl_uid (t ! i) = uid \<and> fail_count (t ! i) \<noteq> 0" using assms(3,4) by simp
  show "\<not> (rl_uid (t ! j) = uid \<and> fail_count (t ! j) \<noteq> 0)" if "j < i" for j
    using rl_ok_uniq [OF assms(1), of j i] assms(2-4) that by auto
qed

lemma rl_find_Some:
  "rl_find uid t = Some i \<Longrightarrow> i < length t \<and> rl_uid (t ! i) = uid \<and> fail_count (t ! i) \<noteq> 0"
  unfolding rl_find_alt by (drule find_index_Some) simp

lemma rl_find_None:
  "rl_find uid t = None \<longleftrightarrow> (\<forall>e \<in> set t. rl_uid e = uid \<longrightarrow> fail_count e = 0)"
  unfolding rl_find_alt by (auto simp: find_index_None)

lemma rl_view_eq:
  assumes "rl_ok t" "rl_ok t'" "length t' = length t"
    and "\<And>j. j < length t \<Longrightarrow> rl_uid (t ! j) = uid \<and> fail_count (t ! j) \<noteq> 0 \<or>
          rl_uid (t' ! j) = uid \<and> fail_count (t' ! j) \<noteq> 0 \<Longrightarrow> t' ! j = t ! j"
  shows "rl_view t' uid = rl_view t uid"
proof (cases "rl_find uid t")
  case None
  have "fail_count (t' ! j) = 0" if j: "j < length t'" "rl_uid (t' ! j) = uid" for j
  proof (rule ccontr)
    assume n: "fail_count (t' ! j) \<noteq> 0"
    then have e: "t' ! j = t ! j" using j assms(3,4) by simp
    have "fail_count (t ! j) = 0" using None j e assms(3) by (simp add: rl_find_None)
    with n e show False by simp
  qed
  then have "rl_find uid t' = None" by (auto simp: rl_find_None in_set_conv_nth)
  with None show ?thesis by (simp add: rl_view_def)
next
  case (Some i)
  note f = rl_find_Some [OF Some]
  have e: "t' ! i = t ! i" using f assms(4) [of i] by simp
  have "rl_find uid t' = Some i" using rl_viewI [OF assms(2), of i uid] f e assms(3) by simp
  with Some e show ?thesis by (simp add: rl_view_def)
qed

text \<open>Writing the record of a user into its slot, or into a slot that is free or evicted.\<close>

lemma rl_ok_update:
  assumes "rl_ok t" "i < length t" "fail_count e \<noteq> 0"
    and "\<And>j. j < length t \<Longrightarrow> j \<noteq> i \<Longrightarrow> fail_count (t ! j) \<noteq> 0 \<Longrightarrow> rl_uid (t ! j) \<noteq> rl_uid e"
  shows "rl_ok (t[i := e])"
proof -
  have "\<forall>e' \<in> set (t[i := e]). fail_count e' = 0 \<longrightarrow> lockout_until_ns e' = 0"
    using assms(3) rl_ok_free [OF assms(1)] set_update_subset_insert [of t i e] by fastforce
  moreover have "a = b"
    if "a < length t" "b < length t" "fail_count (t[i := e] ! a) \<noteq> 0" "fail_count (t[i := e] ! b) \<noteq> 0"
      "rl_uid (t[i := e] ! a) = rl_uid (t[i := e] ! b)" for a b
    using that assms(2-4) rl_ok_uniq [OF assms(1), of a b]
    by (cases "a = i"; cases "b = i") auto
  ultimately show ?thesis unfolding rl_ok_def by simp
qed

lemma rl_update_view:
  assumes "rl_ok t" "i < length t" "fail_count e \<noteq> 0" "rl_uid e = uid"
    and "\<And>j. j < length t \<Longrightarrow> j \<noteq> i \<Longrightarrow> fail_count (t ! j) \<noteq> 0 \<Longrightarrow> rl_uid (t ! j) \<noteq> uid"
  shows "rl_view (t[i := e]) uid = Some e"
    "fail_count (t ! i) = 0 \<or> rl_uid (t ! i) = uid \<Longrightarrow> u \<noteq> uid \<Longrightarrow> rl_view (t[i := e]) u = rl_view t u"
proof -
  have ok: "rl_ok (t[i := e])" using assms by (intro rl_ok_update) auto
  have "rl_find uid (t[i := e]) = Some i" using rl_viewI [OF ok, of i uid] assms by simp
  then show "rl_view (t[i := e]) uid = Some e" using assms by (simp add: rl_view_def)
  assume "fail_count (t ! i) = 0 \<or> rl_uid (t ! i) = uid" "u \<noteq> uid"
  then show "rl_view (t[i := e]) u = rl_view t u"
    using assms by (intro rl_view_eq [OF assms(1) ok]) (auto simp: nth_list_update)
qed

lemma rl_table_log_event [simp]: "rl_table (log_event t u ev d s) = rl_table s"
  by (simp add: log_event_def)

lemma rl_alloc_free:
  assumes "rl_ok t" "\<exists>e \<in> set t. fail_count e = 0"
  shows "\<exists>i < length t. fail_count (t ! i) = 0 \<and> lockout_until_ns (t ! i) = 0 \<and>
    rl_alloc uid t = (i, t[i := (t ! i)\<lparr>rl_uid := uid\<rparr>])"
proof -
  obtain i where i: "find_index (\<lambda>e. fail_count e = 0) t = Some i"
    using assms(2) find_index_None [of "\<lambda>e. fail_count e = 0" t] by (metis not_Some_eq)
  note f = find_index_Some [OF i]
  moreover have "lockout_until_ns (t ! i) = 0" using rl_ok_free [OF assms(1), of "t ! i"] f by simp
  ultimately show ?thesis by (auto simp: rl_alloc_def i)
qed

lemma threshold_gt_1: "\<not> RATELIMIT_THRESHOLD \<le> 1"
  by (simp add: RATELIMIT_THRESHOLD_def word_le_nat_alt)

lemma rl_update_commute:
  "e\<lparr>first_fail_ns := a, fail_count := b\<rparr> = e\<lparr>fail_count := b, first_fail_ns := a\<rparr>"
  by (cases e) simp

lemma auth_fail_new:
  assumes "rl_ok (rl_table s)" "rl_find uid (rl_table s) = None" "\<exists>e \<in> set (rl_table s). fail_count e = 0"
    and "auth_fail ticks uid s = (r, s')"
  shows "\<exists>i < length (rl_table s). fail_count (rl_table s ! i) = 0 \<and> r = 0 \<and>
    rl_table s' = (rl_table s)[i := \<lparr>rl_uid = uid, fail_count = 1,
      first_fail_ns = ticks * 10000000, lockout_until_ns = 0\<rparr>]"
proof -
  obtain i where i: "i < length (rl_table s)" "fail_count (rl_table s ! i) = 0"
    "lockout_until_ns (rl_table s ! i) = 0"
    "rl_alloc uid (rl_table s) = (i, (rl_table s)[i := (rl_table s ! i)\<lparr>rl_uid := uid\<rparr>])"
    using rl_alloc_free [OF assms(1,3)] by blast
  have "r = 0 \<and> rl_table s' = (rl_table s)[i := (rl_table s ! i)\<lparr>rl_uid := uid, fail_count := 1,
      first_fail_ns := ticks * 10000000\<rparr>]"
    using assms(4) i
    by (auto simp: auth_fail_def assms(2) Let_def threshold_gt_1 rl_update_commute split: if_splits)
  moreover have "(rl_table s ! i)\<lparr>rl_uid := uid, fail_count := 1, first_fail_ns := ticks * 10000000\<rparr> =
      \<lparr>rl_uid = uid, fail_count = 1, first_fail_ns = ticks * 10000000, lockout_until_ns = 0\<rparr>"
    using i(3) by (cases "rl_table s ! i") simp
  ultimately show ?thesis using i by auto
qed

lemma auth_fail_known:
  assumes "rl_find uid (rl_table s) = Some i" "auth_fail ticks uid s = (r, s')"
    and "fail_rule (ticks * 10000000) uid (Some (rl_table s ! i)) = (b, Some e)"
  shows "r = (if b then 1 else 0)" "rl_table s' = (rl_table s)[i := e]"
  using assms(2,3) rl_find_Some [OF assms(1)]
  by (auto simp: auth_fail_def assms(1) fail_rule_def Let_def threshold_gt_1 rl_update_commute
      split: if_splits)

lemma fail_rule_entry:
  assumes "\<And>e. v = Some e \<Longrightarrow> rl_uid e = uid \<and> fail_count e \<noteq> 0 \<and> fail_count e \<noteq> -1"
  shows "\<exists>e. snd (fail_rule now uid v) = Some e \<and> rl_uid e = uid \<and> fail_count e \<noteq> 0"
proof (cases v)
  case None
  then show ?thesis by (simp add: fail_rule_def)
next
  case (Some e)
  have "fail_count e + 1 \<noteq> 0" using assms [OF Some] by (metis add_eq_0_iff2)
  with assms [OF Some] show ?thesis by (simp add: fail_rule_def Some)
qed

lemma auth_fail_step:
  assumes ok: "rl_ok (rl_table s)" and nowrap: "map_option fail_count (rl_view (rl_table s) uid) \<noteq> Some (-1)"
    and room: "rl_view (rl_table s) uid \<noteq> None \<or> (\<exists>e \<in> set (rl_table s). fail_count e = 0)"
    and run: "auth_fail ticks uid s = (r, s')"
  shows "rl_ok (rl_table s') \<and>
    (r \<noteq> 0, rl_view (rl_table s') uid) = fail_rule (ticks * 10000000) uid (rl_view (rl_table s) uid) \<and>
    (\<forall>u. u \<noteq> uid \<longrightarrow> rl_view (rl_table s') u = rl_view (rl_table s) u)"
proof (cases "rl_find uid (rl_table s)")
  case None
  then have "\<exists>e \<in> set (rl_table s). fail_count e = 0" using room by (simp add: rl_view_def)
  then obtain i where i: "i < length (rl_table s)" "fail_count (rl_table s ! i) = 0" "r = 0"
    "rl_table s' = (rl_table s)[i := \<lparr>rl_uid = uid, fail_count = 1,
      first_fail_ns = ticks * 10000000, lockout_until_ns = 0\<rparr>]" (is "_ = _[i := ?e]")
    using auth_fail_new [OF ok None _ run] by blast
  have o: "rl_uid (rl_table s ! j) \<noteq> uid" if "j < length (rl_table s)" "fail_count (rl_table s ! j) \<noteq> 0" for j
    using None that by (auto simp: rl_find_None)
  have "rl_ok (rl_table s')" using rl_ok_update [OF ok i(1), of ?e] o i(4) by simp
  moreover have "rl_view (rl_table s') uid = Some ?e"
    using rl_update_view(1) [OF ok i(1), of ?e uid] o i(4) by simp
  moreover have "rl_view (rl_table s') u = rl_view (rl_table s) u" if "u \<noteq> uid" for u
    using rl_update_view(2) [OF ok i(1), of ?e uid u] o i(2,4) that by simp
  ultimately show ?thesis using None i(3) by (simp add: fail_rule_def rl_view_def)
next
  case (Some i)
  let ?t = "rl_table s"
  note f = rl_find_Some [OF Some]
  have v: "rl_view ?t uid = Some (?t ! i)" using Some by (simp add: rl_view_def)
  obtain e where e: "snd (fail_rule (ticks * 10000000) uid (Some (?t ! i))) = Some e" "rl_uid e = uid" "fail_count e \<noteq> 0"
    using fail_rule_entry [of "Some (?t ! i)" uid] f nowrap v by auto
  obtain b where b: "fail_rule (ticks * 10000000) uid (Some (?t ! i)) = (b, Some e)"
    using e(1) by (metis prod.collapse)
  note k = auth_fail_known [OF Some run b]
  have o: "rl_uid (?t ! j) \<noteq> uid" if "j < length ?t" "j \<noteq> i" "fail_count (?t ! j) \<noteq> 0" for j
    using rl_ok_uniq [OF ok, of j i] f that by auto
  have "rl_ok (rl_table s')" using rl_ok_update [OF ok, of i e] f e o k(2) by simp
  moreover have "rl_view (rl_table s') uid = Some e"
    using rl_update_view(1) [OF ok, of i e uid] f e o k(2) by simp
  moreover have "rl_view (rl_table s') u = rl_view ?t u" if "u \<noteq> uid" for u
    using rl_update_view(2) [OF ok, of i e uid u] f e o k(2) that by simp
  ultimately show ?thesis using b v k(1) by simp
qed

text \<open>When the table is full, the record with the oldest first failure gives way.\<close>

lemma oldest_from_min:
  "oldest_from es k ts idx = idx \<and> (\<forall>e \<in> set es. ts \<le> first_fail_ns e) \<or>
   (\<exists>j < length es. oldest_from es k ts idx = k + j \<and> first_fail_ns (es ! j) < ts \<and>
      (\<forall>e \<in> set es. first_fail_ns (es ! j) \<le> first_fail_ns e))"
proof (induction es arbitrary: k ts idx)
  case (Cons e es)
  show ?case
  proof (cases "first_fail_ns e < ts")
    case True
    from Cons.IH [of "Suc k" "first_fail_ns e" k] show ?thesis
    proof
      assume "oldest_from es (Suc k) (first_fail_ns e) k = k \<and> (\<forall>x \<in> set es. first_fail_ns e \<le> first_fail_ns x)"
      then show ?thesis using True by (intro disjI2 exI [of _ 0]) simp
    next
      assume "\<exists>j < length es. oldest_from es (Suc k) (first_fail_ns e) k = Suc k + j \<and>
        first_fail_ns (es ! j) < first_fail_ns e \<and> (\<forall>x \<in> set es. first_fail_ns (es ! j) \<le> first_fail_ns x)"
      then obtain j where "j < length es" "oldest_from es (Suc k) (first_fail_ns e) k = Suc k + j"
        "first_fail_ns (es ! j) < first_fail_ns e" "\<forall>x \<in> set es. first_fail_ns (es ! j) \<le> first_fail_ns x" by blast
      then show ?thesis using True by (intro disjI2 exI [of _ "Suc j"]) (auto intro: less_trans)
    qed
  next
    case False
    from Cons.IH [of "Suc k" ts idx] show ?thesis
    proof
      assume "oldest_from es (Suc k) ts idx = idx \<and> (\<forall>x \<in> set es. ts \<le> first_fail_ns x)"
      then show ?thesis using False leI [OF False] by (intro disjI1) simp
    next
      assume "\<exists>j < length es. oldest_from es (Suc k) ts idx = Suc k + j \<and> first_fail_ns (es ! j) < ts \<and>
        (\<forall>x \<in> set es. first_fail_ns (es ! j) \<le> first_fail_ns x)"
      then obtain j where "j < length es" "oldest_from es (Suc k) ts idx = Suc k + j"
        "first_fail_ns (es ! j) < ts" "\<forall>x \<in> set es. first_fail_ns (es ! j) \<le> first_fail_ns x" by blast
      then show ?thesis using False by (intro disjI2 exI [of _ "Suc j"]) (auto simp: not_less)
    qed
  qed
qed simp

lemma oldest_is_min:
  assumes "t \<noteq> []"
  shows "oldest_from t 0 (-1) 0 < length t \<and> (\<forall>e \<in> set t. first_fail_ns (t ! oldest_from t 0 (-1) 0) \<le> first_fail_ns e)"
  using oldest_from_min [of t 0 "-1" 0]
proof
  assume a: "oldest_from t 0 (-1) 0 = 0 \<and> (\<forall>e \<in> set t. -1 \<le> first_fail_ns e)"
  then have "first_fail_ns e = -1" if "e \<in> set t" for e using that word_n1_ge [of "first_fail_ns e"] by (auto intro: antisym)
  then show ?thesis using a assms by simp
qed (use assms in auto)

definition evicts :: "ratelimit_entry list \<Rightarrow> u32 \<Rightarrow> u32 option \<Rightarrow> bool" where
  "evicts t uid ev \<longleftrightarrow> (case ev of
       None \<Rightarrow> rl_view t uid \<noteq> None \<or> (\<exists>e \<in> set t. fail_count e = 0)
     | Some v \<Rightarrow> v \<noteq> uid \<and> rl_view t uid = None \<and> (\<forall>e \<in> set t. fail_count e \<noteq> 0) \<and>
         (\<exists>e. rl_view t v = Some e \<and> (\<forall>u e'. rl_view t u = Some e' \<longrightarrow> first_fail_ns e \<le> first_fail_ns e')))"

lemma rl_view_mem: "rl_view t u = Some e \<Longrightarrow> e \<in> set t"
  using rl_find_Some by (fastforce simp: rl_view_def)

lemma auth_fail_evict:
  assumes ok: "rl_ok (rl_table s)" and ne: "rl_table s \<noteq> []" and un: "rl_view (rl_table s) uid = None"
    and full: "\<forall>e \<in> set (rl_table s). fail_count e \<noteq> 0" and run: "auth_fail ticks uid s = (r, s')"
  shows "\<exists>v. evicts (rl_table s) uid (Some v) \<and> rl_ok (rl_table s') \<and> length (rl_table s') = length (rl_table s) \<and>
    (r \<noteq> 0, rl_view (rl_table s') uid) = fail_rule (ticks * 10000000) uid None \<and>
    (\<forall>u. u \<noteq> uid \<longrightarrow> rl_view (rl_table s') u = (if u = v then None else rl_view (rl_table s) u))"
proof -
  let ?t = "rl_table s" and ?e = "\<lparr>rl_uid = uid, fail_count = 1, first_fail_ns = ticks * 10000000, lockout_until_ns = 0\<rparr>"
  define i where "i = oldest_from ?t 0 (-1) 0"
  have i: "i < length ?t" "\<forall>e \<in> set ?t. first_fail_ns (?t ! i) \<le> first_fail_ns e" using oldest_is_min [OF ne] by (auto simp: i_def)
  have nf: "rl_find uid ?t = None" using un by (simp add: rl_view_def)
  have al: "rl_alloc uid ?t = (i, ?t[i := rl_zero\<lparr>rl_uid := uid\<rparr>])"
    using full by (simp add: rl_alloc_def find_index_None [THEN iffD2] i_def Let_def)
  have z: "fail_count rl_zero = 0" "lockout_until_ns rl_zero = 0" by (simp_all add: rl_zero_def)
  have e: "rl_zero\<lparr>rl_uid := uid, fail_count := 1, first_fail_ns := ticks * 10000000\<rparr> = ?e" by (simp add: rl_zero_def)
  have "r = 0 \<and> rl_table s' = ?t[i := rl_zero\<lparr>rl_uid := uid, fail_count := 1, first_fail_ns := ticks * 10000000\<rparr>]"
    using run i(1) z by (auto simp: auth_fail_def nf al Let_def threshold_gt_1 rl_update_commute split: if_splits)
  then have s': "r = 0" "rl_table s' = ?t[i := ?e]" unfolding e by auto
  have o: "rl_uid (?t ! j) \<noteq> uid" if "j < length ?t" for j
    using nf full that by (auto simp: rl_find_None)
  have ok': "rl_ok (?t[i := ?e])" using o by (intro rl_ok_update [OF ok i(1)]) auto
  let ?v = "rl_uid (?t ! i)"
  have fv: "rl_view ?t ?v = Some (?t ! i)" using rl_viewI [OF ok i(1) refl] full i(1) by (simp add: rl_view_def)
  have "evicts ?t uid (Some ?v)"
    using fv un full o [OF i(1)] i(2) rl_view_mem by (auto simp: evicts_def)
  moreover have "rl_view (?t[i := ?e]) uid = Some ?e" using rl_update_view(1) [OF ok i(1), of ?e uid] o by simp
  moreover have "rl_view (?t[i := ?e]) u = (if u = ?v then None else rl_view ?t u)" if "u \<noteq> uid" for u
  proof (cases "u = ?v")
    case True
    have "fail_count (?t[i := ?e] ! j) = 0" if "j < length ?t" "rl_uid (?t[i := ?e] ! j) = u" for j
      using that True \<open>u \<noteq> uid\<close> rl_ok_uniq [OF ok, of j i] full i(1) by (cases "j = i") auto
    then have "rl_find u (?t[i := ?e]) = None" by (auto simp: rl_find_None in_set_conv_nth)
    then show ?thesis using True by (simp add: rl_view_def)
  next
    case False
    then show ?thesis using that i(1) by (simp add: nth_list_update) (intro rl_view_eq [OF ok ok'], auto simp: nth_list_update)
  qed
  ultimately show ?thesis using s' ok' by (intro exI [of _ ?v]) (simp add: fail_rule_def)
qed

lemma auth_fail_length: "auth_fail ticks uid s = (r, s') \<Longrightarrow> length (rl_table s') = length (rl_table s)"
  by (auto simp: auth_fail_def rl_alloc_def Let_def split: option.splits prod.splits if_splits)


definition sec0 :: sec where
  "sec0 = \<lparr>pool = \<lparr>g_pool = replicate POOL_WORDS 0, g_pool_idx = 0\<rparr>,
     audit_st = \<lparr>g_audit_ring = replicate AUDIT_RING_SIZE (audit_make 0 0 0 0 None), g_audit_head = 0\<rparr>,
     rl_table = replicate RATELIMIT_MAX_USERS rl_zero, stack_chk_guard = 0\<rparr>"

lemma sec0_ok: "rl_ok (rl_table sec0)" "rl_view (rl_table sec0) u = None"
  "\<exists>e \<in> set (rl_table sec0). fail_count e = 0"
  by (simp_all add: rl_ok_def rl_view_def rl_find_None sec0_def rl_zero_def RATELIMIT_MAX_USERS_def)


text \<open>The answers to a sequence of failed logins of one user, at the given clock ticks.\<close>

fun auth_fails :: "u32 \<Rightarrow> u64 list \<Rightarrow> sec \<Rightarrow> int list \<times> sec" where
  "auth_fails uid [] s = ([], s)"
| "auth_fails uid (t # ts) s =
     (case auth_fail t uid s of (r, s1) \<Rightarrow> case auth_fails uid ts s1 of (rs, s2) \<Rightarrow> (r # rs, s2))"

definition rec_at :: "u32 \<Rightarrow> u32 \<Rightarrow> u64 \<Rightarrow> u64 \<Rightarrow> ratelimit_entry" where
  "rec_at uid n first lock =
     \<lparr>rl_uid = uid, fail_count = n, first_fail_ns = first, lockout_until_ns = lock\<rparr>"

lemma auth_fail_counts:
  assumes "auth_fail t uid s = (r, s')"
    and "rl_ok (rl_table s)" "rl_view (rl_table s) uid = Some (rec_at uid n first 0)"
    and "n \<noteq> -1" "\<not> t * 10000000 - first > RATELIMIT_WINDOW_NS"
  shows "(r \<noteq> 0) = (n + 1 \<ge> RATELIMIT_THRESHOLD) \<and> rl_ok (rl_table s') \<and>
    rl_view (rl_table s') uid = Some (rec_at uid (n + 1) first
      (if n + 1 \<ge> RATELIMIT_THRESHOLD then t * 10000000 + RATELIMIT_LOCKOUT_NS else 0))"
  using auth_fail_step [OF assms(2) _ _ assms(1)] assms(3-5)
  by (auto simp: fail_rule_def rec_at_def split: if_splits)

lemma auth_fail_first:
  assumes "auth_fail t uid s = (r, s')" and "rl_ok (rl_table s)"
    and "rl_view (rl_table s) uid = None" "\<exists>e \<in> set (rl_table s). fail_count e = 0"
  shows "r = 0 \<and> rl_ok (rl_table s') \<and> rl_view (rl_table s') uid = Some (rec_at uid 1 (t * 10000000) 0)"
  using auth_fail_step [OF assms(2) _ _ assms(1)] assms(3,4)
  by (auto simp: fail_rule_def rec_at_def)

lemma tick_ns: "unat t < 10 ^ 12 \<Longrightarrow> unat (t * 10000000 :: u64) = unat t * 10000000"
  by (simp add: unat_word_ariths)

lemma tick_window:
  assumes "t1 \<le> t" "unat t < 10 ^ 12" "unat t \<le> unat t1 + 6000"
  shows "\<not> t * 10000000 - t1 * 10000000 > RATELIMIT_WINDOW_NS"
proof -
  have le: "unat t1 \<le> unat t" using assms(1) by (simp add: word_le_nat_alt)
  have "unat (t * 10000000 - t1 * 10000000) = unat t * 10000000 - unat t1 * 10000000"
    using le assms(2) tick_ns [of t] tick_ns [of t1] by (simp add: unat_sub_if')
  then show ?thesis using assms(3) by (simp add: word_less_nat_alt RATELIMIT_WINDOW_NS_def)
qed

lemma tick_lockout:
  assumes "unat t < 10 ^ 12" "unat t' < unat t + 3000"
  shows "t' * 10000000 < t * 10000000 + RATELIMIT_LOCKOUT_NS"
  using assms tick_ns [of t] tick_ns [of t']
  by (simp add: word_less_nat_alt RATELIMIT_LOCKOUT_NS_def unat_word_ariths)

lemma auth_fail_reset:
  assumes "auth_fail t uid s = (r, s')"
    and "rl_ok (rl_table s)" "rl_view (rl_table s) uid = Some (rec_at uid n first 0)"
    and "n \<noteq> -1" "t * 10000000 - first > RATELIMIT_WINDOW_NS"
  shows "r = 0 \<and> rl_ok (rl_table s') \<and> rl_view (rl_table s') uid = Some (rec_at uid 1 (t * 10000000) 0)"
  using auth_fail_step [OF assms(2) _ _ assms(1)] assms(3-5)
  by (auto simp: fail_rule_def rec_at_def split: if_splits)

lemma tick_expired:
  assumes "unat t < 10 ^ 12" "unat t1 + 6000 < unat t"
  shows "t * 10000000 - t1 * 10000000 > RATELIMIT_WINDOW_NS"
proof -
  have u: "unat (t * 10000000) = unat t * 10000000" "unat (t1 * 10000000) = unat t1 * 10000000"
    using assms tick_ns [of t] tick_ns [of t1] by auto
  then have "t1 * 10000000 \<le> t * 10000000" using assms(2) by (simp add: word_le_nat_alt)
  then have "unat (t * 10000000 - t1 * 10000000) = unat t * 10000000 - unat t1 * 10000000" using u by (simp add: unat_sub)
  then show ?thesis using assms(2) by (simp add: word_less_nat_alt RATELIMIT_WINDOW_NS_def)
qed

text \<open>The first four failures of a user who had no record, in one window.\<close>

lemma four_failures:
  assumes "rl_ok (rl_table s)" and "rl_view (rl_table s) uid = None"
    and "\<exists>e \<in> set (rl_table s). fail_count e = 0"
    and "t1 \<le> t2" "t1 \<le> t3" "t1 \<le> t4" "unat t2 < 10 ^ 12" "unat t3 < 10 ^ 12" "unat t4 < 10 ^ 12"
    and "unat t2 \<le> unat t1 + 6000" "unat t3 \<le> unat t1 + 6000" "unat t4 \<le> unat t1 + 6000"
  shows "\<exists>s4. (\<forall>ts. map (\<lambda>r. r \<noteq> 0) (fst (auth_fails uid (t1 # t2 # t3 # t4 # ts) s)) =
      [False, False, False, False] @ map (\<lambda>r. r \<noteq> 0) (fst (auth_fails uid ts s4))) \<and>
    rl_ok (rl_table s4) \<and> rl_view (rl_table s4) uid = Some (rec_at uid 4 (t1 * 10000000) 0)"
proof -
  obtain r1 s1 where 1: "auth_fail t1 uid s = (r1, s1)" by (cases "auth_fail t1 uid s")
  obtain r2 s2 where 2: "auth_fail t2 uid s1 = (r2, s2)" by (cases "auth_fail t2 uid s1")
  obtain r3 s3 where 3: "auth_fail t3 uid s2 = (r3, s3)" by (cases "auth_fail t3 uid s2")
  obtain r4 s4 where 4: "auth_fail t4 uid s3 = (r4, s4)" by (cases "auth_fail t4 uid s3")
  note n = RATELIMIT_THRESHOLD_def word_le_nat_alt
  note f1 = auth_fail_first [OF 1 assms(1-3)]
  note f2 = auth_fail_counts [OF 2, of 1 "t1 * 10000000"] tick_window [OF assms(4,7,10)]
  have f2': "r2 = 0 \<and> rl_ok (rl_table s2) \<and> rl_view (rl_table s2) uid = Some (rec_at uid 2 (t1 * 10000000) 0)"
    using f1 f2 by (simp add: n)
  note f3 = auth_fail_counts [OF 3, of 2 "t1 * 10000000"] tick_window [OF assms(5,8,11)]
  have f3': "r3 = 0 \<and> rl_ok (rl_table s3) \<and> rl_view (rl_table s3) uid = Some (rec_at uid 3 (t1 * 10000000) 0)"
    using f2' f3 by (simp add: n)
  note f4 = auth_fail_counts [OF 4, of 3 "t1 * 10000000"] tick_window [OF assms(6,9,12)]
  have f4': "r4 = 0 \<and> rl_ok (rl_table s4) \<and> rl_view (rl_table s4) uid = Some (rec_at uid 4 (t1 * 10000000) 0)"
    using f3' f4 by (simp add: n)
  then show ?thesis using f1 f2' f3' by (intro exI [of _ s4]) (simp add: 1 2 3 4 split: prod.splits)
qed



text \<open>A success forgets the failures of the user and of nobody else.\<close>

lemma auth_success_clears:
  assumes "rl_ok (rl_table s)"
  shows "rl_ok (rl_table (auth_success t uid s)) \<and> rl_view (rl_table (auth_success t uid s)) uid = None \<and>
    (\<forall>u. u \<noteq> uid \<longrightarrow> rl_view (rl_table (auth_success t uid s)) u = rl_view (rl_table s) u)"
proof (cases "rl_find uid (rl_table s)")
  case None
  then show ?thesis using assms by (simp add: auth_success_def rl_view_def)
next
  case (Some i)
  let ?t = "rl_table s" and ?t' = "(rl_table s)[i := rl_zero]"
  note f = rl_find_Some [OF Some]
  have z: "fail_count rl_zero = 0" "lockout_until_ns rl_zero = 0" by (simp_all add: rl_zero_def)
  have free: "lockout_until_ns e = 0" if "e \<in> set ?t'" "fail_count e = 0" for e
    using that rl_ok_free [OF assms] z set_update_subset_insert [of ?t i rl_zero] by blast
  have un: "a = b" if "a < length ?t" "b < length ?t" "fail_count (?t' ! a) \<noteq> 0" "fail_count (?t' ! b) \<noteq> 0"
      "rl_uid (?t' ! a) = rl_uid (?t' ! b)" for a b
    using that rl_ok_uniq [OF assms, of a b] z f by (cases "a = i"; cases "b = i") auto
  have ok: "rl_ok ?t'" using free un unfolding rl_ok_def by simp
  have "fail_count (?t' ! j) = 0" if "j < length ?t" "rl_uid (?t' ! j) = uid" for j
    using that rl_ok_uniq [OF assms, of j i] f z by (cases "j = i") auto
  then have "rl_view ?t' uid = None" by (auto simp: rl_view_def rl_find_None in_set_conv_nth)
  moreover have "rl_view ?t' u = rl_view ?t u" if "u \<noteq> uid" for u
    using f z that by (intro rl_view_eq [OF assms ok]) (auto simp: nth_list_update split: if_splits)
  ultimately show ?thesis using ok Some by (simp add: auth_success_def)
qed

theorem pool_steps_injective_witness:
  "g_pool (entropy_mix 1 (pool sec0)) \<noteq> g_pool (entropy_mix 2 (pool sec0))"
proof -
  have "length (g_pool (pool sec0)) = POOL_WORDS" by (simp add: sec0_def)
  then show ?thesis using pool_steps_injective [of "pool sec0" "pool sec0" 1 2] by auto
qed

theorem audit_dump_last_witness:
  "audit_dump (fold log_call [(1, 2, 3, 4, Some ''x''), (5, 6, 7, 8, None)] (audit_st sec0)) =
    [call_entry (1, 2, 3, 4, Some ''x''), call_entry (5, 6, 7, 8, None)]"
  using audit_dump_last [of "audit_st sec0" "[(1, 2, 3, 4, Some ''x''), (5, 6, 7, 8, None)]"]
  by (simp add: sec0_def AUDIT_RING_SIZE_def)

lemma length_entropy_mix [simp]: "length (g_pool (entropy_mix x e)) = length (g_pool e)"
  by (simp add: entropy_mix_def Let_def)

lemma length_entropy_get64 [simp]: "length (g_pool (snd (entropy_get64 x e))) = length (g_pool e)"
  by (simp add: entropy_get64_def Let_def)

lemma length_seed_pool [simp]: "length (g_pool (seed_pool a b c d e p)) = POOL_WORDS"
  by (simp add: seed_pool_def Let_def split: prod.split option.split)

text \<open>
  Start of day. Whatever the hardware readings are, \<open>security_init\<close> leaves a canary that is
  neither zero nor all ones, a full-size pool and audit ring, a well-formed limiter with no
  failures on record, and the event of its own start as the last entry of the log.
\<close>

theorem security_init_establishes:
  fixes s :: sec and ticks tsc tsc2 tsc3 :: u64 and c0 c1 :: cpuid_regs and tries :: "u64 option list"
  defines "s' \<equiv> security_init ticks tsc tries c0 c1 tsc2 tsc3 s"
  shows "stack_chk_guard s' \<noteq> 0 \<and> stack_chk_guard s' \<noteq> -1 \<and>
    length (g_pool (pool s')) = POOL_WORDS \<and> length (g_audit_ring (audit_st s')) = AUDIT_RING_SIZE \<and>
    rl_ok (rl_table s') \<and> rl_view (rl_table s') u = None \<and>
    g_audit_ring (audit_st s') ! (unat (g_audit_head (audit_st s)) mod AUDIT_RING_SIZE) =
      audit_make ticks 0 0 AUDIT_EXEC (Some ''security module initialised'')"
proof -
  let ?d = "seed_pool tsc tries c0 c1 tsc2 (pool s)"
  obtain c p where e: "entropy_get64 tsc3 ?d = (c, p)" by (cases "entropy_get64 tsc3 ?d")
  have "length (g_pool (snd (entropy_get64 tsc3 ?d))) = POOL_WORDS" by simp
  then have l: "length (g_pool p) = POOL_WORDS" by (simp add: e)
  have k: "(0x596f75416c6c6f77 :: u64) \<noteq> 0" "(0x596f75416c6c6f77 :: u64) \<noteq> -1" by simp_all
  have t: "rl_table s' = rl_table sec0"
    by (simp add: s'_def security_init_def sec0_def Let_def split: prod.split)
  show ?thesis using l k sec0_ok unfolding t
    by (auto simp: s'_def security_init_def log_event_def audit_log_def AUDIT_RING_SIZE_def Let_def e)
qed

end
