(* ===== verification/UsrDb.thy ===== *)
theory UsrDb
  imports Security "HOL-Library.Char_ord"
begin

text \<open>
  \<open>src/kernel/usr/usr.c\<close>: the user and group database, password hashing, the permission check,
  and the reader and writer of the \<open>passwd\<close> and \<open>group\<close> files. The tables are lists whose length
  is the count variable of the code. A random salt is drawn from the entropy pool of
  \<open>Security\<close>; the time stamps that pool reads are a field of the state.
\<close>

section \<open>Data\<close>

type_synonym uid_t = u16
type_synonym gid_t = u16

definition UID_ROOT :: uid_t where "UID_ROOT = 0"
definition GID_ROOT :: gid_t where "GID_ROOT = 0"
definition GID_WHEEL :: gid_t where "GID_WHEEL = 1"
definition GID_USERS :: gid_t where "GID_USERS = 100"
definition USR_MAX_USERS :: nat where "USR_MAX_USERS = 64"
definition USR_MAX_GROUPS :: nat where "USR_MAX_GROUPS = 32"
definition USR_NAME_LEN :: nat where "USR_NAME_LEN = 32"
definition USR_HOME_LEN :: nat where "USR_HOME_LEN = 64"
definition USR_SHELL_LEN :: nat where "USR_SHELL_LEN = 64"
definition USR_FLAG_WHEEL :: u32 where "USR_FLAG_WHEEL = 1"
definition USR_FLAG_NOLOGIN :: u32 where "USR_FLAG_NOLOGIN = 2"
definition USR_FLAG_LOCKED :: u32 where "USR_FLAG_LOCKED = 4"

record asd_user =
  u_uid :: uid_t
  u_gid :: gid_t
  u_flags :: u32
  pw_hash :: u64
  pw_salt :: u64
  u_name :: string
  u_home :: string
  u_shell :: string
  u_groups :: u32

record asd_group =
  g_gid :: gid_t
  g_name :: string
  member_mask :: u32

record usr_db =
  g_users :: "asd_user list"
  g_groups :: "asd_group list"
  rng :: epool
  tsc_at :: "nat \<Rightarrow> u64"
  tsc_reads :: nat

definition draw_salt :: "usr_db \<Rightarrow> u64 \<times> usr_db" where
  "draw_salt d =
     (case entropy_get64 (tsc_at d (tsc_reads d)) (rng d) of (r, p) \<Rightarrow>
        (r, d\<lparr>rng := p, tsc_reads := Suc (tsc_reads d)\<rparr>))"

section \<open>Helpers\<close>

definition u_strncpy :: "string \<Rightarrow> nat \<Rightarrow> string" where
  "u_strncpy s n = take (n - 1) s"

definition u_isspace :: "char \<Rightarrow> bool" where
  "u_isspace c \<longleftrightarrow> c = CHR '' '' \<or> c = CHR 0x09 \<or> c = CHR 0x0A \<or> c = CHR 0x0D"

definition u_isdigit :: "char \<Rightarrow> bool" where
  "u_isdigit c \<longleftrightarrow> CHR ''0'' \<le> c \<and> c \<le> CHR ''9''"

fun atou_loop :: "string \<Rightarrow> u32 \<Rightarrow> u32" where
  "atou_loop [] v = v"
| "atou_loop (c # s) v =
     (if u_isdigit c then atou_loop s (v * 10 + (of_char c - 48)) else v)"

definition u_atou :: "string \<Rightarrow> u32" where "u_atou s = atou_loop s 0"

section \<open>Password hash\<close>

definition FNV_OFFSET :: u64 where "FNV_OFFSET = 14695981039346656037"
definition FNV_PRIME :: u64 where "FNV_PRIME = 1099511628211"

definition hash_char :: "char \<Rightarrow> u64 \<Rightarrow> u64" where
  "hash_char c h = (h XOR of_char c) * FNV_PRIME"

definition hash_round :: "u64 \<Rightarrow> u64" where
  "hash_round h =
     (let h = h XOR drop_bit 33 h; h = h * 0xff51afd7ed558ccd;
          h = h XOR drop_bit 33 h; h = h * 0xc4ceb9fe1a85ec53 in
      h XOR drop_bit 33 h)"

definition pw_hash_salted :: "string option \<Rightarrow> u64 \<Rightarrow> u64" where
  "pw_hash_salted pw salt =
     (let h = (FNV_OFFSET XOR salt) * FNV_PRIME;
          h = fold hash_char (case pw of None \<Rightarrow> [] | Some s \<Rightarrow> s) h in
      (hash_round ^^ 1024) h)"

section \<open>Groups and users\<close>

definition grp_find_by_gid :: "gid_t \<Rightarrow> usr_db \<Rightarrow> nat option" where
  "grp_find_by_gid gid d = find_index (\<lambda>g. g_gid g = gid) (g_groups d)"

definition grp_find_by_name :: "string \<Rightarrow> usr_db \<Rightarrow> nat option" where
  "grp_find_by_name name d = find_index (\<lambda>g. g_name g = name) (g_groups d)"

definition grp_add :: "gid_t \<Rightarrow> string \<Rightarrow> usr_db \<Rightarrow> int \<times> usr_db" where
  "grp_add gid name d =
     (if length (g_groups d) \<ge> USR_MAX_GROUPS then (-1, d)
      else if grp_find_by_gid gid d \<noteq> None \<or> grp_find_by_name name d \<noteq> None then (-1, d)
      else (0, d\<lparr>g_groups := g_groups d @
             [\<lparr>g_gid = gid, g_name = u_strncpy name USR_NAME_LEN, member_mask = 0\<rparr>]\<rparr>))"

definition usr_find_by_uid :: "uid_t \<Rightarrow> usr_db \<Rightarrow> nat option" where
  "usr_find_by_uid uid d = find_index (\<lambda>u. u_uid u = uid) (g_users d)"

definition usr_find_by_name :: "string \<Rightarrow> usr_db \<Rightarrow> nat option" where
  "usr_find_by_name name d = find_index (\<lambda>u. u_name u = name) (g_users d)"

definition mask_bit :: "u16 \<Rightarrow> u32" where "mask_bit n = push_bit (unat n) 1"

text \<open>Setting the bit of a user in the mask of a group, if there is such a group.\<close>

definition join_mask :: "uid_t \<Rightarrow> gid_t \<Rightarrow> usr_db \<Rightarrow> usr_db" where
  "join_mask uid gid d =
     (case grp_find_by_gid gid d of None \<Rightarrow> d
      | Some i \<Rightarrow> d\<lparr>g_groups := (g_groups d)[i := (g_groups d ! i)
          \<lparr>member_mask := member_mask (g_groups d ! i) OR mask_bit uid\<rparr>]\<rparr>)"

definition leave_mask :: "uid_t \<Rightarrow> gid_t \<Rightarrow> usr_db \<Rightarrow> usr_db" where
  "leave_mask uid gid d =
     (case grp_find_by_gid gid d of None \<Rightarrow> d
      | Some i \<Rightarrow> d\<lparr>g_groups := (g_groups d)[i := (g_groups d ! i)
          \<lparr>member_mask := member_mask (g_groups d ! i) AND NOT (mask_bit uid)\<rparr>]\<rparr>)"

definition usr_add ::
    "uid_t \<Rightarrow> gid_t \<Rightarrow> string \<Rightarrow> string option \<Rightarrow> u32 \<Rightarrow> string option \<Rightarrow> string option \<Rightarrow> usr_db \<Rightarrow> int \<times> usr_db" where
  "usr_add uid gid name password flags home shell d =
     (if length (g_users d) \<ge> USR_MAX_USERS then (-1, d)
      else if usr_find_by_uid uid d \<noteq> None \<or> usr_find_by_name name d \<noteq> None then (-1, d)
      else if name = [] then (-1, d)
      else (case draw_salt d of (salt, d) \<Rightarrow>
        let groups = (if unat gid < USR_MAX_GROUPS then mask_bit gid else 0);
            groups = (if (flags AND USR_FLAG_WHEEL) \<noteq> 0 then groups OR mask_bit GID_WHEEL else groups);
            u = \<lparr>u_uid = uid, u_gid = gid, u_flags = flags,
                 pw_hash = pw_hash_salted password salt, pw_salt = salt,
                 u_name = u_strncpy name USR_NAME_LEN,
                 u_home = u_strncpy (case home of None \<Rightarrow> ''/'' | Some h \<Rightarrow> h) USR_HOME_LEN,
                 u_shell = u_strncpy (case shell of None \<Rightarrow> ''/bin/asdsh'' | Some s \<Rightarrow> s) USR_SHELL_LEN,
                 u_groups = groups\<rparr>;
            d = d\<lparr>g_users := g_users d @ [u]\<rparr> in
        if uid < 32 then
          let d = join_mask uid gid d in
          (0, if (flags AND USR_FLAG_WHEEL) \<noteq> 0 then join_mask uid GID_WHEEL d else d)
        else (0, d)))"

definition user_update :: "nat \<Rightarrow> (asd_user \<Rightarrow> asd_user) \<Rightarrow> usr_db \<Rightarrow> usr_db" where
  "user_update i f d = d\<lparr>g_users := (g_users d)[i := f (g_users d ! i)]\<rparr>"

definition usr_add_to_group :: "uid_t \<Rightarrow> gid_t \<Rightarrow> usr_db \<Rightarrow> int \<times> usr_db" where
  "usr_add_to_group uid gid d =
     (case usr_find_by_uid uid d of None \<Rightarrow> (-1, d)
      | Some i \<Rightarrow>
          let d = (if unat gid < USR_MAX_GROUPS
                   then user_update i (\<lambda>u. u\<lparr>u_groups := u_groups u OR mask_bit gid\<rparr>) d else d) in
          (0, if uid < 32 then join_mask uid gid d else d))"

definition usr_remove_from_group :: "uid_t \<Rightarrow> gid_t \<Rightarrow> usr_db \<Rightarrow> int \<times> usr_db" where
  "usr_remove_from_group uid gid d =
     (case usr_find_by_uid uid d of None \<Rightarrow> (-1, d)
      | Some i \<Rightarrow>
          let d = (if unat gid < USR_MAX_GROUPS
                   then user_update i (\<lambda>u. u\<lparr>u_groups := u_groups u AND NOT (mask_bit gid)\<rparr>) d else d) in
          (0, if uid < 32 then leave_mask uid gid d else d))"

definition usr_is_wheel :: "uid_t \<Rightarrow> usr_db \<Rightarrow> int" where
  "usr_is_wheel uid d =
     (if uid = UID_ROOT then 1
      else case usr_find_by_uid uid d of None \<Rightarrow> 0
        | Some i \<Rightarrow> if (u_flags (g_users d ! i) AND USR_FLAG_WHEEL) \<noteq> 0 then 1 else 0)"

definition usr_check_password :: "uid_t \<Rightarrow> string option \<Rightarrow> usr_db \<Rightarrow> int" where
  "usr_check_password uid password d =
     (case usr_find_by_uid uid d of None \<Rightarrow> 0
      | Some i \<Rightarrow>
          let u = g_users d ! i in
          if (u_flags u AND USR_FLAG_LOCKED) \<noteq> 0 then 0
          else if (u_flags u AND USR_FLAG_NOLOGIN) \<noteq> 0 then 0
          else if pw_hash u = 0 then (if password = None \<or> password = Some [] then 1 else 0)
          else if pw_hash u = pw_hash_salted password (pw_salt u) then 1 else 0)"

definition usr_set_password :: "uid_t \<Rightarrow> string option \<Rightarrow> usr_db \<Rightarrow> int \<times> usr_db" where
  "usr_set_password uid password d =
     (case usr_find_by_uid uid d of None \<Rightarrow> (-1, d)
      | Some i \<Rightarrow> (case draw_salt d of (salt, d) \<Rightarrow>
          (0, user_update i (\<lambda>u. u\<lparr>pw_salt := salt, pw_hash := pw_hash_salted password salt\<rparr>) d)))"

definition usr_get :: "u32 \<Rightarrow> usr_db \<Rightarrow> asd_user option" where
  "usr_get index d = (if unat index \<ge> length (g_users d) then None else Some (g_users d ! unat index))"

definition grp_get :: "u32 \<Rightarrow> usr_db \<Rightarrow> asd_group option" where
  "grp_get index d = (if unat index \<ge> length (g_groups d) then None else Some (g_groups d ! unat index))"

section \<open>Permission check\<close>

definition need_bits :: "int \<Rightarrow> u16 \<Rightarrow> u16 \<Rightarrow> u16 \<Rightarrow> u16" where
  "need_bits access r w x =
     (let need = (if (access AND 1) \<noteq> 0 then r else 0);
          need = (if (access AND 2) \<noteq> 0 then need OR w else need) in
      if (access AND 4) \<noteq> 0 then need OR x else need)"

definition usr_check_perm ::
    "uid_t \<Rightarrow> gid_t \<Rightarrow> u32 \<Rightarrow> uid_t \<Rightarrow> gid_t \<Rightarrow> u16 \<Rightarrow> int \<Rightarrow> int" where
  "usr_check_perm uid gid groups file_uid file_gid file_mode access =
     (if uid = UID_ROOT then 0
      else
        let need = (if uid = file_uid then need_bits access 0x100 0x080 0x040
                    else if gid = file_gid \<or>
                      (unat file_gid < USR_MAX_GROUPS \<and> (groups AND mask_bit file_gid) \<noteq> 0)
                    then need_bits access 0x020 0x010 0x008
                    else need_bits access 0x004 0x002 0x001) in
        if (file_mode AND need) = need then 0 else -1)"

section \<open>Reading the files\<close>

definition skip_ws :: "string \<Rightarrow> string" where
  "skip_ws p = dropWhile (\<lambda>c. u_isspace c \<and> c \<noteq> CHR 0x0A) p"

text \<open>The token that fits a buffer of the given size; an over-long token is cut and its rest
  stays in the input.\<close>

definition read_tok :: "nat \<Rightarrow> string \<Rightarrow> string \<times> string" where
  "read_tok sz p =
     (let p = skip_ws p; tok = take (sz - 1) (takeWhile (\<lambda>c. \<not> u_isspace c) p) in
      (tok, drop (length tok) p))"

definition next_line :: "string \<Rightarrow> string" where
  "next_line p = drop 1 (dropWhile (\<lambda>c. c \<noteq> CHR 0x0A) p)"

definition hex_digit :: "char \<Rightarrow> u64 option" where
  "hex_digit c =
     (if CHR ''0'' \<le> c \<and> c \<le> CHR ''9'' then Some (of_char c - 48)
      else if CHR ''a'' \<le> c \<and> c \<le> CHR ''f'' then Some (of_char c - 97 + 10)
      else if CHR ''A'' \<le> c \<and> c \<le> CHR ''F'' then Some (of_char c - 65 + 10)
      else None)"

definition is_hex64 :: "string \<Rightarrow> bool" where
  "is_hex64 s \<longleftrightarrow> length s \<ge> 16 \<and> list_all (\<lambda>c. hex_digit c \<noteq> None) (take 16 s)"

fun hex_loop :: "string \<Rightarrow> u64 \<Rightarrow> u64" where
  "hex_loop [] v = v"
| "hex_loop (c # s) v =
     (case hex_digit c of None \<Rightarrow> v | Some nib \<Rightarrow> hex_loop s (push_bit 4 v OR nib))"

definition parse_hex64 :: "string \<Rightarrow> u64" where "parse_hex64 s = hex_loop (take 16 s) 0"

definition flags_of :: "string \<Rightarrow> u32" where
  "flags_of s =
     (if s = ''wheel'' then USR_FLAG_WHEEL else if s = ''nologin'' then USR_FLAG_NOLOGIN
      else if s = ''locked'' then USR_FLAG_LOCKED else 0)"

definition set_hash :: "string \<Rightarrow> string \<Rightarrow> asd_user \<Rightarrow> asd_user" where
  "set_hash salt_s hash_s u =
     (let u = (if is_hex64 salt_s then u\<lparr>pw_salt := parse_hex64 salt_s\<rparr> else u) in
      if is_hex64 hash_s then u\<lparr>pw_hash := parse_hex64 hash_s\<rparr> else u)"

definition field_opt :: "string \<Rightarrow> string option" where
  "field_opt s = (if s = [] then None else Some s)"

definition ensure_group :: "gid_t \<Rightarrow> usr_db \<Rightarrow> usr_db" where
  "ensure_group gid d = (if grp_find_by_gid gid d = None then snd (grp_add gid ''unknown'' d) else d)"

text \<open>What one complete line does to the database.\<close>

definition apply_passwd ::
    "string \<Rightarrow> string \<Rightarrow> string \<Rightarrow> string \<Rightarrow> string \<Rightarrow> string \<Rightarrow> string \<Rightarrow> string \<Rightarrow> usr_db \<Rightarrow> usr_db" where
  "apply_passwd name uid_s gid_s flags_s home shell salt_s hash_s d =
     (let uid = ucast (u_atou uid_s); gid = ucast (u_atou gid_s); flags = flags_of flags_s;
          d = ensure_group gid d;
          d = (if usr_find_by_uid uid d = None \<and> usr_find_by_name name d = None
               then snd (usr_add uid gid name (Some []) flags (field_opt home) (field_opt shell) d)
               else d) in
      case usr_find_by_uid uid d of None \<Rightarrow> d
      | Some i \<Rightarrow> user_update i (set_hash salt_s hash_s) d)"

definition passwd_line :: "string \<Rightarrow> usr_db \<Rightarrow> nat \<times> string \<times> usr_db" where
  "passwd_line p d =
     (let (name, p) = read_tok USR_NAME_LEN p;
          (uid_s, p) = read_tok 16 p;
          (gid_s, p) = read_tok 16 p;
          (flags_s, p) = read_tok 32 p;
          (home, p) = read_tok USR_HOME_LEN p;
          (shell, p) = read_tok USR_SHELL_LEN p;
          (salt_s, p) = read_tok 20 p;
          (hash_s, p) = read_tok 20 p in
      if name = [] \<or> uid_s = [] \<or> gid_s = [] then (0, next_line p, d)
      else (1, next_line p, apply_passwd name uid_s gid_s flags_s home shell salt_s hash_s d))"

lemma length_skip_ws: "length (skip_ws p) \<le> length p"
  by (simp add: skip_ws_def length_dropWhile_le)

lemma length_read_tok: "length (snd (read_tok n p)) \<le> length p"
  using length_skip_ws [of p] by (simp add: read_tok_def Let_def)

lemma length_next_line: "length (next_line p) \<le> length p"
  using length_dropWhile_le [of "\<lambda>c. c \<noteq> CHR 0x0A" p] by (simp add: next_line_def)

lemma length_next_line_less: "p \<noteq> [] \<Longrightarrow> length (next_line p) < length p"
proof -
  assume "p \<noteq> []"
  then have "0 < length p" by simp
  moreover have "length (dropWhile (\<lambda>c. c \<noteq> CHR 0x0A) p) \<le> length p" by (rule length_dropWhile_le)
  ultimately show ?thesis unfolding next_line_def length_drop by linarith
qed

lemma read_tok_less:
  assumes "skip_ws p \<noteq> []" "hd (skip_ws p) \<noteq> CHR 0x0A" "1 < n"
  shows "length (snd (read_tok n p)) < length p"
proof -
  obtain c q where q: "skip_ws p = c # q" using assms(1) by (cases "skip_ws p") auto
  have "\<not> (u_isspace c \<and> c \<noteq> CHR 0x0A)"
    using q unfolding skip_ws_def dropWhile_eq_Cons_conv by blast
  then have "\<not> u_isspace c" using assms(2) q by auto
  then have "0 < length (fst (read_tok n p))" using assms(3) by (simp add: read_tok_def Let_def q)
  moreover have "length (snd (read_tok n p)) = length (skip_ws p) - length (fst (read_tok n p))"
    by (simp add: read_tok_def Let_def)
  moreover have "0 < length (skip_ws p)" using assms(1) by simp
  ultimately show ?thesis using length_skip_ws [of p] by linarith
qed

definition group_line :: "string \<Rightarrow> usr_db \<Rightarrow> nat \<times> string \<times> usr_db" where
  "group_line p d =
     (let (name, p) = read_tok USR_NAME_LEN p;
          (gid_s, p) = read_tok 16 p;
          p = next_line p in
      if name = [] \<or> gid_s = [] then (0, p, d)
      else
        let gid = ucast (u_atou gid_s) in
        (1, p, if grp_find_by_gid gid d = None then snd (grp_add gid name d) else d))"

lemma skip_next_less: "skip_ws p \<noteq> [] \<Longrightarrow> length (next_line (skip_ws p)) < length p"
  using length_next_line_less [of "skip_ws p"] length_skip_ws [of p] by simp

lemma skip_ws_idem [simp]: "skip_ws (skip_ws p) = skip_ws p"
  by (simp add: skip_ws_def)

lemma name_tok_less:
  assumes "skip_ws p \<noteq> []" "hd (skip_ws p) \<noteq> CHR 0x0A" "length q \<le> length (snd (read_tok USR_NAME_LEN (skip_ws p)))"
  shows "length (next_line q) < length p"
proof -
  have "length (snd (read_tok USR_NAME_LEN (skip_ws p))) < length (skip_ws p)"
    using assms(1,2) by (intro read_tok_less) (simp_all add: USR_NAME_LEN_def)
  then show ?thesis using assms(3) length_next_line [of q] length_skip_ws [of p] by linarith
qed

lemma read_tok_le: "length (snd (read_tok n p)) \<le> m" if "length p \<le> m"
  using that length_read_tok [of n p] by linarith

lemma passwd_line_less:
  assumes "skip_ws p \<noteq> []" "hd (skip_ws p) \<noteq> CHR 0x0A" "passwd_line (skip_ws p) d = (n, q, d')"
  shows "length q < length p"
proof -
  have "\<exists>r. q = next_line r \<and> length r \<le> length (snd (read_tok USR_NAME_LEN (skip_ws p)))"
    using assms(3) unfolding passwd_line_def
    by (intro exI [of _ "snd (read_tok 20 (snd (read_tok 20 (snd (read_tok USR_SHELL_LEN
      (snd (read_tok USR_HOME_LEN (snd (read_tok 32 (snd (read_tok 16 (snd (read_tok 16
      (snd (read_tok USR_NAME_LEN (skip_ws p))))))))))))))))"] conjI read_tok_le order_refl)
      (auto simp: Let_def case_prod_beta split: if_splits)
  then show ?thesis using name_tok_less [OF assms(1,2)] by blast
qed

lemma group_line_less:
  assumes "skip_ws p \<noteq> []" "hd (skip_ws p) \<noteq> CHR 0x0A" "group_line (skip_ws p) d = (n, q, d')"
  shows "length q < length p"
proof -
  have "\<exists>r. q = next_line r \<and> length r \<le> length (snd (read_tok USR_NAME_LEN (skip_ws p)))"
    using assms(3) unfolding group_line_def
    by (intro exI [of _ "snd (read_tok 16 (snd (read_tok USR_NAME_LEN (skip_ws p))))"]
        conjI read_tok_le order_refl)
      (auto simp: Let_def case_prod_beta split: if_splits)
  then show ?thesis using name_tok_less [OF assms(1,2)] by blast
qed

text \<open>The loops of \<open>usr_load_passwd\<close> and \<open>usr_load_group\<close> on the text from \<open>p\<close> on; \<open>left\<close> is the number
  of characters of the buffer beyond the length argument.\<close>

function passwd_loop :: "nat \<Rightarrow> string \<Rightarrow> nat \<Rightarrow> usr_db \<Rightarrow> nat \<times> usr_db" where
  "passwd_loop left p loaded d =
     (if length p \<le> left \<or> p = [] \<or> loaded \<ge> USR_MAX_USERS then (loaded, d)
      else if skip_ws p = [] then (loaded, d)
      else if hd (skip_ws p) = CHR ''#'' \<or> hd (skip_ws p) = CHR 0x0A
      then passwd_loop left (next_line (skip_ws p)) loaded d
      else (case passwd_line (skip_ws p) d of (n, p', d') \<Rightarrow> passwd_loop left p' (loaded + n) d'))"
  by pat_completeness auto
termination
  by (relation "measure (\<lambda>(l, p, n, d). length p)")
    (auto simp: skip_next_less intro: passwd_line_less [OF _ _ sym])

definition usr_load_passwd :: "string \<Rightarrow> nat \<Rightarrow> usr_db \<Rightarrow> int \<times> usr_db" where
  "usr_load_passwd buf len d =
     (if len = 0 then (-1, d)
      else case passwd_loop (length buf - len) buf 0 d of (n, d') \<Rightarrow> (int n, d'))"

function group_loop :: "nat \<Rightarrow> string \<Rightarrow> nat \<Rightarrow> usr_db \<Rightarrow> nat \<times> usr_db" where
  "group_loop left p loaded d =
     (if length p \<le> left \<or> p = [] then (loaded, d)
      else if skip_ws p = [] then (loaded, d)
      else if hd (skip_ws p) = CHR ''#'' \<or> hd (skip_ws p) = CHR 0x0A
      then group_loop left (next_line (skip_ws p)) loaded d
      else (case group_line (skip_ws p) d of (n, p', d') \<Rightarrow> group_loop left p' (loaded + n) d'))"
  by pat_completeness auto
termination
  by (relation "measure (\<lambda>(l, p, n, d). length p)")
    (auto simp: skip_next_less intro: group_line_less [OF _ _ sym])

definition usr_load_group :: "string \<Rightarrow> nat \<Rightarrow> usr_db \<Rightarrow> int \<times> usr_db" where
  "usr_load_group buf len d =
     (if len = 0 then (-1, d)
      else case group_loop (length buf - len) buf 0 d of (n, d') \<Rightarrow> (int n, d'))"

section \<open>Writing the file\<close>

definition hex_chars :: string where "hex_chars = ''0123456789abcdef''"

fun fmt_hex_loop :: "nat \<Rightarrow> u64 \<Rightarrow> string \<Rightarrow> string" where
  "fmt_hex_loop 0 v acc = acc"
| "fmt_hex_loop (Suc n) v acc = fmt_hex_loop n (drop_bit 4 v) ((hex_chars ! unat (v AND 0xF)) # acc)"

definition fmt_hex64 :: "u64 \<Rightarrow> string" where "fmt_hex64 v = fmt_hex_loop 16 v []"

fun fmt_dec_loop :: "nat \<Rightarrow> string \<Rightarrow> string" where
  "fmt_dec_loop v acc =
     (if v = 0 then acc else fmt_dec_loop (v div 10) (char_of (48 + v mod 10) # acc))"

declare fmt_dec_loop.simps [simp del]

definition fmt_dec :: "u16 \<Rightarrow> string" where
  "fmt_dec v = (if v = 0 then ''0'' else fmt_dec_loop (unat v) [])"

definition flag_name :: "u32 \<Rightarrow> string" where
  "flag_name fl =
     (if (fl AND USR_FLAG_WHEEL) \<noteq> 0 then ''wheel''
      else if (fl AND USR_FLAG_NOLOGIN) \<noteq> 0 then ''nologin''
      else if (fl AND USR_FLAG_LOCKED) \<noteq> 0 then ''locked'' else ''-'')"

text \<open>\<open>put sz s\<close> is the guarded copy loop of the writer, on the text written so far; the separator
  after a field is stored without a check.\<close>

definition put :: "nat \<Rightarrow> string \<Rightarrow> string \<Rightarrow> string" where
  "put sz s out = out @ take (sz - 2 - length out) s"

definition put_sep :: "string \<Rightarrow> string" where "put_sep out = out @ '' ''"

definition write_user :: "nat \<Rightarrow> asd_user \<Rightarrow> string \<Rightarrow> string" where
  "write_user sz u out =
     (let out = put_sep (put sz (u_name u) out);
          out = put_sep (put sz (fmt_dec (u_uid u)) out);
          out = put_sep (put sz (fmt_dec (u_gid u)) out);
          out = put_sep (put sz (flag_name (u_flags u)) out);
          out = put_sep (put sz (u_home u) out);
          out = put_sep (put sz (u_shell u) out);
          out = put_sep (put sz (fmt_hex64 (pw_salt u)) out);
          out = put sz (fmt_hex64 (pw_hash u)) out in
      if length out < sz - 1 then out @ [CHR 0x0A] else out)"

text \<open>The result is the returned count and the characters stored from the start of the buffer,
  without the final NUL, which goes to the position of the count.\<close>

definition usr_write_passwd :: "nat \<Rightarrow> usr_db \<Rightarrow> int \<times> string" where
  "usr_write_passwd sz d =
     (if sz < 8 then (-1, [])
      else
        let out = fold (write_user sz) (g_users d) (take (sz - 1) (''#ASDPW1'' @ [CHR 0x0A])) in
        (int (length out), out))"

definition usr_init :: "usr_db \<Rightarrow> usr_db" where
  "usr_init d =
     (let d = d\<lparr>g_users := [], g_groups := []\<rparr>;
          d = snd (grp_add GID_ROOT ''root'' d);
          d = snd (grp_add GID_WHEEL ''wheel'' d);
          d = snd (grp_add GID_USERS ''users'' d);
          d = snd (usr_add UID_ROOT GID_ROOT ''root'' (Some []) 0 (Some ''/root'') (Some ''/bin/asdsh'') d) in
      case usr_find_by_uid UID_ROOT d of None \<Rightarrow> d
      | Some i \<Rightarrow> user_update i (\<lambda>u. u\<lparr>pw_hash := 0, pw_salt := 0\<rparr>) d)"

declare passwd_loop.simps [simp del] group_loop.simps [simp del]

section \<open>Numbers\<close>

lemma hex_digit_chars: "k < 16 \<Longrightarrow> hex_digit (hex_chars ! k) = Some (of_nat k)"
proof -
  assume "k < 16"
  then have "k = 0 \<or> k = 1 \<or> k = 2 \<or> k = 3 \<or> k = 4 \<or> k = 5 \<or> k = 6 \<or> k = 7 \<or> k = 8 \<or> k = 9 \<or>
    k = 10 \<or> k = 11 \<or> k = 12 \<or> k = 13 \<or> k = 14 \<or> k = 15" by arith
  then show ?thesis
    by (elim disjE) (simp_all add: hex_chars_def hex_digit_def less_eq_char_def)
qed

lemma nibble_lt: "unat (v AND 0xF :: u64) < 16"
proof -
  have "v AND 0xF = take_bit 4 v" by (simp add: take_bit_eq_mask mask_eq_exp_minus_1)
  then show ?thesis using take_bit_nat_less_exp [of 4 "unat v"] by (simp add: unsigned_take_bit_eq)
qed

lemma shift_in_nibble:
  "push_bit 4 (push_bit (4 * n) w OR take_bit (4 * n) (drop_bit 4 v)) OR (v AND 0xF) =
   push_bit (4 * Suc n) w OR take_bit (4 * Suc n) (v :: u64)"
proof -
  have m: "v AND 0xF = take_bit 4 v" by (simp add: take_bit_eq_mask mask_eq_exp_minus_1)
  show ?thesis unfolding m
    by (rule bit_word_eqI) (auto simp: bit_simps algebra_simps)
qed

lemma hex_loop_fmt:
  "hex_loop (fmt_hex_loop n v acc) w = hex_loop acc (push_bit (4 * n) w OR take_bit (4 * n) v)"
proof (induction n arbitrary: v acc)
  case (Suc n)
  have "hex_loop (fmt_hex_loop (Suc n) v acc) w =
      hex_loop acc (push_bit 4 (push_bit (4 * n) w OR take_bit (4 * n) (drop_bit 4 v)) OR (v AND 0xF))"
    using nibble_lt [of v] by (simp add: Suc.IH hex_digit_chars)
  then show ?case by (simp only: shift_in_nibble)
qed simp

lemma length_fmt_hex_loop: "length (fmt_hex_loop n v acc) = n + length acc"
  by (induction n arbitrary: v acc) simp_all

lemma set_fmt_hex_loop: "set (fmt_hex_loop n v acc) \<subseteq> set hex_chars \<union> set acc"
proof (induction n arbitrary: v acc)
  case (Suc n)
  have "hex_chars ! unat (v AND 0xF) \<in> set hex_chars"
    using nibble_lt [of v] by (intro nth_mem) (simp add: hex_chars_def)
  then show ?case using Suc [of "drop_bit 4 v" "(hex_chars ! unat (v AND 0xF)) # acc"] by auto
qed simp

lemma length_hex_chars: "length hex_chars = 16"
  by (simp add: hex_chars_def)

lemma parse_fmt_hex: "parse_hex64 (fmt_hex64 v) = v"
proof -
  have "take_bit 64 v = v" by (rule bit_word_eqI) (simp add: bit_simps)
  then show ?thesis by (simp add: parse_hex64_def fmt_hex64_def length_fmt_hex_loop hex_loop_fmt)
qed

lemma is_hex64_fmt: "is_hex64 (fmt_hex64 v)"
proof -
  have "hex_digit c \<noteq> None" if "c \<in> set (fmt_hex64 v)" for c
  proof -
    have "c \<in> set hex_chars" using that set_fmt_hex_loop [of 16 v "[]"] by (auto simp: fmt_hex64_def)
    then obtain k where "k < 16" "c = hex_chars ! k" unfolding in_set_conv_nth length_hex_chars by metis
    then show ?thesis by (simp add: hex_digit_chars)
  qed
  then show ?thesis
    by (simp add: is_hex64_def list_all_iff fmt_hex64_def length_fmt_hex_loop)
qed

lemma atou_fmt_loop: "atou_loop (fmt_dec_loop v acc) 0 = atou_loop acc (of_nat v)"
proof (induction v acc rule: fmt_dec_loop.induct)
  case (1 v acc)
  have d: "48 + v mod 10 < 256" by simp
  have oc: "of_char (char_of (48 + v mod 10) :: char) = (48 + v mod 10 :: nat)"
    using d by simp
  have c: "u_isdigit (char_of (48 + v mod 10))"
    using d by (simp add: u_isdigit_def less_eq_char_def)
  have w: "(of_char (char_of (48 + v mod 10) :: char) :: u32) = 48 + of_nat (v mod 10)"
    using arg_cong [OF oc, of "of_nat :: nat \<Rightarrow> u32"] by (simp only: of_nat_of_char of_nat_add of_nat_numeral)
  show ?case
  proof (cases "v = 0")
    case False
    have "(of_nat (v div 10) * 10 + of_nat (v mod 10) :: u32) = of_nat v"
      by (metis of_nat_add of_nat_mult of_nat_numeral div_mult_mod_eq)
    with False show ?thesis using 1 c w by (subst fmt_dec_loop.simps) simp
  qed (simp add: fmt_dec_loop.simps)
qed

lemma u_atou_fmt: "ucast (u_atou (fmt_dec v)) = v"
proof -
  have "u_atou (fmt_dec v) = ucast v"
  proof (cases "v = 0")
    case True
    then show ?thesis by (simp add: u_atou_def fmt_dec_def u_isdigit_def less_eq_char_def)
  next
    case False
    then show ?thesis by (simp add: u_atou_def fmt_dec_def atou_fmt_loop)
  qed
  moreover have "ucast (ucast v :: u32) = v" by (rule bit_word_eqI) (auto simp: bit_simps)
  ultimately show ?thesis by simp
qed

section \<open>Tokens\<close>

definition ok_tok :: "nat \<Rightarrow> string \<Rightarrow> bool" where
  "ok_tok n s \<longleftrightarrow> s \<noteq> [] \<and> length s < n \<and> (\<forall>c \<in> set s. \<not> u_isspace c)"

lemma skip_ws_tok:
  "ok_tok n s \<Longrightarrow> skip_ws (s @ r) = s @ r" "ok_tok n s \<Longrightarrow> skip_ws (CHR '' '' # s @ r) = s @ r"
  by (cases s; simp add: ok_tok_def skip_ws_def u_isspace_def)+

lemma takeWhile_tok: "ok_tok n s \<Longrightarrow> u_isspace c \<Longrightarrow> takeWhile (\<lambda>c. \<not> u_isspace c) (s @ c # r) = s"
  by (simp add: ok_tok_def)

lemma read_tok_tok:
  assumes "ok_tok n s" "u_isspace c"
  shows "read_tok n (s @ c # r) = (s, c # r)" "read_tok n (CHR '' '' # s @ c # r) = (s, c # r)"
proof -
  have "take (n - 1) s = s" using assms(1) by (intro take_all) (auto simp: ok_tok_def)
  then show "read_tok n (s @ c # r) = (s, c # r)" "read_tok n (CHR '' '' # s @ c # r) = (s, c # r)"
    using assms(1) by (simp_all add: read_tok_def skip_ws_tok takeWhile_tok [OF assms] Let_def)
qed

lemma ok_tok_hex: "ok_tok 20 (fmt_hex64 v)"
proof -
  have "\<not> u_isspace c" if "c \<in> set hex_chars" for c
    using that by (auto simp: hex_chars_def u_isspace_def)
  then have "\<not> u_isspace c" if "c \<in> set (fmt_hex64 v)" for c
    using that set_fmt_hex_loop [of 16 v "[]"] unfolding fmt_hex64_def by auto
  moreover have "length (fmt_hex64 v) = 16" by (simp add: fmt_hex64_def length_fmt_hex_loop)
  ultimately show ?thesis unfolding ok_tok_def by force
qed

lemma digit_not_space: "\<not> u_isspace (char_of (48 + v mod 10 :: nat))"
proof -
  have "48 + v mod 10 < 256" by simp
  then have "of_char (char_of (48 + v mod 10) :: char) = (48 + v mod 10 :: nat)" by simp
  moreover have "of_char CHR '' '' = (32 :: nat)" "of_char CHR 0x09 = (9 :: nat)"
    "of_char CHR 0x0A = (10 :: nat)" "of_char CHR 0x0D = (13 :: nat)" by simp_all
  ultimately show ?thesis unfolding u_isspace_def by fastforce
qed

lemma fmt_dec_loop_tok:
  "(\<forall>c \<in> set acc. \<not> u_isspace c) \<Longrightarrow> \<forall>c \<in> set (fmt_dec_loop v acc). \<not> u_isspace c"
proof (induction v acc rule: fmt_dec_loop.induct)
  case (1 v acc)
  then show ?case using digit_not_space [of v] by (subst fmt_dec_loop.simps) simp
qed

lemma length_fmt_dec_loop: "v < 10 ^ n \<Longrightarrow> length (fmt_dec_loop v acc) \<le> n + length acc"
proof (induction n arbitrary: v acc)
  case (Suc n)
  have "v div 10 < 10 ^ n" using Suc.prems by simp
  from Suc.IH [OF this, of "char_of (48 + v mod 10) # acc"] show ?case
    by (subst fmt_dec_loop.simps) simp
qed (simp add: fmt_dec_loop.simps)

lemma fmt_dec_loop_ne: "v \<noteq> 0 \<or> acc \<noteq> [] \<Longrightarrow> fmt_dec_loop v acc \<noteq> []"
proof (induction v acc rule: fmt_dec_loop.induct)
  case (1 v acc)
  then show ?case by (subst fmt_dec_loop.simps) auto
qed

lemma ok_tok_dec: "ok_tok 16 (fmt_dec v)"
proof (cases "v = 0")
  case True
  then show ?thesis by (simp add: ok_tok_def fmt_dec_def u_isspace_def)
next
  case False
  have "unat v < 2 ^ LENGTH(16)" by (rule unsigned_less)
  then have "unat v < 10 ^ 5" by simp
  from length_fmt_dec_loop [OF this, of "[]"] fmt_dec_loop_tok [of "[]" "unat v"] False
    fmt_dec_loop_ne [of "unat v" "[]"]
  show ?thesis by (simp add: ok_tok_def fmt_dec_def unat_eq_0)
qed

lemma ok_tok_flag: "ok_tok 32 (flag_name f)"
  by (simp add: flag_name_def ok_tok_def u_isspace_def)

definition user_line :: "asd_user \<Rightarrow> string" where
  "user_line u = u_name u @ '' '' @ fmt_dec (u_uid u) @ '' '' @ fmt_dec (u_gid u) @ '' '' @
     flag_name (u_flags u) @ '' '' @ u_home u @ '' '' @ u_shell u @ '' '' @
     fmt_hex64 (pw_salt u) @ '' '' @ fmt_hex64 (pw_hash u) @ [CHR 0x0A]"

text \<open>The accounts the file format can represent.\<close>

definition user_ok :: "asd_user \<Rightarrow> bool" where
  "user_ok u \<longleftrightarrow> ok_tok USR_NAME_LEN (u_name u) \<and> hd (u_name u) \<noteq> CHR ''#'' \<and>
     ok_tok USR_HOME_LEN (u_home u) \<and> ok_tok USR_SHELL_LEN (u_shell u)"

lemma next_line_nl: "next_line (CHR 0x0A # r) = r"
  by (simp add: next_line_def)

lemma passwd_line_user:
  assumes "user_ok u"
  shows "passwd_line (user_line u @ r) d = (1, r, apply_passwd (u_name u) (fmt_dec (u_uid u))
    (fmt_dec (u_gid u)) (flag_name (u_flags u)) (u_home u) (u_shell u)
    (fmt_hex64 (pw_salt u)) (fmt_hex64 (pw_hash u)) d)"
proof -
  have sp: "u_isspace CHR '' ''" "u_isspace CHR 0x0A" by (simp_all add: u_isspace_def)
  note t = assms [unfolded user_ok_def] ok_tok_dec ok_tok_flag ok_tok_hex
  have ne: "u_name u \<noteq> []" "fmt_dec (u_uid u) \<noteq> []" "fmt_dec (u_gid u) \<noteq> []"
    using t ok_tok_dec by (auto simp: ok_tok_def)
  show ?thesis using t ne
    by (simp add: passwd_line_def user_line_def read_tok_tok sp next_line_nl)
qed

section \<open>Loading what was written\<close>

text \<open>
  What the file keeps of an account: all but its groups and, of its flags, only the first of
  wheel, nologin and locked. Of the groups it gets back the primary one and that of its flag.
\<close>

definition kept_flag :: "u32 \<Rightarrow> u32" where
  "kept_flag fl =
     (if (fl AND USR_FLAG_WHEEL) \<noteq> 0 then USR_FLAG_WHEEL
      else if (fl AND USR_FLAG_NOLOGIN) \<noteq> 0 then USR_FLAG_NOLOGIN
      else if (fl AND USR_FLAG_LOCKED) \<noteq> 0 then USR_FLAG_LOCKED else 0)"

definition stored :: "asd_user \<Rightarrow> asd_user" where
  "stored u = u\<lparr>u_flags := kept_flag (u_flags u),
     u_groups := (if unat (u_gid u) < USR_MAX_GROUPS then mask_bit (u_gid u) else 0) OR
       (if (u_flags u AND USR_FLAG_WHEEL) \<noteq> 0 then mask_bit GID_WHEEL else 0)\<rparr>"

definition with_creds :: "asd_user \<Rightarrow> asd_user \<Rightarrow> asd_user" where
  "with_creds y w = y\<lparr>pw_salt := pw_salt w, pw_hash := pw_hash w\<rparr>"

text \<open>The accounts after loading the lines of \<open>us\<close> when \<open>ys\<close> were there before.\<close>

definition load_into :: "asd_user list \<Rightarrow> asd_user list \<Rightarrow> asd_user list" where
  "load_into ys us = map2 with_creds ys us @ map stored (drop (length ys) us)"

lemma flags_of_name: "flags_of (flag_name f) = kept_flag f"
  by (simp add: flag_name_def flags_of_def kept_flag_def)

lemma stored_fields [simp]: "u_uid (stored u) = u_uid u" "u_name (stored u) = u_name u"
  by (simp_all add: stored_def)

lemma with_creds_fields [simp]: "u_uid (with_creds y w) = u_uid y" "u_name (with_creds y w) = u_name y"
  by (simp_all add: with_creds_def)

lemma load_into_map:
  assumes "map f ys = map f (take (length ys) us)" and "\<And>u. f (stored u) = f u" and "\<And>y w. f (with_creds y w) = f y"
  shows "map f (load_into ys us) = map f us"
proof -
  have l: "length ys \<le> length us" using arg_cong [OF assms(1), of length] by simp
  have "map (\<lambda>(y, w). f (with_creds y w)) (zip ys us) = map (f \<circ> fst) (zip ys us)" using assms(3) by auto
  also have "\<dots> = map f ys" using l by (simp add: map_map [symmetric] map_fst_zip_take del: map_map)
  finally have "map f (load_into ys us) = map f (take (length ys) us) @ map f (drop (length ys) us)"
    unfolding assms(1) [symmetric] by (simp add: load_into_def comp_def split_def assms(2))
  then show ?thesis by (simp flip: map_append)
qed

lemma load_into_snoc:
  "length vs < length ys \<Longrightarrow> load_into (take (Suc (length vs)) ys) (vs @ [w]) =
     load_into (take (length vs) ys) vs @ [with_creds (ys ! length vs) w]"
  "length ys \<le> length vs \<Longrightarrow> load_into ys (vs @ [w]) = load_into ys vs @ [stored w]"
  by (simp_all add: load_into_def take_Suc_conv_app_nth zip_append2)

lemma g_users_grp_add [simp]: "g_users (snd (grp_add g n d)) = g_users d"
  by (simp add: grp_add_def)

lemma g_users_ensure [simp]: "g_users (ensure_group g d) = g_users d"
  by (simp add: ensure_group_def)

lemma g_users_join [simp]: "g_users (join_mask u g d) = g_users d"
  by (simp add: join_mask_def split: option.split)

lemma g_users_draw [simp]: "g_users (snd (draw_salt d)) = g_users d"
  by (simp add: draw_salt_def split: prod.split)

lemma usr_add_users:
  assumes "length (g_users d) < USR_MAX_USERS" "usr_find_by_uid uid d = None"
    "usr_find_by_name name d = None" "name \<noteq> []"
  shows "\<exists>u. g_users (snd (usr_add uid gid name pw fl (Some home) (Some shell) d)) = g_users d @ [u] \<and>
    (\<exists>a b. u = \<lparr>u_uid = uid, u_gid = gid, u_flags = fl, pw_hash = a, pw_salt = b, u_name = u_strncpy name USR_NAME_LEN,
      u_home = u_strncpy home USR_HOME_LEN, u_shell = u_strncpy shell USR_SHELL_LEN,
      u_groups = (if unat gid < USR_MAX_GROUPS then mask_bit gid else 0) OR
        (if (fl AND USR_FLAG_WHEEL) \<noteq> 0 then mask_bit GID_WHEEL else 0)\<rparr>)"
proof -
  obtain salt d' where s: "draw_salt d = (salt, d')" by (cases "draw_salt d")
  then have "g_users d' = g_users d" using g_users_draw [of d] by simp
  then show ?thesis using assms by (simp add: usr_add_def Let_def s)
qed

lemma set_hash_fmt: "set_hash (fmt_hex64 a) (fmt_hex64 b) u = u\<lparr>pw_salt := a, pw_hash := b\<rparr>"
  by (simp add: set_hash_def is_hex64_fmt parse_fmt_hex)

lemma find_uid_cong: "g_users d = g_users d' \<Longrightarrow> usr_find_by_uid i d = usr_find_by_uid i d'"
  by (simp add: usr_find_by_uid_def)

lemma find_name_cong: "g_users d = g_users d' \<Longrightarrow> usr_find_by_name i d = usr_find_by_name i d'"
  by (simp add: usr_find_by_name_def)

lemma find_index_mid:
  "(\<And>x. x \<in> set xs \<Longrightarrow> \<not> P x) \<Longrightarrow> P y \<Longrightarrow> find_index P (xs @ y # ys) = Some (length xs)"
  by (rule find_index_first) (auto simp: nth_append)

abbreviation apply_user :: "asd_user \<Rightarrow> usr_db \<Rightarrow> usr_db" where
  "apply_user w \<equiv> apply_passwd (u_name w) (fmt_dec (u_uid w)) (fmt_dec (u_gid w)) (flag_name (u_flags w))
     (u_home w) (u_shell w) (fmt_hex64 (pw_salt w)) (fmt_hex64 (pw_hash w))"

lemma apply_known:
  assumes "g_users d = xs @ y # ys" "u_uid y = u_uid w" "\<forall>x \<in> set xs. u_uid x \<noteq> u_uid w"
  shows "g_users (apply_user w d) = xs @ with_creds y w # ys"
proof -
  let ?d = "ensure_group (u_gid w) d"
  have gu: "g_users ?d = xs @ y # ys" using assms(1) by simp
  then have f: "usr_find_by_uid (u_uid w) ?d = Some (length xs)"
    using find_index_mid [of xs "\<lambda>u. u_uid u = u_uid w" y ys] assms(2,3) by (simp add: usr_find_by_uid_def)
  have "apply_user w d = user_update (length xs) (set_hash (fmt_hex64 (pw_salt w)) (fmt_hex64 (pw_hash w))) ?d"
    unfolding apply_passwd_def Let_def u_atou_fmt using f by simp
  then show ?thesis using gu by (simp add: user_update_def set_hash_fmt with_creds_def)
qed

lemma apply_new:
  assumes "g_users d = xs" "\<forall>x \<in> set xs. u_uid x \<noteq> u_uid w \<and> u_name x \<noteq> u_name w"
    and "user_ok w" "length xs < USR_MAX_USERS"
  shows "g_users (apply_user w d) = xs @ [stored w]"
proof -
  let ?d = "ensure_group (u_gid w) d"
  have t: "u_strncpy s n = s" if "ok_tok n s" for s n
    using that by (auto simp: ok_tok_def u_strncpy_def intro!: take_all)
  have gu: "g_users ?d = xs" using assms(1) by simp
  have n: "usr_find_by_uid (u_uid w) ?d = None" "usr_find_by_name (u_name w) ?d = None"
    using assms(2) gu by (auto simp: usr_find_by_uid_def usr_find_by_name_def find_index_None)
  have ne: "u_name w \<noteq> []" "u_home w \<noteq> []" "u_shell w \<noteq> []"
    using assms(3) by (auto simp: user_ok_def ok_tok_def)
  let ?e = "snd (usr_add (u_uid w) (u_gid w) (u_name w) (Some []) (kept_flag (u_flags w))
              (Some (u_home w)) (Some (u_shell w)) ?d)"
  have wheel: "(kept_flag fl AND USR_FLAG_WHEEL \<noteq> 0) = (fl AND USR_FLAG_WHEEL \<noteq> 0)" for fl
    by (simp add: kept_flag_def USR_FLAG_WHEEL_def USR_FLAG_NOLOGIN_def USR_FLAG_LOCKED_def)
  obtain u a b where u: "g_users ?e = xs @ [u]" "u = (stored w)\<lparr>pw_hash := a, pw_salt := b\<rparr>"
    using usr_add_users [OF _ n ne(1), of "u_gid w" "Some []" "kept_flag (u_flags w)" "u_home w" "u_shell w"]
      assms(3,4) gu t wheel by (cases w) (auto simp: user_ok_def stored_def)
  have f: "usr_find_by_uid (u_uid w) ?e = Some (length xs)"
    using find_index_mid [of xs "\<lambda>v. u_uid v = u_uid w" u "[]"] assms(2) u
    by (simp add: usr_find_by_uid_def)
  have "apply_user w d = user_update (length xs) (set_hash (fmt_hex64 (pw_salt w)) (fmt_hex64 (pw_hash w))) ?e"
    unfolding apply_passwd_def Let_def u_atou_fmt flags_of_name field_opt_def using n f ne u_atou_fmt by simp
  then have "g_users (apply_user w d) = xs @ [u\<lparr>pw_salt := pw_salt w, pw_hash := pw_hash w\<rparr>]"
    using u by (simp add: user_update_def set_hash_fmt)
  moreover have "u\<lparr>pw_salt := pw_salt w, pw_hash := pw_hash w\<rparr> = stored w" unfolding u(2) by (cases w) (simp add: stored_def)
  ultimately show ?thesis by simp
qed

lemma passwd_loop_user:
  assumes "user_ok w" "n < USR_MAX_USERS"
  shows "passwd_loop 0 (user_line w @ r) n d = passwd_loop 0 r (Suc n) (apply_user w d)"
proof -
  have sk: "skip_ws (user_line w @ r) = user_line w @ r"
    using assms(1) skip_ws_tok(1) [of USR_NAME_LEN "u_name w"] by (simp add: user_line_def user_ok_def)
  obtain c q where c: "u_name w = c # q" using assms(1) by (cases "u_name w") (auto simp: user_ok_def ok_tok_def)
  then have h: "hd (user_line w @ r) = c" "user_line w \<noteq> []" by (simp_all add: user_line_def)
  have "c \<noteq> CHR ''#''" "c \<noteq> CHR 0x0A"
    using assms(1) c by (auto simp: user_ok_def ok_tok_def u_isspace_def)
  then show ?thesis using h sk assms(2)
    by (subst passwd_loop.simps) (simp add: passwd_line_user [OF assms(1)])
qed

text \<open>The state of the load after the lines of \<open>vs\<close> into a database that held \<open>ys\<close>.\<close>

definition partial_load :: "asd_user list \<Rightarrow> asd_user list \<Rightarrow> usr_db \<Rightarrow> bool" where
  "partial_load ys vs d \<longleftrightarrow> g_users d = load_into (take (length vs) ys) vs @ drop (length vs) ys"

definition same_keys :: "asd_user list \<Rightarrow> asd_user list \<Rightarrow> bool" where
  "same_keys ys us \<longleftrightarrow> map u_uid ys = map u_uid (take (length ys) us) \<and> map u_name ys = map u_name (take (length ys) us)"

lemma map_prefix:
  "map f ys = map f (take (length ys) (vs @ ws)) \<Longrightarrow>
   map f (take (length vs) ys) = map f (take (length (take (length vs) ys)) vs)"
  by (drule arg_cong [of _ _ "take (length vs)"]) (simp add: take_map min_def split: if_splits)

lemma same_keys_prefix: "same_keys ys (vs @ ws) \<Longrightarrow> same_keys (take (length vs) ys) vs"
  unfolding same_keys_def by (intro conjI map_prefix) auto

lemma partial_load_step:
  assumes pl: "partial_load ys vs d" and ok: "user_ok w" and k: "same_keys ys (vs @ w # ws)"
    and di: "distinct (map u_uid (vs @ w # ws))" "distinct (map u_name (vs @ w # ws))"
    and mx: "length vs < USR_MAX_USERS"
  shows "partial_load ys (vs @ [w]) (apply_user w d)"
proof -
  let ?xs = "load_into (take (length vs) ys) vs"
  have k': "same_keys (take (length vs) ys) vs" by (rule same_keys_prefix [OF k])
  have m: "map u_uid ?xs = map u_uid vs" "map u_name ?xs = map u_name vs"
    using k' by (auto simp: same_keys_def intro!: load_into_map)
  have u: "u_uid x \<noteq> u_uid w \<and> u_name x \<noteq> u_name w" if "x \<in> set ?xs" for x
  proof -
    have "u_uid x \<in> u_uid ` set vs" "u_name x \<in> u_name ` set vs"
      using imageI [OF that, of u_uid] imageI [OF that, of u_name] m by (metis set_map)+
    then show ?thesis using di by auto
  qed
  have lx: "length ?xs = length vs" using arg_cong [OF m(1), of length] by simp
  show ?thesis
  proof (cases "length vs < length ys")
    case True
    let ?y = "ys ! length vs"
    have g: "g_users d = ?xs @ ?y # drop (Suc (length vs)) ys"
      using pl True by (simp add: partial_load_def Cons_nth_drop_Suc)
    have "map u_uid ys ! length vs = map u_uid (take (length ys) (vs @ w # ws)) ! length vs"
      using k by (simp add: same_keys_def)
    moreover have "length vs < length (take (length ys) (vs @ w # ws))" using True by simp
    ultimately have "u_uid ?y = u_uid w" using True by (simp add: nth_append)
    from apply_known [OF g this] u show ?thesis using True by (simp add: partial_load_def load_into_snoc(1))
  next
    case False
    then have "g_users d = ?xs" "take (length vs) ys = ys" "take (Suc (length vs)) ys = ys"
      using pl by (simp_all add: partial_load_def)
    with apply_new [of d ?xs w] u ok mx lx False show ?thesis by (simp add: partial_load_def load_into_snoc(2))
  qed
qed

lemma passwd_loop_users:
  assumes "partial_load ys vs d" "list_all user_ok ws" "same_keys ys (vs @ ws)"
    and "distinct (map u_uid (vs @ ws))" "distinct (map u_name (vs @ ws))"
    and "length (vs @ ws) \<le> USR_MAX_USERS"
  shows "\<exists>d'. passwd_loop 0 (concat (map user_line ws)) (length vs) d = (length (vs @ ws), d') \<and>
    partial_load ys (vs @ ws) d'"
  using assms
proof (induction ws arbitrary: vs d)
  case Nil
  then show ?case by (simp add: passwd_loop.simps)
next
  case (Cons w ws)
  have w: "user_ok w" "length vs < USR_MAX_USERS" using Cons.prems by simp_all
  have "partial_load ys (vs @ [w]) (apply_user w d)"
    using Cons.prems w by (intro partial_load_step) auto
  then show ?case using Cons.IH [of "vs @ [w]"] Cons.prems passwd_loop_user [OF w] by simp
qed

section \<open>Writing\<close>

lemma put_room: "length out + length s + 2 \<le> sz \<Longrightarrow> put sz s out = out @ s"
  by (simp add: put_def)

lemma write_user_room:
  "length out + length (user_line u) + 2 \<le> sz \<Longrightarrow> write_user sz u out = out @ user_line u"
  by (simp add: write_user_def put_room put_sep_def user_line_def Let_def)

lemma write_users_room:
  "length out + length (concat (map user_line us)) + 2 \<le> sz \<Longrightarrow>
   fold (write_user sz) us out = out @ concat (map user_line us)"
  by (induction us arbitrary: out) (simp_all add: write_user_room)

lemma write_passwd_room:
  assumes "10 + length (concat (map user_line (g_users d))) \<le> sz"
  shows "usr_write_passwd sz d = (int (8 + length (concat (map user_line (g_users d)))),
    ''#ASDPW1'' @ [CHR 0x0A] @ concat (map user_line (g_users d)))"
  using assms write_users_room [of "''#ASDPW1'' @ [CHR 0x0A]" "g_users d" sz]
  by (simp add: usr_write_passwd_def Let_def)

lemma passwd_loop_header:
  assumes "r = [] \<or> 0 < USR_MAX_USERS"
  shows "passwd_loop 0 (''#ASDPW1'' @ [CHR 0x0A] @ r) 0 d = passwd_loop 0 r 0 d"
  by (subst passwd_loop.simps) (simp add: skip_ws_def u_isspace_def next_line_def USR_MAX_USERS_def)


definition demo_user :: "uid_t \<Rightarrow> string \<Rightarrow> asd_user" where
  "demo_user uid name = \<lparr>u_uid = uid, u_gid = 0, u_flags = 0, pw_hash = 7, pw_salt = 9,
     u_name = name, u_home = ''/root'', u_shell = ''/bin/asdsh'', u_groups = 1\<rparr>"

definition demo_db :: "asd_user list \<Rightarrow> usr_db" where
  "demo_db us = \<lparr>g_users = us, g_groups = [], rng = \<lparr>g_pool = replicate POOL_WORDS 0, g_pool_idx = 0\<rparr>,
     tsc_at = (\<lambda>n. of_nat n), tsc_reads = 0\<rparr>"

lemma demo_user_ok: "user_ok (demo_user uid ''root'')" "user_ok (demo_user uid ''ann'')"
  by (simp_all add: user_ok_def demo_user_def ok_tok_def USR_NAME_LEN_def USR_HOME_LEN_def
      USR_SHELL_LEN_def u_isspace_def)


lemma put_grows: "n \<le> length out \<Longrightarrow> n \<le> length (put sz s out)"
  by (simp add: put_def)

lemma sep_grows: "n \<le> length out \<Longrightarrow> Suc n \<le> length (put_sep out)"
  by (simp add: put_sep_def)

lemma write_user_grows: "length out + 7 \<le> length (write_user sz u out)"
proof -
  have l: "n \<le> length x \<Longrightarrow> n \<le> length (if b then x @ [c] else x)" for n x b and c :: char by simp
  have "Suc (Suc (Suc (Suc (Suc (Suc (Suc (length out))))))) \<le> length (write_user sz u out)"
    unfolding write_user_def Let_def by (intro l put_grows sep_grows order_refl)
  then show ?thesis by simp
qed

text \<open>
  C38. The writer checks its bound for characters of fields but not for the separators: every
  user costs at least seven characters however small the buffer is, so a database with many
  users overruns its buffer.
\<close>

theorem write_passwd_overrun:
  assumes "8 \<le> sz" and "sz < 7 * length (g_users d)"
  shows "sz < length (snd (usr_write_passwd sz d))"
proof -
  have "length out + 7 * length us \<le> length (fold (write_user sz) us out)" for us out
  proof (induction us arbitrary: out)
    case (Cons u us)
    have "length (write_user sz u out) + 7 * length us \<le> length (fold (write_user sz) (u # us) out)"
      using Cons.IH [of "write_user sz u out"] by simp
    then show ?case using write_user_grows [of out sz u] by simp
  qed simp
  note grow = this
  define h where "h = take (sz - 1) (''#ASDPW1'' @ [CHR 0x0A])"
  have "snd (usr_write_passwd sz d) = fold (write_user sz) (g_users d) h"
    unfolding usr_write_passwd_def Let_def h_def [symmetric] using assms(1) by simp
  then show ?thesis using grow [of h "g_users d"] assms(2) by simp
qed

theorem write_passwd_overrun_witness:
  "8 < length (snd (usr_write_passwd 8 (demo_db [demo_user 0 ''root'', demo_user 1 ''ann''])))"
  by (rule write_passwd_overrun) (simp_all add: demo_db_def)

section \<open>Passwords and permissions\<close>

text \<open>
  C34. Changing a password. After \<open>usr_set_password\<close> succeeds, the account answers to exactly the
  passwords whose salted hash equals that of the new one (only the empty one in the case of a
  hash of zero), provided it is neither locked nor a service account; for every other user id
  the answer to every password is what it was before.
\<close>

theorem set_password_correct:
  assumes "usr_set_password uid pw d = (0, d')"
  shows "\<exists>u salt. u \<in> set (g_users d') \<and> u_uid u = uid \<and> pw_salt u = salt \<and> pw_hash u = pw_hash_salted pw salt \<and>
    (\<forall>q. usr_check_password uid q d' = 1 \<longleftrightarrow>
       (u_flags u AND USR_FLAG_LOCKED) = 0 \<and> (u_flags u AND USR_FLAG_NOLOGIN) = 0 \<and>
       (if pw_hash_salted pw salt = 0 then q \<in> {None, Some []}
        else pw_hash_salted q salt = pw_hash_salted pw salt)) \<and>
    (\<forall>v q. v \<noteq> uid \<longrightarrow> usr_check_password v q d' = usr_check_password v q d)"
proof -
  obtain i where i: "usr_find_by_uid uid d = Some i"
    using assms by (auto simp: usr_set_password_def split: option.splits)
  obtain salt d1 where s: "draw_salt d = (salt, d1)" by (cases "draw_salt d")
  have g: "g_users d1 = g_users d" using g_users_draw [of d] s by simp
  let ?f = "\<lambda>u. u\<lparr>pw_salt := salt, pw_hash := pw_hash_salted pw salt\<rparr>"
  have d': "g_users d' = (g_users d)[i := ?f (g_users d ! i)]"
    using assms i s g by (auto simp: usr_set_password_def user_update_def)
  note f = find_index_Some [OF i [unfolded usr_find_by_uid_def]]
  have i': "usr_find_by_uid uid d' = Some i"
    unfolding usr_find_by_uid_def d' using f
    by (intro find_index_first) (auto simp: nth_list_update)
  have c: "usr_check_password v q d' = usr_check_password v q d" if v: "v \<noteq> uid" for v q
  proof -
    have sv: "find_index (\<lambda>u. u_uid u = v) (g_users d') = find_index (\<lambda>u. u_uid u = v) (g_users d)"
      unfolding d' by (rule find_index_update) (use v f in auto)
    show ?thesis
    proof (cases "usr_find_by_uid v d")
      case (Some j)
      then have "j \<noteq> i" using f find_index_Some [OF Some [unfolded usr_find_by_uid_def]] v by auto
      then show ?thesis using Some sv by (simp add: usr_check_password_def usr_find_by_uid_def d' Let_def)
    qed (simp add: usr_check_password_def usr_find_by_uid_def sv)
  qed
  show ?thesis
    by (rule exI [of _ "?f (g_users d ! i)"], rule exI [of _ salt])
      (use f c in \<open>auto simp: usr_check_password_def i' d' Let_def set_update_memI\<close>)
qed

theorem set_password_correct_witness:
  "\<exists>d' u. usr_set_password 1000 (Some ''pw'') (demo_db [demo_user 0 ''root'', demo_user 1000 ''ann'']) = (0, d') \<and>
    u \<in> set (g_users d') \<and> u_uid u = 1000 \<and> usr_check_password 0 None d' =
      usr_check_password 0 None (demo_db [demo_user 0 ''root'', demo_user 1000 ''ann''])"
proof -
  let ?d = "demo_db [demo_user 0 ''root'', demo_user 1000 ''ann'']"
  have "usr_find_by_uid 1000 ?d = Some 1" by (simp add: usr_find_by_uid_def demo_db_def demo_user_def)
  then obtain d' where d': "usr_set_password 1000 (Some ''pw'') ?d = (0, d')"
    by (cases "draw_salt ?d") (simp add: usr_set_password_def)
  from set_password_correct [OF this] d' show ?thesis by auto
qed

lemma and_subset: "((m :: u16) AND x) = x \<longleftrightarrow> (\<forall>n. bit x n \<longrightarrow> bit m n)"
proof
  assume "(m AND x) = x"
  then show "\<forall>n. bit x n \<longrightarrow> bit m n" by (metis bit_and_iff)
next
  assume "\<forall>n. bit x n \<longrightarrow> bit m n"
  then show "(m AND x) = x" by (intro bit_word_eqI) (auto simp: bit_and_iff)
qed

lemma and_or_subset: "((m :: u16) AND (a OR b)) = (a OR b) \<longleftrightarrow> (m AND a) = a \<and> (m AND b) = b"
  unfolding and_subset by (auto simp: bit_or_iff)

lemma and_pow_eq: "n < 16 \<Longrightarrow> ((m :: u16) AND push_bit n 1) = push_bit n 1 \<longleftrightarrow> bit m n"
  unfolding and_subset by (auto simp: bit_exp_iff)

lemma need_bits_iff:
  assumes "i < 16" "j < 16" "k < 16"
  shows "((m :: u16) AND need_bits access (push_bit i 1) (push_bit j 1) (push_bit k 1)) =
      need_bits access (push_bit i 1) (push_bit j 1) (push_bit k 1) \<longleftrightarrow>
    ((access AND 1) \<noteq> 0 \<longrightarrow> bit m i) \<and> ((access AND 2) \<noteq> 0 \<longrightarrow> bit m j) \<and> ((access AND 4) \<noteq> 0 \<longrightarrow> bit m k)"
  unfolding need_bits_def Let_def
  by (cases "(access AND 1) \<noteq> 0"; cases "(access AND 2) \<noteq> 0"; cases "(access AND 4) \<noteq> 0")
    (simp_all add: and_or_subset and_pow_eq [OF assms(1)] and_pow_eq [OF assms(2)] and_pow_eq [OF assms(3)] del: push_bit_of_1)

lemma mask_bit_test: "unat g < 32 \<Longrightarrow> (groups AND mask_bit g) \<noteq> 0 \<longleftrightarrow> bit groups (unat g)"
  unfolding mask_bit_def by (simp add: and_exp_eq_0_iff_not_bit)

text \<open>The class of a process with respect to a file: the position of its three mode bits.\<close>

definition perm_class :: "uid_t \<Rightarrow> gid_t \<Rightarrow> u32 \<Rightarrow> uid_t \<Rightarrow> gid_t \<Rightarrow> nat" where
  "perm_class uid gid groups fu fg =
     (if uid = fu then 6 else if gid = fg \<or> unat fg < 32 \<and> bit groups (unat fg) then 3 else 0)"

text \<open>
  The permission check is the Unix one. Root may do anything; everybody else may do what the
  three mode bits of their class allow, where the class is owner, then group (primary or
  supplementary), then others, and only the bits of that one class count.
\<close>

theorem check_perm_correct:
  "usr_check_perm uid gid groups fu fg mode access = 0 \<longleftrightarrow> uid = UID_ROOT \<or>
     (let c = perm_class uid gid groups fu fg in
      ((access AND 1) \<noteq> 0 \<longrightarrow> bit mode (c + 2)) \<and> ((access AND 2) \<noteq> 0 \<longrightarrow> bit mode (c + 1)) \<and>
      ((access AND 4) \<noteq> 0 \<longrightarrow> bit mode c))"
proof -
  have g: "(unat fg < USR_MAX_GROUPS \<and> (groups AND mask_bit fg) \<noteq> 0) = (unat fg < 32 \<and> bit groups (unat fg))"
    using mask_bit_test by (auto simp: USR_MAX_GROUPS_def)
  have n: "((mode AND need_bits access 0x100 0x080 0x040) = need_bits access 0x100 0x080 0x040) =
      (((access AND 1) \<noteq> 0 \<longrightarrow> bit mode 8) \<and> ((access AND 2) \<noteq> 0 \<longrightarrow> bit mode 7) \<and> ((access AND 4) \<noteq> 0 \<longrightarrow> bit mode 6))"
    "((mode AND need_bits access 0x020 0x010 0x008) = need_bits access 0x020 0x010 0x008) =
      (((access AND 1) \<noteq> 0 \<longrightarrow> bit mode 5) \<and> ((access AND 2) \<noteq> 0 \<longrightarrow> bit mode 4) \<and> ((access AND 4) \<noteq> 0 \<longrightarrow> bit mode 3))"
    "((mode AND need_bits access 0x004 0x002 0x001) = need_bits access 0x004 0x002 0x001) =
      (((access AND 1) \<noteq> 0 \<longrightarrow> bit mode 2) \<and> ((access AND 2) \<noteq> 0 \<longrightarrow> bit mode 1) \<and> ((access AND 4) \<noteq> 0 \<longrightarrow> bit mode 0))"
    using need_bits_iff [of 8 7 6 mode access] need_bits_iff [of 5 4 3 mode access]
      need_bits_iff [of 2 1 0 mode access] by simp_all
  show ?thesis
    unfolding usr_check_perm_def perm_class_def Let_def g
    using n by (simp add: numeral_2_eq_2 split: if_split)
qed

theorem check_perm_correct_witness:
  "usr_check_perm 1000 100 0 1000 0 0x1A4 3 = 0 \<and> usr_check_perm 1001 100 0 1000 0 0x1A4 2 \<noteq> 0"
  using check_perm_correct [of 1000 100 0 1000 0 "0x1A4" 3] check_perm_correct [of 1001 100 0 1000 0 "0x1A4" 2]
  by (simp add: perm_class_def UID_ROOT_def bit_numeral_rec)

end
