(* ===== verification/PhysMem.thy ===== *)
theory PhysMem
  imports OsPrelude
begin

text \<open>
  The physical memory manager of \<open>src/kernel/mm/mm.c\<close>: the bootstrap bump allocator, the
  buddy allocator and the two passes over the boot memory map. A free list is the list
  of the physical addresses chained through its blocks (the link word lives in the free
  block itself, where no one else may look); \<open>page_info\<close> is a function of the page frame
  number. \<open>pinv\<close> says that free blocks, allocated blocks and blocks in transit tile the
  managed pages; every operation keeps it.
\<close>

section \<open>State\<close>

definition PAGE_SIZE :: u64 where "PAGE_SIZE = 4096"
definition MAX_ORDER :: nat where "MAX_ORDER = 18"
definition BUMP_SIZE :: u64 where "BUMP_SIZE = 64 * 1024 * 1024"
definition ASD_MEM_FREE :: u32 where "ASD_MEM_FREE = 0"
definition PAGE_FREE :: u16 where "PAGE_FREE = 1"
definition PAGE_ALLOC :: u16 where "PAGE_ALLOC = 2"

definition PAGE_ALIGN :: "u64 \<Rightarrow> u64" where
  "PAGE_ALIGN x = ((x + PAGE_SIZE - 1) AND NOT (PAGE_SIZE - 1))"

definition PAGE_ALIGN_DOWN :: "u64 \<Rightarrow> u64" where
  "PAGE_ALIGN_DOWN x = (x AND NOT (PAGE_SIZE - 1))"

record mmap_entry =
  m_base :: u64
  m_pages :: u64
  m_type :: u32

record page_info =
  pflags :: u16
  porder :: u8
  refcount :: u8
  map_count :: u16

record phys_state =
  lists :: "nat \<Rightarrow> u64 list"
  free_pages :: u64
  total_pages :: u64
  phys_base :: u64
  phys_top :: u64

record amm =
  early_boot :: bool
  bump_base :: u64
  bump_cur :: u64
  bump_end :: u64
  phys :: phys_state
  info :: "u64 \<Rightarrow> page_info"
  pmem :: "u64 \<Rightarrow> u64"
  kernel_cr3 :: u64

text \<open>\<open>memset(p, 0, n)\<close> on physical memory, seen as 64-bit words at their addresses.\<close>

definition zero_mem :: "u64 \<Rightarrow> u64 \<Rightarrow> amm \<Rightarrow> amm" where
  "zero_mem p n s = s\<lparr>pmem := (\<lambda>a. if unat (a - p) < unat n then 0 else pmem s a)\<rparr>"

section \<open>Bootstrap allocator\<close>

definition usable_range :: "mmap_entry \<Rightarrow> u64 \<times> u64" where
  "usable_range m = (PAGE_ALIGN (m_base m), PAGE_ALIGN_DOWN (m_base m + m_pages m * PAGE_SIZE))"

fun bump_first :: "mmap_entry list \<Rightarrow> u64 option" where
  "bump_first [] = None"
| "bump_first (m # ms) =
     (if m_type m \<noteq> ASD_MEM_FREE then bump_first ms
      else let (base0, endp) = usable_range m;
               base = (if base0 < 0x100000 then 0x100000 else base0) in
        if endp \<le> base \<or> endp - base < BUMP_SIZE then bump_first ms
        else Some base)"

fun bump_largest :: "mmap_entry list \<Rightarrow> amm \<Rightarrow> amm" where
  "bump_largest [] s = s"
| "bump_largest (m # ms) s =
     (if m_type m \<noteq> ASD_MEM_FREE then bump_largest ms s
      else let (base, endp) = usable_range m in
        if base < endp \<and> bump_end s - bump_base s < endp - base
        then bump_largest ms (s\<lparr>bump_base := base, bump_cur := base, bump_end := endp\<rparr>)
        else bump_largest ms s)"

definition bump_init :: "mmap_entry list \<Rightarrow> amm \<Rightarrow> amm" where
  "bump_init ms s =
     (case bump_first ms of
        Some base \<Rightarrow> s\<lparr>bump_base := base, bump_cur := base, bump_end := base + BUMP_SIZE\<rparr>
      | None \<Rightarrow> bump_largest ms s)"

definition bump_alloc :: "nat \<Rightarrow> amm \<Rightarrow> u64 \<times> amm" where
  "bump_alloc order s =
     (let sz = push_bit order PAGE_SIZE;
          aligned = ((bump_cur s + sz - 1) AND NOT (sz - 1)) in
      if aligned + sz > bump_end s then (0, s)
      else (aligned, zero_mem aligned sz (s\<lparr>bump_cur := aligned + sz\<rparr>)))"

section \<open>Buddy allocator\<close>

definition pfn :: "u64 \<Rightarrow> u64" where
  "pfn p = drop_bit 12 p"

definition phys_free_block :: "u64 \<Rightarrow> nat \<Rightarrow> amm \<Rightarrow> amm" where
  "phys_free_block paddr order s =
     s\<lparr>phys := (phys s)\<lparr>lists := (lists (phys s))(order := paddr # lists (phys s) order),
                         free_pages := free_pages (phys s) + push_bit order 1\<rparr>,
       info := (info s)(pfn paddr := (info s (pfn paddr))
                 \<lparr>pflags := PAGE_FREE, porder := of_nat order\<rparr>)\<rparr>"

text \<open>
  The inner loop of \<open>phys_free_range\<close>: the largest order, from the given one downwards,
  that fits the rest of the range and is naturally aligned.
\<close>

fun fit_order :: "u64 \<Rightarrow> nat \<Rightarrow> nat \<Rightarrow> nat \<Rightarrow> nat" where
  "fit_order base i pages 0 = 0"
| "fit_order base i pages (Suc ord) =
     (let block_pages = 2 ^ Suc ord in
      if pages < i + block_pages then fit_order base i pages ord
      else if ((base + of_nat i * PAGE_SIZE) AND (of_nat block_pages * PAGE_SIZE - 1)) \<noteq> 0
      then fit_order base i pages ord
      else Suc ord)"

text \<open>
  \<open>pages\<close> is a byte count shifted right by 12 at every call, below \<open>2^52\<close>, so the counters
  of the loop do not wrap and are natural numbers here.
\<close>

function free_range_loop :: "u64 \<Rightarrow> nat \<Rightarrow> nat \<Rightarrow> amm \<Rightarrow> amm" where
  "free_range_loop base pages i s =
     (if i < pages then
        let order = fit_order base i pages MAX_ORDER in
        free_range_loop base pages (i + 2 ^ order)
          (phys_free_block (base + of_nat i * PAGE_SIZE) order s)
      else s)"
  by auto
termination by (relation "measure (\<lambda>(base, pages, i, s). pages - i)") (auto intro: diff_less_mono2)

declare free_range_loop.simps [simp del]

definition phys_free_range :: "u64 \<Rightarrow> u64 \<Rightarrow> amm \<Rightarrow> amm" where
  "phys_free_range base pages s = free_range_loop base (unat pages) 0 s"

definition add_total :: "u64 \<Rightarrow> amm \<Rightarrow> amm" where
  "add_total pg s = s\<lparr>phys := (phys s)\<lparr>total_pages := total_pages (phys s) + pg\<rparr>\<rparr>"

definition note_bounds :: "u64 \<Rightarrow> u64 \<Rightarrow> amm \<Rightarrow> amm" where
  "note_bounds base endp s =
     s\<lparr>phys := (phys s)\<lparr>
        phys_base := (if base < phys_base (phys s) then base else phys_base (phys s)),
        phys_top := (if endp > phys_top (phys s) then endp else phys_top (phys s))\<rparr>\<rparr>"

definition reset_phys :: "amm \<Rightarrow> amm" where
  "reset_phys s = s\<lparr>phys := \<lparr>lists = (\<lambda>_. []), free_pages = 0, total_pages = 0,
     phys_base = -1, phys_top = 0\<rparr>\<rparr>"

definition phys_init_entry :: "mmap_entry \<Rightarrow> amm \<Rightarrow> amm" where
  "phys_init_entry m s0 =
     (if m_type m \<noteq> ASD_MEM_FREE then s0
      else let (base, endp) = usable_range m in
        if endp \<le> base then s0
        else let s = note_bounds base endp s0 in
          if bump_base s \<noteq> 0 \<and> base < bump_end s \<and> endp > bump_base s then
            let s1 = (if base < bump_base s
                      then let pg = drop_bit 12 (bump_base s - base) in
                        add_total pg (phys_free_range base pg s)
                      else s) in
            (if endp > bump_end s1
             then let pg = drop_bit 12 (endp - bump_end s1) in
               add_total pg (phys_free_range (bump_end s1) pg s1)
             else s1)
          else
            let pages = drop_bit 12 (endp - base) in
            add_total pages (phys_free_range base pages s))"

definition amm_phys_init :: "mmap_entry list \<Rightarrow> amm \<Rightarrow> amm" where
  "amm_phys_init ms s = fold phys_init_entry ms (reset_phys s)"

definition scan_entry :: "mmap_entry \<Rightarrow> amm \<Rightarrow> amm" where
  "scan_entry m s =
     (if m_type m \<noteq> ASD_MEM_FREE then s
      else let (base, endp) = usable_range m in
        if endp \<le> base then s
        else add_total (drop_bit 12 (endp - base)) (note_bounds base endp s))"

definition amm_early_phys_scan :: "mmap_entry list \<Rightarrow> amm \<Rightarrow> amm" where
  "amm_early_phys_scan ms s = bump_init ms (fold scan_entry ms (reset_phys s))"

text \<open>Splitting a block of order \<open>ord\<close> down to \<open>order\<close>, freeing the upper halves.\<close>

fun split_down :: "nat \<Rightarrow> u64 \<Rightarrow> nat \<Rightarrow> amm \<Rightarrow> amm" where
  "split_down order paddr 0 s = s"
| "split_down order paddr (Suc ord) s =
     (if order < Suc ord
      then split_down order paddr ord (phys_free_block (paddr XOR push_bit ord PAGE_SIZE) ord s)
      else s)"

definition take_block :: "nat \<Rightarrow> amm \<Rightarrow> amm" where
  "take_block ord s =
     s\<lparr>phys := (phys s)\<lparr>lists := (lists (phys s))(ord := tl (lists (phys s) ord)),
                         free_pages := free_pages (phys s) - push_bit ord 1\<rparr>\<rparr>"

definition mark_alloc :: "u64 \<Rightarrow> nat \<Rightarrow> amm \<Rightarrow> amm" where
  "mark_alloc paddr order s =
     s\<lparr>info := (info s)(pfn paddr := (info s (pfn paddr))
        \<lparr>pflags := PAGE_ALLOC, porder := of_nat order, refcount := 1\<rparr>)\<rparr>"

function alloc_loop :: "nat \<Rightarrow> nat \<Rightarrow> amm \<Rightarrow> u64 \<times> amm" where
  "alloc_loop order ord s =
     (if ord \<le> MAX_ORDER then
        case lists (phys s) ord of
          [] \<Rightarrow> alloc_loop order (Suc ord) s
        | paddr # _ \<Rightarrow> (paddr, mark_alloc paddr order (split_down order paddr ord (take_block ord s)))
      else (0, s))"
  by auto
termination by (relation "measure (\<lambda>(order, ord, s). Suc MAX_ORDER - ord)") auto

declare alloc_loop.simps [simp del]

definition amm_phys_alloc :: "nat \<Rightarrow> amm \<Rightarrow> u64 \<times> amm" where
  "amm_phys_alloc order s =
     (if early_boot s then bump_alloc order s
      else if order > MAX_ORDER then (0, s)
      else alloc_loop order order s)"

definition unlink_block :: "u64 \<Rightarrow> nat \<Rightarrow> amm \<Rightarrow> amm" where
  "unlink_block b order s =
     (if b \<in> set (lists (phys s) order)
      then s\<lparr>phys := (phys s)\<lparr>lists := (lists (phys s))(order := remove1 b (lists (phys s) order)),
                               free_pages := free_pages (phys s) - push_bit order 1\<rparr>\<rparr>
      else s)"

function free_loop :: "u64 \<Rightarrow> nat \<Rightarrow> amm \<Rightarrow> amm" where
  "free_loop paddr order s =
     (if order < MAX_ORDER then
        let buddy = paddr XOR push_bit order PAGE_SIZE;
            bi = info s (pfn buddy) in
        if (pflags bi AND PAGE_FREE) = 0 \<or> unat (porder bi) \<noteq> order
        then phys_free_block paddr order s
        else free_loop (if paddr < buddy then paddr else buddy) (Suc order) (unlink_block buddy order s)
      else phys_free_block paddr order s)"
  by auto
termination by (relation "measure (\<lambda>(paddr, order, s). MAX_ORDER - order)") auto

declare free_loop.simps [simp del]

definition amm_phys_free :: "u64 \<Rightarrow> nat \<Rightarrow> amm \<Rightarrow> amm" where
  "amm_phys_free paddr order s = free_loop paddr order s"

section \<open>Blocks\<close>

text \<open>
  A block is its address and its order; \<open>blk\<close> is the set of page frames it spans.
\<close>

definition pg :: "u64 \<Rightarrow> nat" where
  "pg a = unat (pfn a)"

definition aligned :: "u64 \<Rightarrow> nat \<Rightarrow> bool" where
  "aligned a ord \<longleftrightarrow> 2 ^ (12 + ord) dvd unat a"

definition blk :: "u64 \<times> nat \<Rightarrow> nat set" where
  "blk b = {pg (fst b) ..< pg (fst b) + 2 ^ snd b}"

definition buddy_of :: "u64 \<Rightarrow> nat \<Rightarrow> u64" where
  "buddy_of a ord = (a XOR push_bit ord PAGE_SIZE)"

lemma pg_div: "pg a = unat a div 4096"
  by (simp add: pg_def pfn_def drop_bit_eq_div unat_div)

lemma pg_in_blk [simp]: "pg a \<in> blk (a, ord)"
  by (simp add: blk_def)

lemma alignedE:
  assumes "aligned a ord"
  obtains m where "unat a = m * 2 ^ (12 + ord)" and "pg a = m * 2 ^ ord"
proof -
  from assms obtain m where m: "unat a = m * 2 ^ (12 + ord)"
    unfolding aligned_def by (metis dvd_def mult.commute)
  then have "pg a = m * 2 ^ ord" by (simp add: pg_div power_add)
  with m show ?thesis by (rule that)
qed

lemma aligned_mono: "aligned a ord \<Longrightarrow> ord' \<le> ord \<Longrightarrow> aligned a ord'"
  unfolding aligned_def using le_imp_power_dvd [of "12 + ord'" "12 + ord" "2::nat"]
  by (auto intro: dvd_trans)

lemma pg_inj: "aligned a 0 \<Longrightarrow> aligned b 0 \<Longrightarrow> pg a = pg b \<Longrightarrow> a = b"
  by (elim alignedE) (simp flip: unat_eq_unat_iff)

lemma unat_push_page:
  assumes "ord \<le> 18"
  shows "unat (push_bit ord PAGE_SIZE) = 2 ^ (12 + ord)"
proof -
  have "(2 :: nat) ^ (12 + ord) < 2 ^ 64"
    using assms by (intro power_strict_increasing) auto
  then have "unat (of_nat (2 ^ (12 + ord)) :: u64) = 2 ^ (12 + ord)" by (rule unat_of_nat_u64)
  moreover have "push_bit ord PAGE_SIZE = (of_nat (2 ^ (12 + ord)) :: u64)"
    by (simp add: PAGE_SIZE_def push_bit_eq_mult power_add)
  ultimately show ?thesis by simp
qed

lemma unat_buddy:
  assumes "unat a = m * 2 ^ (12 + ord)" and "ord \<le> 18"
  shows "unat (buddy_of a ord) = (if even m then Suc m else m - 1) * 2 ^ (12 + ord)"
proof -
  have "unat (buddy_of a ord) = (unat a XOR 2 ^ (12 + ord))"
    using unat_push_page [OF assms(2)] by (simp add: buddy_of_def unsigned_xor_eq)
  also have "\<dots> = (push_bit (12 + ord) m XOR push_bit (12 + ord) 1)"
    using assms(1) by (simp add: push_bit_eq_mult)
  also have "\<dots> = push_bit (12 + ord) (m XOR 1)" by (simp only: push_bit_xor)
  also have "m XOR 1 = (if even m then Suc m else m - 1)"
    by (simp add: xor_Suc_0_eq)
  finally show ?thesis by (simp only: push_bit_eq_mult)
qed

lemma pg_of_mult: "unat a = m * 2 ^ (12 + ord) \<Longrightarrow> pg a = m * 2 ^ ord"
  by (simp add: pg_div power_add)

lemma alignedI: "unat a = m * 2 ^ (12 + ord) \<Longrightarrow> aligned a ord"
  by (simp add: aligned_def)

lemma buddy_cases:
  assumes "aligned a ord" and "ord \<le> 18"
  obtains (low) "aligned (buddy_of a ord) ord" and "aligned a (Suc ord)" and "a < buddy_of a ord"
      and "pg (buddy_of a ord) = pg a + 2 ^ ord"
  | (high) "aligned (buddy_of a ord) ord" and "aligned (buddy_of a ord) (Suc ord)"
      and "buddy_of a ord < a" and "pg a = pg (buddy_of a ord) + 2 ^ ord"
proof -
  obtain m where m: "unat a = m * 2 ^ (12 + ord)" "pg a = m * 2 ^ ord"
    using assms(1) by (rule alignedE)
  have b: "unat (buddy_of a ord) = (if even m then Suc m else m - 1) * 2 ^ (12 + ord)"
    using unat_buddy [OF m(1) assms(2)] .
  note pb = pg_of_mult [OF b] and ab = alignedI [OF b]
  show ?thesis
  proof (cases "even m")
    case True
    then obtain k where "m = 2 * k" by (auto elim: evenE)
    then have "aligned a (Suc ord)" using m(1) by (intro alignedI [of a k]) (simp add: power_add)
    then show ?thesis using low ab pb m b True by (simp add: word_less_nat_alt)
  next
    case False
    then obtain k where k: "m = 2 * k + 1" by (auto elim: oddE)
    then have "aligned (buddy_of a ord) (Suc ord)" using b by (intro alignedI [of _ k]) (simp add: power_add)
    then show ?thesis using high ab pb m b k by (simp add: word_less_nat_alt)
  qed
qed

lemma split_block:
  assumes "aligned a (Suc ord)" and "ord \<le> 18"
  shows "aligned a ord \<and> aligned (buddy_of a ord) ord \<and> buddy_of a ord \<noteq> a \<and>
    blk (a, Suc ord) = blk (a, ord) \<union> blk (buddy_of a ord, ord) \<and>
    blk (a, ord) \<inter> blk (buddy_of a ord, ord) = {}"
proof -
  have a: "aligned a ord" using aligned_mono [OF assms(1), of ord] by simp
  obtain m where m: "unat a = m * 2 ^ (12 + Suc ord)" using assms(1) by (rule alignedE)
  then have "unat a = (2 * m) * 2 ^ (12 + ord)" by (simp add: power_add)
  then have b: "unat (buddy_of a ord) = Suc (2 * m) * 2 ^ (12 + ord)"
    using unat_buddy [of a "2 * m" ord] assms(2) by simp
  from a assms(2) show ?thesis
  proof (cases rule: buddy_cases)
    case high
    then show ?thesis using b m by (simp add: word_less_nat_alt power_add)
  qed (use a in \<open>auto simp: blk_def\<close>)
qed

lemma merge_block:
  assumes "aligned a ord" and "ord \<le> 18"
  defines "c \<equiv> (if a < buddy_of a ord then a else buddy_of a ord)"
  shows "aligned c (Suc ord) \<and> blk (c, Suc ord) = blk (a, ord) \<union> blk (buddy_of a ord, ord)"
  using assms(1,2)
proof (cases rule: buddy_cases)
  case high
  then show ?thesis using order_less_not_sym [of a "buddy_of a ord"] by (auto simp: c_def blk_def)
qed (auto simp: c_def blk_def)

lemma aligned_head:
  assumes "aligned x ox" and "aligned b ord" and "ox \<le> ord" and "pg b \<in> blk (x, ox)"
  shows "x = b"
proof -
  obtain m where m: "pg x = m * 2 ^ ox" using assms(1) by (rule alignedE)
  obtain k where k: "pg b = k * 2 ^ ox"
    using aligned_mono [OF assms(2,3)] by (rule alignedE)
  have "m * 2 ^ ox \<le> k * 2 ^ ox" "k * 2 ^ ox < Suc m * 2 ^ ox"
    using assms(4) by (auto simp: blk_def m k)
  then have "m \<le> k" "k < Suc m" by (simp_all only: mult_le_cancel2 mult_less_cancel2)
  then have "k = m" by simp
  then show ?thesis
    using pg_inj [of x b] aligned_mono [OF assms(1), of 0] aligned_mono [OF assms(2), of 0] m k
    by simp
qed

lemma buddy_in_larger:
  assumes "aligned x ox" and "aligned a ord" and "ord < ox" and "ord \<le> 18"
    and "pg (buddy_of a ord) \<in> blk (x, ox)"
  shows "pg a \<in> blk (x, ox)"
proof -
  obtain m where m: "pg x = m * 2 ^ ox" using assms(1) by (rule alignedE)
  obtain d where d: "ox = Suc ord + d" using assms(3) less_iff_Suc_add by auto
  define c where "c = (if a < buddy_of a ord then a else buddy_of a ord)"
  have c: "aligned c (Suc ord)" "blk (c, Suc ord) = blk (a, ord) \<union> blk (buddy_of a ord, ord)"
    using merge_block [OF assms(2,4)] by (simp_all add: c_def)
  obtain k where k: "pg c = k * 2 ^ Suc ord" using c(1) by (rule alignedE)
  have in_c: "pg a \<in> blk (c, Suc ord)" "pg (buddy_of a ord) \<in> blk (c, Suc ord)"
    by (simp_all add: c(2))
  have "k * 2 ^ Suc ord < Suc m * 2 ^ d * 2 ^ Suc ord" "m * 2 ^ d * 2 ^ Suc ord < Suc k * 2 ^ Suc ord"
    using in_c(2) assms(5) by (auto simp: blk_def m k d power_add algebra_simps)
  then have "k < Suc m * 2 ^ d" "m * 2 ^ d < Suc k"
    using mult_less_cancel2 by blast+
  then have "Suc k * 2 ^ Suc ord \<le> Suc m * 2 ^ d * 2 ^ Suc ord"
    "m * 2 ^ d * 2 ^ Suc ord \<le> k * 2 ^ Suc ord" by (intro mult_le_mono1; simp)+
  moreover have "k * 2 ^ Suc ord \<le> pg a" "pg a < Suc k * 2 ^ Suc ord"
    using in_c(1) by (simp_all add: blk_def k)
  ultimately have le: "m * 2 ^ d * 2 ^ Suc ord \<le> pg a" "pg a < Suc m * 2 ^ d * 2 ^ Suc ord"
    by (blast intro: le_trans less_le_trans)+
  have "pg x = m * 2 ^ d * 2 ^ Suc ord" "pg x + 2 ^ ox = Suc m * 2 ^ d * 2 ^ Suc ord"
    by (simp_all add: m d power_add algebra_simps)
  then show ?thesis using le unfolding blk_def fst_conv snd_conv atLeastLessThan_iff by simp
qed

section \<open>The allocator's invariant\<close>

definition free_blocks :: "amm \<Rightarrow> (u64 \<times> nat) set" where
  "free_blocks s = {(a, ord). a \<in> set (lists (phys s) ord)}"

definition cover :: "(u64 \<times> nat) set \<Rightarrow> nat set" where
  "cover B = (\<Union>b\<in>B. blk b)"

definition tiling :: "(u64 \<times> nat) set \<Rightarrow> bool" where
  "tiling B \<longleftrightarrow> (\<forall>a ord. (a, ord) \<in> B \<longrightarrow> ord \<le> MAX_ORDER \<and> aligned a ord) \<and>
     (\<forall>b\<in>B. \<forall>b'\<in>B. b \<noteq> b' \<longrightarrow> blk b \<inter> blk b' = {})"

text \<open>
  \<open>A\<close> are the blocks handed out to clients, \<open>H\<close> the blocks an operation holds in its hands.
  The \<open>page_info\<close> of a page that heads no block is arbitrary, as stale entries are left
  behind by merges; that of a page outside the managed memory must not read as free.
\<close>

definition pinv :: "amm \<Rightarrow> (u64 \<times> nat) set \<Rightarrow> (u64 \<times> nat) set \<Rightarrow> bool" where
  "pinv s A H \<longleftrightarrow> tiling (free_blocks s \<union> A \<union> H) \<and>
     free_blocks s \<inter> (A \<union> H) = {} \<and> A \<inter> H = {} \<and>
     (\<forall>ord. distinct (lists (phys s) ord)) \<and>
     (\<forall>a ord. (a, ord) \<in> free_blocks s \<longrightarrow> pflags (info s (pfn a)) = PAGE_FREE \<and>
        unat (porder (info s (pfn a))) = ord) \<and>
     (\<forall>a ord. (a, ord) \<in> A \<longrightarrow> pflags (info s (pfn a)) = PAGE_ALLOC) \<and>
     (\<forall>p. unat p \<notin> cover (free_blocks s \<union> A \<union> H) \<longrightarrow> (pflags (info s p) AND PAGE_FREE) = 0) \<and>
     free_pages (phys s) = (\<Sum>b\<in>free_blocks s. 2 ^ snd b)"

lemma blk_nonempty [simp]: "blk b \<noteq> {}"
  by (cases b) (auto simp: blk_def)

lemma cover_simps [simp]:
  "cover {} = {}" "cover (insert b B) = blk b \<union> cover B" "cover (B \<union> C) = cover B \<union> cover C"
  by (auto simp: cover_def)

lemma tilingD: "tiling B \<Longrightarrow> b \<in> B \<Longrightarrow> b' \<in> B \<Longrightarrow> b \<noteq> b' \<Longrightarrow> blk b \<inter> blk b' = {}"
  by (simp add: tiling_def)

lemma tiling_disjoint:
  assumes "tiling (B \<union> C)" and "B \<inter> C = {}" and "b \<in> B"
  shows "blk b \<inter> cover C = {}"
proof -
  have "blk b \<inter> blk c = {}" if "c \<in> C" for c
    using that assms(2,3) by (intro tilingD [OF assms(1)]) auto
  then show ?thesis by (auto simp: cover_def)
qed

lemma tilingI:
  assumes "\<And>a ord. (a, ord) \<in> B \<Longrightarrow> ord \<le> MAX_ORDER \<and> aligned a ord"
    and "\<And>b b'. b \<in> B \<Longrightarrow> b' \<in> B \<Longrightarrow> b \<noteq> b' \<Longrightarrow> blk b \<inter> blk b' = {}"
  shows "tiling B"
  using assms by (simp add: tiling_def)

lemma tiling_blockD: "tiling B \<Longrightarrow> (a, ord) \<in> B \<Longrightarrow> ord \<le> MAX_ORDER \<and> aligned a ord"
  by (simp add: tiling_def)

lemma tiling_subset:
  assumes "tiling B" and "C \<subseteq> B"
  shows "tiling C"
  using tiling_blockD [OF assms(1)] tilingD [OF assms(1)] assms(2) by (intro tilingI) blast+

lemma tiling_Un:
  assumes "tiling B" and "tiling C" and "cover B \<inter> cover C = {}"
  shows "tiling (B \<union> C)"
proof (rule tilingI)
  have x: "blk b \<inter> blk b' = {}" if "b \<in> B" "b' \<in> C" for b b'
    using assms(3) that by (auto simp: cover_def)
  fix b b' assume "b \<in> B \<union> C" "b' \<in> B \<union> C" "b \<noteq> b'"
  then show "blk b \<inter> blk b' = {}"
    using tilingD [OF assms(1)] tilingD [OF assms(2)] x [of b b'] x [of b' b]
    by (elim UnE) (simp_all add: Int_commute)
qed (use tiling_blockD [OF assms(1)] tiling_blockD [OF assms(2)] in auto)

lemma cover_disjoint_imp:
  assumes "cover B \<inter> cover C = {}"
  shows "B \<inter> C = {}"
proof -
  have "b \<notin> C" if "b \<in> B" for b
  proof
    assume "b \<in> C"
    with that have "blk b \<subseteq> cover B \<inter> cover C" by (auto simp: cover_def)
    then show False using assms blk_nonempty [of b] by simp
  qed
  then show ?thesis by blast
qed

lemma tiling_pg_eq:
  assumes "tiling B" and "(a, ord) \<in> B" and "(a', ord') \<in> B" and "pfn a = pfn a'"
  shows "(a, ord) = (a', ord')"
proof (rule ccontr)
  assume "(a, ord) \<noteq> (a', ord')"
  with assms have "blk (a, ord) \<inter> blk (a', ord') = {}" by (intro tilingD)
  moreover have "pg a = pg a'" using assms(4) by (simp add: pg_def)
  ultimately show False using pg_in_blk [of a ord] pg_in_blk [of a' ord'] by auto
qed

lemma free_blocks_upd [simp]:
  "free_blocks (mark_alloc p ord s) = free_blocks s"
  "free_blocks (phys_free_block p ord s) = insert (p, ord) (free_blocks s)"
  by (auto simp: free_blocks_def mark_alloc_def phys_free_block_def split: if_splits)

lemma finite_free_blocks: "tiling (free_blocks s) \<Longrightarrow> finite (free_blocks s)"
  by (rule finite_subset [of _ "\<Union>ord\<le>MAX_ORDER. set (lists (phys s) ord) \<times> {ord}"])
    (auto simp: free_blocks_def tiling_def)

lemma pinv_finite: "pinv s A H \<Longrightarrow> finite (free_blocks s)"
  unfolding pinv_def by (blast intro: finite_free_blocks tiling_subset)

lemma pinv_freeD:
  "pinv s A H \<Longrightarrow> (a, ord) \<in> free_blocks s \<Longrightarrow>
   pflags (info s (pfn a)) = PAGE_FREE \<and> unat (porder (info s (pfn a))) = ord"
  unfolding pinv_def by blast

lemma pinv_allocD: "pinv s A H \<Longrightarrow> (a, ord) \<in> A \<Longrightarrow> pflags (info s (pfn a)) = PAGE_ALLOC"
  unfolding pinv_def by blast

lemma pinv_uncoveredD:
  "pinv s A H \<Longrightarrow> unat p \<notin> cover (free_blocks s \<union> A \<union> H) \<Longrightarrow> (pflags (info s p) AND PAGE_FREE) = 0"
  unfolding pinv_def by blast

lemma pinv_tiling: "pinv s A H \<Longrightarrow> tiling (free_blocks s \<union> A \<union> H)"
  unfolding pinv_def by blast

lemma pinv_disjoint: "pinv s A H \<Longrightarrow> free_blocks s \<inter> (A \<union> H) = {} \<and> A \<inter> H = {}"
  unfolding pinv_def by blast

lemma pinv_distinct: "pinv s A H \<Longrightarrow> distinct (lists (phys s) ord)"
  unfolding pinv_def by blast

lemma pinv_free_pages: "pinv s A H \<Longrightarrow> free_pages (phys s) = (\<Sum>b\<in>free_blocks s. 2 ^ snd b)"
  unfolding pinv_def by blast

lemma pinvI:
  assumes "tiling (free_blocks s \<union> A \<union> H)" and "free_blocks s \<inter> (A \<union> H) = {}" and "A \<inter> H = {}"
    and "\<And>ord. distinct (lists (phys s) ord)"
    and "\<And>a ord. (a, ord) \<in> free_blocks s \<Longrightarrow> pflags (info s (pfn a)) = PAGE_FREE \<and>
      unat (porder (info s (pfn a))) = ord"
    and "\<And>a ord. (a, ord) \<in> A \<Longrightarrow> pflags (info s (pfn a)) = PAGE_ALLOC"
    and "\<And>p. unat p \<notin> cover (free_blocks s \<union> A \<union> H) \<Longrightarrow> (pflags (info s p) AND PAGE_FREE) = 0"
    and "free_pages (phys s) = (\<Sum>b\<in>free_blocks s. 2 ^ snd b)"
  shows "pinv s A H"
  unfolding pinv_def using assms by simp

lemma pinv_rehand:
  assumes "pinv s A H" and "cover H' = cover H" and "tiling H'"
  shows "pinv s A H'"
proof -
  have t: "tiling (free_blocks s \<union> A \<union> H)" and d: "(free_blocks s \<union> A) \<inter> H = {}"
    using assms(1) unfolding pinv_def by blast+
  have c: "cover (free_blocks s \<union> A) \<inter> cover H' = {}"
    using tiling_disjoint [OF t d] assms(2) by (auto simp: cover_def)
  then have "tiling (free_blocks s \<union> A \<union> H')"
    using tiling_Un [OF tiling_subset [OF t] assms(3)] by blast
  moreover have "(free_blocks s \<union> A) \<inter> H' = {}" using cover_disjoint_imp [OF c] .
  moreover have "cover (free_blocks s \<union> A \<union> H') = cover (free_blocks s \<union> A \<union> H)"
    using assms(2) by simp
  ultimately show ?thesis using assms(1) unfolding pinv_def by blast
qed

lemma pinv_free_block:
  assumes "pinv s A (insert (p, ord) H)" and "(p, ord) \<notin> H"
  shows "pinv (phys_free_block p ord s) A H"
proof -
  let ?s = "phys_free_block p ord s"
  let ?B = "free_blocks s \<union> A \<union> insert (p, ord) H"
  note t = pinv_tiling [OF assms(1)] and dj = pinv_disjoint [OF assms(1)]
  have ord: "ord \<le> MAX_ORDER" using t by (simp add: tiling_def)
  have B: "free_blocks ?s \<union> A \<union> H = ?B" by auto
  have other: "info ?s (pfn a) = info s (pfn a)" if "(a, o') \<in> ?B" "(a, o') \<noteq> (p, ord)" for a o'
    using tiling_pg_eq [OF t that(1), of p ord] that by (auto simp: phys_free_block_def)
  show ?thesis
  proof (rule pinvI, unfold B)
    show "tiling ?B" by (rule t)
    show "free_blocks ?s \<inter> (A \<union> H) = {}" "A \<inter> H = {}" using dj assms(2) by auto
    show "distinct (lists (phys ?s) o')" for o'
      using pinv_distinct [OF assms(1)] dj
      by (auto simp: phys_free_block_def free_blocks_def)
    show "pflags (info ?s (pfn a)) = PAGE_FREE \<and> unat (porder (info ?s (pfn a))) = o'"
      if "(a, o') \<in> free_blocks ?s" for a o'
    proof (cases "(a, o') = (p, ord)")
      case True
      with ord show ?thesis
        by (auto simp: phys_free_block_def MAX_ORDER_def unat_of_nat take_bit_nat_eq_self)
    qed (use that other [of a o'] pinv_freeD [OF assms(1), of a o'] in auto)
    show "pflags (info ?s (pfn a)) = PAGE_ALLOC" if "(a, o') \<in> A" for a o'
    proof -
      have "(a, o') \<noteq> (p, ord)" using that dj by auto
      then show ?thesis using that other [of a o'] pinv_allocD [OF assms(1) that] by simp
    qed
    show "(pflags (info ?s q) AND PAGE_FREE) = 0" if "unat q \<notin> cover ?B" for q
    proof -
      have "q \<noteq> pfn p" using that by (auto simp: pg_def [symmetric])
      then show ?thesis
        using pinv_uncoveredD [OF assms(1) that] by (simp add: phys_free_block_def)
    qed
    have "free_pages (phys ?s) = free_pages (phys s) + 2 ^ ord"
      by (simp add: phys_free_block_def push_bit_eq_mult)
    then show "free_pages (phys ?s) = (\<Sum>b\<in>free_blocks ?s. 2 ^ snd b)"
      using pinv_free_pages [OF assms(1)] dj pinv_finite [OF assms(1)] by simp
  qed
qed

lemma free_blocks_fun_upd:
  assumes "lists (phys t) = (lists (phys s))(ord := xs)"
    and "set xs = set (lists (phys s) ord) - {p}"
  shows "free_blocks t = free_blocks s - {(p, ord)}"
  unfolding free_blocks_def assms(1) using assms(2) by (auto split: if_splits)

lemma take_block_blocks:
  assumes "distinct (lists (phys s) ord)" and "lists (phys s) ord = p # ps"
  shows "free_blocks (take_block ord s) = free_blocks s - {(p, ord)}"
proof (rule free_blocks_fun_upd)
  show "set ps = set (lists (phys s) ord) - {p}" using assms by simp
qed (simp add: take_block_def assms(2))

lemma unlink_blocks:
  assumes "distinct (lists (phys s) ord)" and "b \<in> set (lists (phys s) ord)"
  shows "free_blocks (unlink_block b ord s) = free_blocks s - {(b, ord)}"
proof (rule free_blocks_fun_upd)
  show "set (remove1 b (lists (phys s) ord)) = set (lists (phys s) ord) - {b}"
    using assms(1) by simp
qed (simp add: unlink_block_def assms(2))

text \<open>Both removals turn a free block into a block in hand.\<close>

lemma pinv_remove:
  assumes "pinv s A H" and "(p, ord) \<in> free_blocks s"
    and "free_blocks t = free_blocks s - {(p, ord)}" and "info t = info s"
    and "\<And>o'. distinct (lists (phys t) o')"
    and "free_pages (phys t) = free_pages (phys s) - 2 ^ ord"
  shows "pinv t A (insert (p, ord) H)"
proof (rule pinvI)
  have B: "free_blocks t \<union> A \<union> insert (p, ord) H = free_blocks s \<union> A \<union> H"
    using assms(2) unfolding assms(3) by blast
  show "tiling (free_blocks t \<union> A \<union> insert (p, ord) H)"
    unfolding B by (rule pinv_tiling [OF assms(1)])
  show "free_blocks t \<inter> (A \<union> insert (p, ord) H) = {}" "A \<inter> insert (p, ord) H = {}"
    using pinv_disjoint [OF assms(1)] assms(2) unfolding assms(3) by blast+
  show "(pflags (info t q) AND PAGE_FREE) = 0"
    if "unat q \<notin> cover (free_blocks t \<union> A \<union> insert (p, ord) H)" for q
    using that unfolding B assms(4) by (rule pinv_uncoveredD [OF assms(1)])
  show "free_pages (phys t) = (\<Sum>b\<in>free_blocks t. 2 ^ snd b)"
    unfolding assms(3,6) pinv_free_pages [OF assms(1)]
    using pinv_finite [OF assms(1)] assms(2) by (simp add: sum_diff1)
  show "pflags (info t (pfn a)) = PAGE_FREE \<and> unat (porder (info t (pfn a))) = o'"
    if "(a, o') \<in> free_blocks t" for a o'
    using that pinv_freeD [OF assms(1), of a o'] unfolding assms(3,4) by simp
  show "pflags (info t (pfn a)) = PAGE_ALLOC" if "(a, o') \<in> A" for a o'
    using pinv_allocD [OF assms(1) that] unfolding assms(4) .
qed (rule assms(5))

lemma pinv_take:
  assumes "pinv s A H" and "lists (phys s) ord = p # ps"
  shows "pinv (take_block ord s) A (insert (p, ord) H)"
proof (rule pinv_remove [OF assms(1)])
  show "(p, ord) \<in> free_blocks s" using assms(2) by (simp add: free_blocks_def)
  show "free_blocks (take_block ord s) = free_blocks s - {(p, ord)}"
    using take_block_blocks [OF pinv_distinct [OF assms(1)] assms(2)] .
  show "distinct (lists (phys (take_block ord s)) o')" for o'
    using pinv_distinct [OF assms(1)] by (cases "o' = ord") (simp_all add: take_block_def distinct_tl)
  show "info (take_block ord s) = info s"
    and "free_pages (phys (take_block ord s)) = free_pages (phys s) - 2 ^ ord"
    by (simp_all add: take_block_def push_bit_eq_mult)
qed

lemma pinv_unlink:
  assumes "pinv s A H" and "(b, ord) \<in> free_blocks s"
  shows "pinv (unlink_block b ord s) A (insert (b, ord) H)"
proof (rule pinv_remove [OF assms])
  show "free_blocks (unlink_block b ord s) = free_blocks s - {(b, ord)}"
    using unlink_blocks [OF pinv_distinct [OF assms(1)]] assms(2) by (simp add: free_blocks_def)
  show "distinct (lists (phys (unlink_block b ord s)) o')" for o'
    using pinv_distinct [OF assms(1)] by (cases "o' = ord") (simp_all add: unlink_block_def)
  show "info (unlink_block b ord s) = info s"
    and "free_pages (phys (unlink_block b ord s)) = free_pages (phys s) - 2 ^ ord"
    using assms(2) by (simp_all add: unlink_block_def free_blocks_def push_bit_eq_mult)
qed

lemma tiling_singleton [simp]: "tiling {(a, ord)} \<longleftrightarrow> ord \<le> MAX_ORDER \<and> aligned a ord"
  by (auto simp: tiling_def)

lemma pinv_hand: "pinv s A (insert (p, ord) H) \<Longrightarrow> ord \<le> MAX_ORDER \<and> aligned p ord"
  by (drule pinv_tiling) (simp add: tiling_def)

lemma pinv_split:
  assumes "pinv s A {(p, Suc ord)}"
  shows "pinv s A {(p, ord), (buddy_of p ord, ord)}"
proof -
  have "Suc ord \<le> MAX_ORDER" "aligned p (Suc ord)" using pinv_hand [OF assms] by auto
  then have s: "aligned p ord" "aligned (buddy_of p ord) ord" "buddy_of p ord \<noteq> p"
    "blk (p, Suc ord) = blk (p, ord) \<union> blk (buddy_of p ord, ord)"
    "blk (p, ord) \<inter> blk (buddy_of p ord, ord) = {}" "ord \<le> MAX_ORDER"
    using split_block [of p ord] by (auto simp: MAX_ORDER_def)
  have "tiling ({(p, ord)} \<union> {(buddy_of p ord, ord)})"
    using s by (intro tiling_Un) auto
  then show ?thesis using pinv_rehand [OF assms] s(4) by (simp add: insert_commute)
qed

lemma pinv_merge:
  assumes "pinv s A {(buddy_of p ord, ord), (p, ord)}" and "ord < MAX_ORDER"
  shows "pinv s A {(if p < buddy_of p ord then p else buddy_of p ord, Suc ord)}"
proof (rule pinv_rehand [OF assms(1)])
  let ?c = "if p < buddy_of p ord then p else buddy_of p ord"
  have p: "aligned p ord" using pinv_hand [of s A p ord "{(buddy_of p ord, ord)}"] assms(1)
    by (simp add: insert_commute)
  have m: "aligned ?c (Suc ord)" "blk (?c, Suc ord) = blk (p, ord) \<union> blk (buddy_of p ord, ord)"
    using merge_block [OF p] assms(2) by (auto simp: MAX_ORDER_def)
  show "cover {(?c, Suc ord)} = cover {(buddy_of p ord, ord), (p, ord)}"
    unfolding cover_simps m(2) by blast
  show "tiling {(?c, Suc ord)}" using m(1) assms(2) by simp
qed

lemma pinv_mark:
  assumes "pinv s A {(p, ord)}"
  shows "pinv (mark_alloc p ord s) (insert (p, ord) A) {}"
proof (rule pinvI)
  let ?s = "mark_alloc p ord s"
  note t = pinv_tiling [OF assms] and dj = pinv_disjoint [OF assms]
  have other: "info ?s (pfn a) = info s (pfn a)"
    if "(a, o') \<in> free_blocks s \<union> A" for a o'
  proof -
    have "(a, o') \<noteq> (p, ord)" using that dj by auto
    then have "pfn a \<noteq> pfn p" using tiling_pg_eq [OF t, of a o' p ord] that by blast
    then show ?thesis by (simp add: mark_alloc_def)
  qed
  show "tiling (free_blocks ?s \<union> insert (p, ord) A \<union> {})" using t by simp
  show "free_blocks ?s \<inter> (insert (p, ord) A \<union> {}) = {}" using dj by simp
  show "distinct (lists (phys ?s) o')" for o'
    using pinv_distinct [OF assms] by (simp add: mark_alloc_def)
  show "pflags (info ?s (pfn a)) = PAGE_FREE \<and> unat (porder (info ?s (pfn a))) = o'"
    if "(a, o') \<in> free_blocks ?s" for a o'
    using that other [of a o'] pinv_freeD [OF assms, of a o'] by simp
  show "pflags (info ?s (pfn a)) = PAGE_ALLOC" if "(a, o') \<in> insert (p, ord) A" for a o'
  proof (cases "(a, o') = (p, ord)")
    case True
    then show ?thesis by (simp add: mark_alloc_def)
  next
    case False
    then have "(a, o') \<in> A" using that by auto
    then show ?thesis using other [of a o'] pinv_allocD [OF assms] by simp
  qed
  show "(pflags (info ?s q) AND PAGE_FREE) = 0"
    if "unat q \<notin> cover (free_blocks ?s \<union> insert (p, ord) A \<union> {})" for q
  proof -
    have "q \<noteq> pfn p" using that by (auto simp: pg_def [symmetric])
    moreover have "unat q \<notin> cover (free_blocks s \<union> A \<union> {(p, ord)})" using that by simp
    ultimately show ?thesis using pinv_uncoveredD [OF assms] by (simp add: mark_alloc_def)
  qed
  have "phys ?s = phys s" by (simp add: mark_alloc_def)
  then show "free_pages (phys ?s) = (\<Sum>b\<in>free_blocks ?s. 2 ^ snd b)"
    using pinv_free_pages [OF assms] by simp
qed simp

lemma pinv_release:
  assumes "pinv s A {}" and "(p, ord) \<in> A"
  shows "pinv s (A - {(p, ord)}) {(p, ord)}"
proof -
  have "free_blocks s \<union> (A - {(p, ord)}) \<union> {(p, ord)} = free_blocks s \<union> A \<union> {}"
    using assms(2) by auto
  then show ?thesis using assms unfolding pinv_def by auto
qed

section \<open>Allocation and release\<close>

text \<open>The free pages as a set; on a state that satisfies the invariant it determines the counter.\<close>

definition free_set :: "amm \<Rightarrow> nat set" where
  "free_set s = cover (free_blocks s)"

lemma finite_blk [simp]: "finite (blk b)" and card_blk [simp]: "card (blk b) = 2 ^ snd b"
  by (simp_all add: blk_def)

lemma free_pages_card:
  assumes "pinv s A H"
  shows "free_pages (phys s) = of_nat (card (free_set s))"
proof -
  have "card (free_set s) = (\<Sum>b\<in>free_blocks s. card (blk b))"
    unfolding free_set_def cover_def
    using pinv_finite [OF assms] tilingD [OF pinv_tiling [OF assms]]
    by (intro card_UN_disjoint) auto
  then show ?thesis using pinv_free_pages [OF assms] by simp
qed

lemma free_set_disjoint:
  assumes "pinv s A H"
  shows "free_set s \<inter> cover (A \<union> H) = {}"
proof -
  have "tiling (free_blocks s \<union> (A \<union> H))" using pinv_tiling [OF assms] by (simp add: Un_assoc)
  then have "blk b \<inter> cover (A \<union> H) = {}" if "b \<in> free_blocks s" for b
    using pinv_disjoint [OF assms] that by (intro tiling_disjoint) blast+
  then show ?thesis unfolding free_set_def cover_def [of "free_blocks s"] by blast
qed

lemma free_set_free_block [simp]: "free_set (phys_free_block p ord s) = blk (p, ord) \<union> free_set s"
  by (simp add: free_set_def)

lemma free_set_mark [simp]: "free_set (mark_alloc p ord s) = free_set s"
  by (simp add: free_set_def)

lemma early_boot_free_block [simp]: "early_boot (phys_free_block p ord s) = early_boot s"
  by (simp add: phys_free_block_def)

lemma split_down_inv:
  assumes "pinv s A {(p, ord)}" and "order \<le> ord"
  shows "pinv (split_down order p ord s) A {(p, order)} \<and>
    free_set (split_down order p ord s) \<union> blk (p, order) = free_set s \<union> blk (p, ord)"
  using assms
proof (induction ord arbitrary: s)
  case (Suc ord)
  show ?case
  proof (cases "order = Suc ord")
    case False
    let ?b = "buddy_of p ord"
    let ?t = "phys_free_block ?b ord s"
    have h: "pinv s A (insert (?b, ord) {(p, ord)})"
      using pinv_split [OF Suc.prems(1)] by (simp add: insert_commute)
    have b: "?b \<noteq> p" "blk (p, Suc ord) = blk (p, ord) \<union> blk (?b, ord)"
      using split_block [of p ord] pinv_hand [OF Suc.prems(1)] by (auto simp: MAX_ORDER_def)
    have "pinv ?t A {(p, ord)}" using pinv_free_block [OF h] b(1) by simp
    then have "pinv (split_down order p ord ?t) A {(p, order)} \<and>
      free_set (split_down order p ord ?t) \<union> blk (p, order) = free_set ?t \<union> blk (p, ord)"
      using Suc.IH [of ?t] Suc.prems(2) False by simp
    then show ?thesis using b(2) False Suc.prems(2) by (auto simp: buddy_of_def)
  qed (use Suc.prems in simp)
qed simp

lemma take_block_free_set:
  assumes "pinv s A H" and "lists (phys s) ord = p # ps"
  shows "free_set s = free_set (take_block ord s) \<union> blk (p, ord)"
proof -
  have "free_blocks s = insert (p, ord) (free_blocks (take_block ord s))"
    using take_block_blocks [OF pinv_distinct [OF assms(1)] assms(2)] assms(2)
    by (auto simp: free_blocks_def)
  then show ?thesis by (auto simp: free_set_def)
qed

lemma alloc_loop_inv:
  assumes "pinv s A {}" and "order \<le> ord" and "alloc_loop order ord s = (p, s')"
  shows "if \<exists>o'. ord \<le> o' \<and> o' \<le> MAX_ORDER \<and> lists (phys s) o' \<noteq> []
    then pinv s' (insert (p, order) A) {} \<and> (p, order) \<notin> A \<and>
      free_set s = free_set s' \<union> blk (p, order) \<and> early_boot s' = early_boot s
    else p = 0 \<and> s' = s"
  using assms
proof (induction order ord s rule: alloc_loop.induct)
  case (1 order ord s)
  show ?case
  proof (cases "ord \<le> MAX_ORDER \<and> lists (phys s) ord \<noteq> []")
    case True
    then obtain q qs where q: "lists (phys s) ord = q # qs" by (cases "lists (phys s) ord") auto
    let ?t = "split_down order q ord (take_block ord s)"
    have r: "p = q" "s' = mark_alloc q order ?t"
      using "1.prems"(3) True q by (auto simp: alloc_loop.simps [of order ord])
    have t: "pinv ?t A {(q, order)}"
      "free_set ?t \<union> blk (q, order) = free_set (take_block ord s) \<union> blk (q, ord)"
      using split_down_inv [OF pinv_take [OF "1.prems"(1) q] "1.prems"(2)] by auto
    have "early_boot (split_down order q n u) = early_boot u" for n u
      by (induction n arbitrary: u) (auto simp: phys_free_block_def)
    then have "early_boot s' = early_boot s"
      by (simp add: r mark_alloc_def take_block_def)
    then show ?thesis
      using r t pinv_mark [OF t(1)] pinv_disjoint [OF t(1)] True
        take_block_free_set [OF "1.prems"(1) q] by auto
  next
    case False
    show ?thesis
    proof (cases "ord \<le> MAX_ORDER")
      case True
      with False have e: "lists (phys s) ord = []" by simp
      have "alloc_loop order (Suc ord) s = (p, s')"
        using "1.prems"(3) True e by (simp add: alloc_loop.simps [of order ord])
      moreover have "(\<exists>o'. Suc ord \<le> o' \<and> o' \<le> MAX_ORDER \<and> lists (phys s) o' \<noteq> []) \<longleftrightarrow>
          (\<exists>o'. ord \<le> o' \<and> o' \<le> MAX_ORDER \<and> lists (phys s) o' \<noteq> [])"
        using e by (metis Suc_leD le_neq_implies_less Suc_leI)
      ultimately show ?thesis using "1.IH" [OF True e "1.prems"(1)] "1.prems"(2) by simp
    qed (use "1.prems"(3) in \<open>auto simp: alloc_loop.simps [of order ord]\<close>)
  qed
qed

text \<open>
  The merge test is sound: a buddy whose \<open>page_info\<close> reads as a free block of the order is
  on the free list. A stale entry can not mislead it, since a page frame that is the buddy
  of a block in hand always heads a block of its own or is not managed at all.
\<close>

lemma buddy_free:
  assumes "pinv s A {(p, ord)}" and "ord < MAX_ORDER"
    and "(pflags (info s (pfn (buddy_of p ord))) AND PAGE_FREE) \<noteq> 0"
    and "unat (porder (info s (pfn (buddy_of p ord)))) = ord"
  shows "(buddy_of p ord, ord) \<in> free_blocks s"
proof -
  let ?b = "buddy_of p ord"
  note t = pinv_tiling [OF assms(1)]
  have p: "aligned p ord" and o18: "ord \<le> 18"
    using pinv_hand [OF assms(1)] by (auto simp: MAX_ORDER_def)
  have b: "aligned ?b ord" using p o18 by (cases rule: buddy_cases) auto
  have "pg ?b \<in> cover (free_blocks s \<union> A \<union> {(p, ord)})"
    using pinv_uncoveredD [OF assms(1), of "pfn ?b"] assms(3) by (auto simp: pg_def)
  then obtain x ox where x: "(x, ox) \<in> free_blocks s \<union> A \<union> {(p, ord)}" "pg ?b \<in> blk (x, ox)"
    unfolding cover_def by auto
  have xa: "aligned x ox" using tiling_blockD [OF t x(1)] by simp
  have "ox \<le> ord"
  proof (rule ccontr)
    assume "\<not> ox \<le> ord"
    then have o: "ord < ox" by simp
    then have "pg p \<in> blk (x, ox)" using buddy_in_larger [OF xa p o o18 x(2)] by simp
    moreover have "blk (x, ox) \<inter> blk (p, ord) = {}"
      using tilingD [OF t x(1), of "(p, ord)"] o by auto
    ultimately show False using pg_in_blk [of p ord] by blast
  qed
  then have xb: "x = ?b" using aligned_head [OF xa b _ x(2)] by simp
  have "?b \<noteq> p" using p o18 by (cases rule: buddy_cases) auto
  with x xb have "(?b, ox) \<in> free_blocks s \<or> (?b, ox) \<in> A" by auto
  moreover have "(?b, ox) \<notin> A"
    using pinv_allocD [OF assms(1), of ?b ox] assms(3) by (auto simp: PAGE_ALLOC_def PAGE_FREE_def)
  ultimately show ?thesis using pinv_freeD [OF assms(1), of ?b ox] assms(4) by auto
qed

lemma unlink_free_set:
  assumes "pinv s A H" and "(b, ord) \<in> free_blocks s"
  shows "free_set s = free_set (unlink_block b ord s) \<union> blk (b, ord)"
proof -
  have "free_blocks s = insert (b, ord) (free_blocks (unlink_block b ord s))"
    using unlink_blocks [OF pinv_distinct [OF assms(1)], of b ord] assms(2)
    by (auto simp: free_blocks_def)
  then show ?thesis by (auto simp: free_set_def)
qed

lemma free_loop_inv:
  assumes "pinv s A {(p, ord)}"
  shows "pinv (free_loop p ord s) A {} \<and> free_set (free_loop p ord s) = free_set s \<union> blk (p, ord) \<and>
    early_boot (free_loop p ord s) = early_boot s"
  using assms
proof (induction p ord s rule: free_loop.induct)
  case (1 p ord s)
  let ?b = "buddy_of p ord"
  let ?bi = "info s (pfn ?b)"
  let ?c = "if p < ?b then p else ?b"
  let ?u = "unlink_block ?b ord s"
  show ?case
  proof (cases "ord < MAX_ORDER \<and> (pflags ?bi AND PAGE_FREE) \<noteq> 0 \<and> unat (porder ?bi) = ord")
    case True
    then have free: "(?b, ord) \<in> free_blocks s" using buddy_free [OF "1.prems"] by simp
    have "pinv ?u A {(?c, Suc ord)}"
      using pinv_merge [OF pinv_unlink [OF "1.prems" free]] True by simp
    moreover have step: "free_loop p ord s = free_loop ?c (Suc ord) ?u"
      using True by (simp add: free_loop.simps [of p ord s] buddy_of_def [symmetric] Let_def)
    moreover have "blk (?c, Suc ord) = blk (p, ord) \<union> blk (?b, ord)"
      using merge_block [of p ord] pinv_hand [OF "1.prems"] True by (simp add: MAX_ORDER_def)
    moreover have "early_boot ?u = early_boot s" by (simp add: unlink_block_def)
    ultimately show ?thesis
      using "1.IH" [OF _ refl refl] True unlink_free_set [OF "1.prems" free]
      unfolding buddy_of_def [symmetric] by auto
  next
    case False
    then have "free_loop p ord s = phys_free_block p ord s"
      by (auto simp: free_loop.simps [of p ord s] buddy_of_def [symmetric] Let_def)
    then show ?thesis
      using pinv_free_block [of s A p ord "{}"] "1.prems" by auto
  qed
qed

section \<open>Handing ranges of the memory map to the allocator\<close>

lemma pinv_add:
  assumes "pinv s A {}" and "ord \<le> MAX_ORDER" and "aligned p ord"
    and "blk (p, ord) \<inter> cover (free_blocks s \<union> A) = {}"
  shows "pinv s A {(p, ord)}"
proof (rule pinvI)
  have t: "tiling (free_blocks s \<union> A)" using pinv_tiling [OF assms(1)] by simp
  have c: "cover (free_blocks s \<union> A) \<inter> cover {(p, ord)} = {}"
    using assms(4) by (auto simp: Int_commute)
  show "tiling (free_blocks s \<union> A \<union> {(p, ord)})"
    using tiling_Un [OF t _ c] assms(2,3) by simp
  have d: "(free_blocks s \<union> A) \<inter> {(p, ord)} = {}" using cover_disjoint_imp [OF c] .
  show "free_blocks s \<inter> (A \<union> {(p, ord)}) = {}" "A \<inter> {(p, ord)} = {}"
    using d pinv_disjoint [OF assms(1)] by auto
  show "(pflags (info s q) AND PAGE_FREE) = 0"
    if "unat q \<notin> cover (free_blocks s \<union> A \<union> {(p, ord)})" for q
    using that pinv_uncoveredD [OF assms(1), of q] by simp
qed (use pinv_freeD [OF assms(1)] pinv_allocD [OF assms(1)] pinv_distinct [OF assms(1)]
      pinv_free_pages [OF assms(1)] in simp_all)

lemma fit_order_bounds: "fit_order base i pages n \<le> n"
  by (induction n) (auto simp: Let_def le_SucI)

lemma fit_order_fits: "i < pages \<Longrightarrow> i + 2 ^ fit_order base i pages n \<le> pages"
  by (induction n) (auto simp: Let_def)

lemma fit_order_mask:
  "fit_order base i pages n = 0 \<or>
   ((base + of_nat i * PAGE_SIZE) AND
     (of_nat (2 ^ fit_order base i pages n) * PAGE_SIZE - 1)) = 0"
  by (induction n) (auto simp: Let_def)

lemma mask_aligned:
  assumes "(a AND (of_nat (2 ^ ord) * PAGE_SIZE - 1)) = 0" and "ord \<le> 18"
  shows "aligned a ord"
proof -
  have "of_nat (2 ^ ord) * PAGE_SIZE - 1 = (mask (12 + ord) :: u64)"
    by (simp add: PAGE_SIZE_def mask_eq_exp_minus_1 power_add mult.commute)
  with assms(1) have "take_bit (12 + ord) a = 0" by (simp add: take_bit_eq_mask)
  then have "take_bit (12 + ord) (unat a) = 0"
    by (simp flip: unsigned_take_bit_eq)
  then show ?thesis by (simp add: aligned_def take_bit_eq_0_iff)
qed

lemma unat_offset:
  assumes "unat base + pages * 4096 \<le> 2 ^ 64" and "i < pages"
  shows "unat (base + of_nat i * PAGE_SIZE) = unat base + i * 4096"
proof -
  have lt: "unat base + i * 4096 < 2 ^ 64" using assms by linarith
  have "base + of_nat i * PAGE_SIZE = of_nat (unat base + i * 4096)"
    by (simp add: PAGE_SIZE_def)
  then show ?thesis using unat_of_nat_u64 [OF lt] by simp
qed

lemma pg_offset:
  assumes "unat base + pages * 4096 \<le> 2 ^ 64" and "i < pages"
  shows "pg (base + of_nat i * PAGE_SIZE) = pg base + i"
  using unat_offset [OF assms] by (simp add: pg_div)

lemma free_range_loop_inv:
  assumes "pinv s A {}" and "aligned base 0" and "unat base + pages * 4096 \<le> 2 ^ 64"
    and "i \<le> pages" and "{pg base + i ..< pg base + pages} \<inter> cover (free_blocks s \<union> A) = {}"
  shows "pinv (free_range_loop base pages i s) A {} \<and>
    free_set (free_range_loop base pages i s) = free_set s \<union> {pg base + i ..< pg base + pages}"
  using assms
proof (induction base pages i s rule: free_range_loop.induct)
  case (1 base pages i s)
  show ?case
  proof (cases "i < pages")
    case True
    let ?o = "fit_order base i pages MAX_ORDER"
    let ?a = "base + of_nat i * PAGE_SIZE"
    let ?t = "phys_free_block ?a ?o s"
    have o: "?o \<le> MAX_ORDER" "i + 2 ^ ?o \<le> pages"
      using fit_order_bounds fit_order_fits [OF True] by blast+
    have b: "blk (?a, ?o) = {pg base + i ..< pg base + i + 2 ^ ?o}"
      using pg_offset [OF "1.prems"(3) True] by (simp add: blk_def)
    have al: "aligned ?a ?o"
    proof (cases "?o = 0")
      case True
      have "4096 dvd unat base + i * 4096" using "1.prems"(2) by (simp add: aligned_def)
      then show ?thesis
        using unat_offset [OF "1.prems"(3) \<open>i < pages\<close>] True by (simp add: aligned_def)
    next
      case False
      then show ?thesis
        using fit_order_mask [of base i pages MAX_ORDER] o(1) by (auto simp: MAX_ORDER_def intro: mask_aligned)
    qed
    have "blk (?a, ?o) \<inter> cover (free_blocks s \<union> A) = {}"
      unfolding b using o(2) "1.prems"(5) by (auto dest!: equalityD1)
    then have t: "pinv ?t A {}"
      using pinv_free_block [of s A ?a ?o "{}"] pinv_add [OF "1.prems"(1) o(1) al] by simp
    let ?rest = "{pg base + (i + 2 ^ ?o) ..< pg base + pages}"
    have "?rest \<subseteq> {pg base + i ..< pg base + pages}" by auto
    then have "?rest \<inter> cover (free_blocks s \<union> A) = {}" using "1.prems"(5) by blast
    moreover have "?rest \<inter> blk (?a, ?o) = {}" unfolding b by auto
    ultimately have "?rest \<inter> cover (free_blocks ?t \<union> A) = {}"
      by (simp add: Int_Un_distrib)
    then have "pinv (free_range_loop base pages (i + 2 ^ ?o) ?t) A {} \<and>
      free_set (free_range_loop base pages (i + 2 ^ ?o) ?t) =
        free_set ?t \<union> {pg base + (i + 2 ^ ?o) ..< pg base + pages}"
      using "1.IH" [OF True refl t "1.prems"(2,3)] o(2) by simp
    moreover have "free_range_loop base pages i s = free_range_loop base pages (i + 2 ^ ?o) ?t"
      using True by (simp add: free_range_loop.simps [of base pages i] Let_def)
    ultimately show ?thesis using b o(2) by auto
  qed (use "1.prems" in \<open>simp add: free_range_loop.simps\<close>)
qed

lemma free_range_loop_frame:
  "bump_base (free_range_loop base pages i s) = bump_base s \<and>
   bump_end (free_range_loop base pages i s) = bump_end s \<and>
   total_pages (phys (free_range_loop base pages i s)) = total_pages (phys s)"
proof (induction base pages i s rule: free_range_loop.induct)
  case (1 base pages i s)
  then show ?case
    by (cases "i < pages")
      (simp_all add: free_range_loop.simps [of base pages i] Let_def phys_free_block_def)
qed

lemma init_frame [simp]:
  "bump_base (phys_free_range base pages s) = bump_base s"
  "bump_end (phys_free_range base pages s) = bump_end s"
  "bump_base (note_bounds b e s) = bump_base s" "bump_end (note_bounds b e s) = bump_end s"
  "bump_base (add_total n s) = bump_base s" "bump_end (add_total n s) = bump_end s"
  "bump_base (reset_phys s) = bump_base s" "bump_end (reset_phys s) = bump_end s"
  "free_set (note_bounds b e s) = free_set s" "free_set (add_total n s) = free_set s"
  "total_pages (phys (phys_free_range base pages s)) = total_pages (phys s)"
  "total_pages (phys (note_bounds b e s)) = total_pages (phys s)"
  "total_pages (phys (add_total n s)) = total_pages (phys s) + n"
  by (simp_all add: phys_free_range_def free_range_loop_frame note_bounds_def add_total_def
    reset_phys_def free_set_def free_blocks_def)

lemma pinv_phys_cong:
  assumes "lists (phys t) = lists (phys s)" and "free_pages (phys t) = free_pages (phys s)"
    and "info t = info s"
  shows "pinv t A H \<longleftrightarrow> pinv s A H"
proof -
  have "free_blocks t = free_blocks s" using assms(1) by (simp add: free_blocks_def)
  with assms show ?thesis by (simp add: pinv_def)
qed

lemma pinv_frame [simp]:
  "pinv (note_bounds b e s) A H \<longleftrightarrow> pinv s A H"
  "pinv (add_total n s) A H \<longleftrightarrow> pinv s A H"
  by (rule pinv_phys_cong; simp add: note_bounds_def add_total_def)+

lemma aligned_and_not: "aligned (x AND NOT 4095) 0"
proof -
  have m: "(4095 :: u64) = mask 12" by (simp add: mask_eq_exp_minus_1)
  have "take_bit 12 (x AND NOT 4095) = 0"
    unfolding m by (rule bit_word_eqI) (auto simp: bit_simps)
  then have "take_bit 12 (unat (x AND NOT 4095)) = 0"
    by (simp only: unsigned_take_bit_eq [symmetric] unsigned_0)
  then show ?thesis by (simp add: aligned_def take_bit_eq_0_iff)
qed

lemma aligned_usable: "usable_range m = (b, e) \<Longrightarrow> aligned b 0 \<and> aligned e 0"
  using aligned_and_not by (auto simp: usable_range_def PAGE_ALIGN_def PAGE_ALIGN_DOWN_def PAGE_SIZE_def)

lemma range_pages:
  assumes "aligned b 0" and "aligned e 0" and "b \<le> e"
  shows "unat (drop_bit 12 (e - b)) = pg e - pg b \<and> pg b \<le> pg e \<and>
    unat b + unat (drop_bit 12 (e - b)) * 4096 \<le> 2 ^ 64"
proof -
  obtain k where k: "unat b = k * 4096" "pg b = k" using alignedE [OF assms(1)] by auto
  obtain l where l: "unat e = l * 4096" "pg e = l" using alignedE [OF assms(2)] by auto
  have le: "k \<le> l" using assms(3) k l by (simp add: word_le_nat_alt)
  have "unat (e - b) = l * 4096 - k * 4096"
    using assms(3) k l by (simp add: unat_sub_if' word_le_nat_alt)
  then have "unat (drop_bit 12 (e - b)) = l - k"
    by (simp add: drop_bit_eq_div unat_div diff_mult_distrib [symmetric])
  moreover have "l * 4096 < 2 ^ 64" using unat_lt_2p64 [of e] l by simp
  ultimately show ?thesis using k l le by (simp add: diff_mult_distrib)
qed

lemma phys_free_range_inv:
  assumes "pinv s {} {}" and "aligned b 0" and "aligned e 0" and "b \<le> e"
    and "{pg b ..< pg e} \<inter> free_set s = {}"
  defines "s' \<equiv> phys_free_range b (drop_bit 12 (e - b)) s"
  shows "pinv s' {} {} \<and> free_set s' = free_set s \<union> {pg b ..< pg e} \<and>
    free_pages (phys s') = free_pages (phys s) + drop_bit 12 (e - b)"
proof -
  let ?n = "drop_bit 12 (e - b)"
  note r = range_pages [OF assms(2,3,4)]
  have s': "pinv s' {} {} \<and> free_set s' = free_set s \<union> {pg b ..< pg b + unat ?n}"
    using free_range_loop_inv [OF assms(1,2), of "unat ?n" 0] r assms(5)
    by (simp add: s'_def phys_free_range_def free_set_def)
  then have f: "free_set s' = free_set s \<union> {pg b ..< pg e}" using r by simp
  have "finite (free_set s)"
    using pinv_finite [OF assms(1)] by (simp add: free_set_def cover_def)
  then have "card (free_set s') = card (free_set s) + (pg e - pg b)"
    unfolding f using assms(5) by (subst card_Un_disjoint) auto
  then have "free_pages (phys s') = free_pages (phys s) + of_nat (unat ?n)"
    using free_pages_card [OF assms(1)] free_pages_card [of s' "{}" "{}"] s' r by simp
  then show ?thesis using s' f by simp
qed

text \<open>The page frames a memory map entry offers, and those of the bump pool.\<close>

definition upages :: "mmap_entry \<Rightarrow> nat set" where
  "upages m = (if m_type m = ASD_MEM_FREE
     then {pg (fst (usable_range m)) ..< pg (snd (usable_range m))} else {})"

definition pool_pages :: "amm \<Rightarrow> nat set" where
  "pool_pages s = (if bump_base s = 0 then {} else {pg (bump_base s) ..< pg (bump_end s)})"

definition pool_ok :: "amm \<Rightarrow> bool" where
  "pool_ok s \<longleftrightarrow> aligned (bump_base s) 0 \<and> aligned (bump_end s) 0 \<and> bump_base s \<le> bump_end s"

definition entry_spec :: "nat set \<Rightarrow> amm \<Rightarrow> amm \<Rightarrow> bool" where
  "entry_spec P s t \<longleftrightarrow> pinv t {} {} \<and> free_set t = free_set s \<union> P \<and>
     bump_base t = bump_base s \<and> bump_end t = bump_end s \<and>
     total_pages (phys t) - free_pages (phys t) = total_pages (phys s) - free_pages (phys s)"

lemma entry_spec_refl: "pinv s {} {} \<Longrightarrow> entry_spec {} s s"
  by (simp add: entry_spec_def)

lemma entry_spec_trans:
  "entry_spec P s t \<Longrightarrow> entry_spec Q t u \<Longrightarrow> entry_spec (P \<union> Q) s u"
  by (auto simp: entry_spec_def)

lemma entry_spec_range:
  assumes "pinv s {} {}" and "aligned b 0" and "aligned e 0" and "b \<le> e"
    and "{pg b ..< pg e} \<inter> free_set s = {}"
  shows "entry_spec {pg b ..< pg e} s
    (add_total (drop_bit 12 (e - b)) (phys_free_range b (drop_bit 12 (e - b)) s))"
proof -
  let ?t = "phys_free_range b (drop_bit 12 (e - b)) s"
  have "free_pages (phys (add_total (drop_bit 12 (e - b)) ?t)) = free_pages (phys ?t)"
    by (simp add: add_total_def)
  then show ?thesis
    using phys_free_range_inv [OF assms] by (simp add: entry_spec_def)
qed

lemma pg_le: "aligned a 0 \<Longrightarrow> aligned b 0 \<Longrightarrow> pg a \<le> pg b \<longleftrightarrow> a \<le> b"
  by (elim alignedE) (simp add: word_le_nat_alt)

lemma pg_less: "aligned a 0 \<Longrightarrow> aligned b 0 \<Longrightarrow> pg a < pg b \<longleftrightarrow> a < b"
  using pg_le [of b a] by (simp add: not_le [symmetric])

text \<open>An entry that meets the pool gives the part below the pool and the part above it.\<close>

lemma entry_spec_around_pool:
  assumes "pinv s {} {}" and "aligned b 0" and "aligned e 0" and "pool_ok s"
    and "{pg b ..< pg e} \<inter> free_set s = {}"
    and "bump_base s \<noteq> 0" and "b < bump_end s" and "bump_base s < e"
  defines "s1 \<equiv> (if b < bump_base s
      then let n = drop_bit 12 (bump_base s - b) in add_total n (phys_free_range b n s) else s)"
  shows "entry_spec ({pg b ..< pg e} - pool_pages s) s
    (if e > bump_end s1
     then let n = drop_bit 12 (e - bump_end s1) in add_total n (phys_free_range (bump_end s1) n s1)
     else s1)"
proof -
  let ?lo = "{pg b ..< pg (bump_base s)}" and ?hi = "{pg (bump_end s) ..< pg e}"
  have al: "aligned (bump_base s) 0" "aligned (bump_end s) 0" "bump_base s \<le> bump_end s"
    using assms(4) by (simp_all add: pool_ok_def)
  note pgs = pg_less [OF assms(2) al(2)] pg_less [OF al(1) assms(3)] pg_le [OF al(1,2)]
    pg_less [OF assms(2) al(1)] pg_less [OF al(2) assms(3)]
  have one: "entry_spec ?lo s s1"
  proof (cases "b < bump_base s")
    case True
    have "?lo \<subseteq> {pg b ..< pg e}" using assms(8) pgs by auto
    then have "?lo \<inter> free_set s = {}" using assms(5) by blast
    then show ?thesis
      using entry_spec_range [OF assms(1,2) al(1)] True by (simp add: s1_def Let_def)
  next
    case False
    then have "?lo = {}" using pgs by auto
    then show ?thesis using False assms(1) by (simp add: s1_def entry_spec_refl)
  qed
  have be: "bump_end s1 = bump_end s" and i1: "pinv s1 {} {}"
    and f1: "free_set s1 = free_set s \<union> ?lo" using one by (simp_all add: entry_spec_def)
  have split: "{pg b ..< pg e} - pool_pages s = ?lo \<union> ?hi"
    using assms(6-8) pgs by (auto simp: pool_pages_def)
  show ?thesis
  proof (cases "e > bump_end s1")
    case True
    have "?hi \<subseteq> {pg b ..< pg e}" "?hi \<inter> ?lo = {}" using assms(7) pgs al(3) by auto
    then have "?hi \<inter> free_set s1 = {}" unfolding f1 using assms(5) by blast
    then have "entry_spec ?hi s1 (let n = drop_bit 12 (e - bump_end s1) in
        add_total n (phys_free_range (bump_end s1) n s1))"
      using entry_spec_range [OF i1 al(2) assms(3)] True be by (simp add: Let_def)
    then show ?thesis using entry_spec_trans [OF one] True split by simp
  next
    case False
    then have "?hi = {}" using pgs be by auto
    then show ?thesis using one False split by simp
  qed
qed

lemma phys_init_entry_inv:
  assumes "pinv s {} {}" and "pool_ok s" and "upages m \<inter> free_set s = {}"
  shows "entry_spec (upages m - pool_pages s) s (phys_init_entry m s)"
proof (cases "m_type m = ASD_MEM_FREE \<and> fst (usable_range m) < snd (usable_range m)")
  case True
  obtain b e where u: "usable_range m = (b, e)" by (cases "usable_range m")
  let ?t = "note_bounds b e s"
  have be: "b < e" "aligned b 0" "aligned e 0" using True u aligned_usable [OF u] by auto
  have t: "pinv ?t {} {}" "pool_ok ?t" "pool_pages ?t = pool_pages s"
    "{pg b ..< pg e} \<inter> free_set ?t = {}" "upages m = {pg b ..< pg e}"
    using assms True u by (auto simp: pool_ok_def pool_pages_def upages_def)
  have base: "entry_spec P s x" if "entry_spec P ?t x" for P x
  proof -
    have "free_pages (phys ?t) = free_pages (phys s)" by (simp add: note_bounds_def)
    then show ?thesis using that by (simp add: entry_spec_def)
  qed
  show ?thesis
  proof (cases "bump_base s \<noteq> 0 \<and> b < bump_end s \<and> bump_base s < e")
    case pool: True
    have "\<not> e \<le> b" using be(1) by simp
    with pool show ?thesis
      using base [OF entry_spec_around_pool [OF t(1) be(2,3) t(2,4)]] t(3,5) True u
      by (simp add: phys_init_entry_def Let_def cong: if_cong)
  next
    case False
    have "{pg b ..< pg e} \<inter> pool_pages s = {}"
      using False assms(2) pg_le [of "bump_end s" b] pg_le [of e "bump_base s"] be(2,3)
      by (auto simp: pool_pages_def pool_ok_def not_less)
    then have "{pg b ..< pg e} - pool_pages s = {pg b ..< pg e}" by blast
    then show ?thesis
      using base [OF entry_spec_range [OF t(1) be(2,3) _ t(4)]] False True u be(1) t(5)
      by (auto simp: phys_init_entry_def Let_def)
  qed
next
  case False
  then have "upages m = {}"
    using aligned_usable [of m] pg_le [of "snd (usable_range m)" "fst (usable_range m)"]
    by (cases "usable_range m") (auto simp: upages_def)
  moreover have "phys_init_entry m s = s"
    using False by (cases "usable_range m") (auto simp: phys_init_entry_def)
  ultimately show ?thesis using assms(1) by (simp add: entry_spec_refl)
qed

lemma fold_entries_inv:
  assumes "pinv s {} {}" and "pool_ok s"
    and "sorted_wrt (\<lambda>m m'. upages m \<inter> upages m' = {}) ms"
    and "\<And>m. m \<in> set ms \<Longrightarrow> upages m \<inter> free_set s = {}"
  shows "entry_spec ((\<Union>m\<in>set ms. upages m) - pool_pages s) s (fold phys_init_entry ms s)"
  using assms
proof (induction ms arbitrary: s)
  case (Cons m ms)
  let ?t = "phys_init_entry m s"
  have e: "entry_spec (upages m - pool_pages s) s ?t"
    using phys_init_entry_inv [OF Cons.prems(1,2)] Cons.prems(4) by simp
  then have t: "pinv ?t {} {}" "pool_ok ?t" "pool_pages ?t = pool_pages s"
    "free_set ?t = free_set s \<union> (upages m - pool_pages s)"
    using Cons.prems(2) by (auto simp: entry_spec_def pool_ok_def pool_pages_def)
  have d: "upages m' \<inter> free_set ?t = {}" if "m' \<in> set ms" for m'
  proof -
    have "upages m' \<inter> free_set s = {}" using Cons.prems(4) that by simp
    moreover have "upages m \<inter> upages m' = {}" using Cons.prems(3) that by simp
    ultimately show ?thesis unfolding t(4) by blast
  qed
  have "sorted_wrt (\<lambda>m m'. upages m \<inter> upages m' = {}) ms" using Cons.prems(3) by simp
  then have "entry_spec ((\<Union>m\<in>set ms. upages m) - pool_pages s) ?t (fold phys_init_entry ms ?t)"
    using Cons.IH [OF t(1,2) _ d] t(3) by simp
  then have "entry_spec ((upages m - pool_pages s) \<union> ((\<Union>m\<in>set ms. upages m) - pool_pages s)) s
      (fold phys_init_entry ms ?t)"
    by (rule entry_spec_trans [OF e])
  moreover have "(upages m - pool_pages s) \<union> ((\<Union>m\<in>set ms. upages m) - pool_pages s) =
      (\<Union>m\<in>set (m # ms). upages m) - pool_pages s" by auto
  ultimately show ?case by simp
qed (simp add: entry_spec_refl)

lemma reset_phys_inv:
  assumes "\<And>p. (pflags (info s p) AND PAGE_FREE) = 0"
  shows "pinv (reset_phys s) {} {} \<and> free_set (reset_phys s) = {} \<and>
    pool_pages (reset_phys s) = pool_pages s \<and> (pool_ok (reset_phys s) \<longleftrightarrow> pool_ok s)"
  using assms
  by (auto simp: pinv_def reset_phys_def free_blocks_def tiling_def free_set_def pool_pages_def pool_ok_def)

section \<open>Properties\<close>

text \<open>
  C28. Start of the buddy allocator. Given a memory map whose free entries do not overlap,
  a bump pool that is a page-aligned range and a page information array that marks
  nothing free (it is zeroed when it is mapped), \<open>amm_phys_init\<close> puts exactly the pages of
  the free entries outside the bump pool on the free lists, as aligned blocks that do not
  overlap, and \<open>total_pages\<close> and \<open>free_pages\<close> both count them.
\<close>

theorem phys_init_tiles:
  assumes "\<forall>p. (pflags (info s p) AND PAGE_FREE) = 0" and "pool_ok s"
    and "sorted_wrt (\<lambda>m m'. upages m \<inter> upages m' = {}) ms"
  shows "pinv (amm_phys_init ms s) {} {} \<and>
    free_set (amm_phys_init ms s) = (\<Union>m\<in>set ms. upages m) - pool_pages s \<and>
    total_pages (phys (amm_phys_init ms s)) = free_pages (phys (amm_phys_init ms s))"
proof -
  have r: "pinv (reset_phys s) {} {}" "free_set (reset_phys s) = {}"
    "pool_pages (reset_phys s) = pool_pages s" "pool_ok (reset_phys s)"
    using reset_phys_inv [of s] assms(1,2) by auto
  have "entry_spec ((\<Union>m\<in>set ms. upages m) - pool_pages s) (reset_phys s) (amm_phys_init ms s)"
    unfolding amm_phys_init_def using fold_entries_inv [OF r(1,4) assms(3)] r(2,3) by simp
  then show ?thesis using r(2) by (simp add: entry_spec_def reset_phys_def)
qed

definition blank_amm :: amm where
  "blank_amm = \<lparr>early_boot = False, bump_base = 0x200000, bump_cur = 0x200000, bump_end = 0x201000,
     phys = \<lparr>lists = (\<lambda>_. []), free_pages = 0, total_pages = 0, phys_base = 0, phys_top = 0\<rparr>,
     info = (\<lambda>_. \<lparr>pflags = 0, porder = 0, refcount = 0, map_count = 0\<rparr>),
     pmem = (\<lambda>_. 0), kernel_cr3 = 0\<rparr>"

definition small_map :: "mmap_entry list" where
  "small_map = [\<lparr>m_base = 0x1FE000, m_pages = 8, m_type = 0\<rparr>,
     \<lparr>m_base = 0x300000, m_pages = 1, m_type = 1\<rparr>]"

lemma blank_pool_ok: "pool_ok blank_amm"
  by (simp add: pool_ok_def blank_amm_def aligned_def)

lemma upages_small: "upages (hd small_map) = {0x1FE ..< 0x206}" "upages (small_map ! 1) = {}"
  by code_simp+

lemma small_map_disjoint: "sorted_wrt (\<lambda>m m'. upages m \<inter> upages m' = {}) small_map"
  using upages_small by (simp add: small_map_def)

theorem phys_init_tiles_witness:
  "pinv (amm_phys_init small_map blank_amm) {} {} \<and>
   free_set (amm_phys_init small_map blank_amm) = {0x1FE, 0x1FF, 0x201, 0x202, 0x203, 0x204, 0x205}"
proof -
  have "\<forall>p. (pflags (info blank_amm p) AND PAGE_FREE) = 0" by (simp add: blank_amm_def)
  from phys_init_tiles [OF this blank_pool_ok small_map_disjoint]
  have i: "pinv (amm_phys_init small_map blank_amm) {} {}"
    and f: "free_set (amm_phys_init small_map blank_amm) =
      (\<Union>m\<in>set small_map. upages m) - pool_pages blank_amm" by auto
  have "pool_pages blank_amm = {0x200}" by code_simp
  moreover have "(\<Union>m\<in>set small_map. upages m) = {0x1FE ..< 0x206}"
    using upages_small by (simp add: small_map_def)
  moreover have "{0x1FE ..< 0x206} - {0x200 :: nat} = {0x1FE, 0x1FF, 0x201, 0x202, 0x203, 0x204, 0x205}"
    by auto
  ultimately show ?thesis using i f by simp
qed

lemma alloc_spec:
  assumes "pinv s A {}" and "\<not> early_boot s" and "order \<le> MAX_ORDER"
    and "amm_phys_alloc order s = (p, s')"
  shows "if \<exists>ord. order \<le> ord \<and> ord \<le> MAX_ORDER \<and> lists (phys s) ord \<noteq> []
    then pinv s' (insert (p, order) A) {} \<and> \<not> early_boot s' \<and> aligned p order \<and>
      blk (p, order) \<subseteq> free_set s \<and> blk (p, order) \<inter> cover A = {} \<and>
      free_set s' = free_set s - blk (p, order) \<and>
      free_pages (phys s') = free_pages (phys s) - 2 ^ order
    else p = 0 \<and> s' = s"
proof (cases "\<exists>ord. order \<le> ord \<and> ord \<le> MAX_ORDER \<and> lists (phys s) ord \<noteq> []")
  case True
  have "alloc_loop order order s = (p, s')" using assms by (simp add: amm_phys_alloc_def)
  from alloc_loop_inv [OF assms(1) order_refl this] True assms(2)
  have r: "pinv s' (insert (p, order) A) {}" "free_set s = free_set s' \<union> blk (p, order)"
    "\<not> early_boot s'" by auto
  have al: "aligned p order" using tiling_blockD [OF pinv_tiling [OF r(1)], of p order] by simp
  have d': "free_set s' \<inter> blk (p, order) = {}" using free_set_disjoint [OF r(1)] by auto
  have d: "blk (p, order) \<inter> cover A = {}" using free_set_disjoint [OF assms(1)] r(2) by auto
  have "finite (free_set s')" using pinv_finite [OF r(1)] by (simp add: free_set_def cover_def)
  then have "card (free_set s) = card (free_set s') + 2 ^ order"
    unfolding r(2) using d' by (subst card_Un_disjoint) auto
  then have "free_pages (phys s) = free_pages (phys s') + 2 ^ order"
    using free_pages_card [OF r(1)] free_pages_card [OF assms(1)] by simp
  then show ?thesis using True r al d d' by auto
next
  case False
  have "alloc_loop order order s = (p, s')" using assms by (simp add: amm_phys_alloc_def)
  from alloc_loop_inv [OF assms(1) order_refl this] show ?thesis by (simp only: False if_False)
qed

lemma free_spec:
  assumes "pinv s A {}" and "(p, order) \<in> A"
  shows "pinv (amm_phys_free p order s) (A - {(p, order)}) {} \<and>
    free_set (amm_phys_free p order s) = free_set s \<union> blk (p, order) \<and>
    early_boot (amm_phys_free p order s) = early_boot s \<and>
    free_pages (phys (amm_phys_free p order s)) = free_pages (phys s) + 2 ^ order"
proof -
  let ?s = "amm_phys_free p order s"
  have r: "pinv ?s (A - {(p, order)}) {}" "free_set ?s = free_set s \<union> blk (p, order)"
    "early_boot ?s = early_boot s"
    using free_loop_inv [OF pinv_release [OF assms]] by (auto simp: amm_phys_free_def)
  have "free_set s \<inter> blk (p, order) = {}"
    using free_set_disjoint [OF assms(1)] assms(2) by (auto simp: cover_def)
  moreover have "finite (free_set s)"
    using pinv_finite [OF assms(1)] by (simp add: free_set_def cover_def)
  ultimately have "card (free_set ?s) = card (free_set s) + 2 ^ order"
    unfolding r(2) by (subst card_Un_disjoint) auto
  then show ?thesis
    using r free_pages_card [OF r(1)] free_pages_card [OF assms(1)] by simp
qed

text \<open>
  C5. \<open>amm_phys_alloc\<close> after early boot. If some free list of the requested order or above is
  not empty, the call returns a naturally aligned block of exactly that order that was
  entirely free and overlaps no block handed out before, takes exactly its pages off the
  free lists and off the counter, and leaves a well-formed allocator; otherwise it
  returns 0 and changes nothing.
\<close>

theorem phys_alloc_correct:
  assumes "pinv s A {}" and "\<not> early_boot s" and "order \<le> MAX_ORDER"
    and "amm_phys_alloc order s = (p, s')"
  shows "if \<exists>ord. order \<le> ord \<and> ord \<le> MAX_ORDER \<and> lists (phys s) ord \<noteq> []
    then pinv s' (insert (p, order) A) {} \<and> aligned p order \<and>
      blk (p, order) \<subseteq> free_set s \<and> blk (p, order) \<inter> cover A = {} \<and>
      free_set s' = free_set s - blk (p, order) \<and>
      free_pages (phys s') = free_pages (phys s) - 2 ^ order
    else p = 0 \<and> s' = s"
  using alloc_spec [OF assms] by (auto split: if_splits)

definition tiny_amm :: amm where
  "tiny_amm = phys_free_block 0x2000 1 (reset_phys blank_amm)"

lemma tiny_amm_inv: "pinv tiny_amm {} {}"
proof -
  have r: "pinv (reset_phys blank_amm) {} {}" using reset_phys_inv [of blank_amm]
    by (simp add: blank_amm_def)
  have "free_blocks (reset_phys blank_amm) = {}" by (simp add: free_blocks_def reset_phys_def)
  then have "pinv (reset_phys blank_amm) {} {(0x2000, 1)}"
    by (intro pinv_add [OF r]) (simp_all add: MAX_ORDER_def aligned_def)
  then show ?thesis unfolding tiny_amm_def by (intro pinv_free_block) auto
qed

lemma tiny_amm_alloc:
  "\<not> early_boot tiny_amm" "lists (phys tiny_amm) 1 = [0x2000]"
  "fst (amm_phys_alloc 0 tiny_amm) = 0x2000"
  by (simp_all add: tiny_amm_def blank_amm_def reset_phys_def phys_free_block_def
    amm_phys_alloc_def MAX_ORDER_def alloc_loop.simps)

theorem phys_alloc_correct_witness:
  "\<exists>s'. amm_phys_alloc 0 tiny_amm = (0x2000, s') \<and> pinv s' {(0x2000, 0)} {}"
proof -
  have "amm_phys_alloc 0 tiny_amm = (0x2000, snd (amm_phys_alloc 0 tiny_amm))"
    by (simp add: prod_eq_iff tiny_amm_alloc(3))
  from phys_alloc_correct [OF tiny_amm_inv tiny_amm_alloc(1) _ this] this
  show ?thesis using tiny_amm_alloc(2)
    by (auto simp: MAX_ORDER_def dest!: spec [of _ 1] split: if_splits)
qed

text \<open>
  C6. \<open>amm_phys_free\<close> of a block that is handed out returns exactly its pages to the free
  lists, merges it with its buddies only when they really are free, and leaves a
  well-formed allocator: no page is lost, and none is on two blocks.
\<close>

theorem phys_free_correct:
  assumes "pinv s A {}" and "(p, order) \<in> A"
  shows "pinv (amm_phys_free p order s) (A - {(p, order)}) {} \<and>
    free_set (amm_phys_free p order s) = free_set s \<union> blk (p, order) \<and>
    free_pages (phys (amm_phys_free p order s)) = free_pages (phys s) + 2 ^ order"
  using free_spec [OF assms] by simp

lemma tiny_amm_allocated: "pinv (snd (amm_phys_alloc 0 tiny_amm)) {(0x2000, 0)} {}"
proof -
  have "amm_phys_alloc 0 tiny_amm = (0x2000, snd (amm_phys_alloc 0 tiny_amm))"
    by (simp add: prod_eq_iff tiny_amm_alloc(3))
  from alloc_spec [OF tiny_amm_inv tiny_amm_alloc(1) _ this] show ?thesis
    using tiny_amm_alloc(2) by (auto simp: MAX_ORDER_def dest!: spec [of _ 1] split: if_splits)
qed

theorem phys_free_correct_witness:
  "pinv (amm_phys_free 0x2000 0 (snd (amm_phys_alloc 0 tiny_amm))) {} {} \<and>
   free_set (amm_phys_free 0x2000 0 (snd (amm_phys_alloc 0 tiny_amm))) =
     free_set (snd (amm_phys_alloc 0 tiny_amm)) \<union> {2 ..< 3}"
proof -
  have "(0x2000, 0) \<in> {(0x2000 :: u64, 0 :: nat)}" by simp
  from phys_free_correct [OF tiny_amm_allocated this] show ?thesis by (simp add: blk_def pg_div)
qed

text \<open>
  Histories of calls: \<open>A\<close> collects the blocks returned and not yet given back. A returned 0 is
  a failed allocation to every caller.
\<close>

inductive phys_reach :: "amm \<Rightarrow> amm \<Rightarrow> (u64 \<times> nat) set \<Rightarrow> bool" for s0 where
  start: "phys_reach s0 s0 {}"
| alloc: "phys_reach s0 s A \<Longrightarrow> order \<le> MAX_ORDER \<Longrightarrow> amm_phys_alloc order s = (p, s') \<Longrightarrow> p \<noteq> 0 \<Longrightarrow>
    phys_reach s0 s' (insert (p, order) A)"
| alloc_fail: "phys_reach s0 s A \<Longrightarrow> order \<le> MAX_ORDER \<Longrightarrow> amm_phys_alloc order s = (0, s') \<Longrightarrow>
    phys_reach s0 s' A"
| free: "phys_reach s0 s A \<Longrightarrow> (p, order) \<in> A \<Longrightarrow>
    phys_reach s0 (amm_phys_free p order s) (A - {(p, order)})"

lemma cover_remove:
  assumes "tiling A" and "b \<in> A"
  shows "cover A = cover (A - {b}) \<union> blk b \<and> cover (A - {b}) \<inter> blk b = {}"
proof -
  have "insert b (A - {b}) = A" using assms(2) by blast
  then have "cover A = cover (A - {b}) \<union> blk b" by (metis cover_simps(2) Un_commute)
  moreover have "tiling ({b} \<union> (A - {b}))" using assms by (simp add: insert_absorb)
  then have "blk b \<inter> cover (A - {b}) = {}" by (rule tiling_disjoint) auto
  ultimately show ?thesis by blast
qed

text \<open>
  What \<open>amm_phys_alloc\<close> does with a block whose address is 0: it leaves the free lists, but to the
  caller the allocation has failed. \<open>L\<close> collects these blocks.
\<close>

lemma reach_lost:
  assumes "pinv s0 {} {}" and "\<not> early_boot s0" and "phys_reach s0 s A"
  shows "\<exists>L. L \<subseteq> {0} \<times> UNIV \<and> A \<inter> {0} \<times> UNIV = {} \<and> pinv s (A \<union> L) {} \<and> \<not> early_boot s \<and>
    free_set s \<union> cover (A \<union> L) = free_set s0"
  using assms(3)
proof (induction rule: phys_reach.induct)
  case start
  then show ?case using assms(1,2) by (intro exI [of _ "{}"]) simp
next
  case (alloc s A order p s')
  then obtain L where i: "L \<subseteq> {0} \<times> UNIV" "A \<inter> {0} \<times> UNIV = {}" "pinv s (A \<union> L) {}" "\<not> early_boot s"
    "free_set s \<union> cover (A \<union> L) = free_set s0" by blast
  have "pinv s' (insert (p, order) (A \<union> L)) {} \<and> \<not> early_boot s' \<and> blk (p, order) \<subseteq> free_set s \<and>
      free_set s' = free_set s - blk (p, order)"
    using alloc_spec [OF i(3,4) alloc(2,3)] alloc(4) by (auto split: if_splits)
  then show ?case using i alloc(4) by (intro exI [of _ L]) auto
next
  case (alloc_fail s A order s')
  then obtain L where i: "L \<subseteq> {0} \<times> UNIV" "A \<inter> {0} \<times> UNIV = {}" "pinv s (A \<union> L) {}" "\<not> early_boot s"
    "free_set s \<union> cover (A \<union> L) = free_set s0" by blast
  show ?case
  proof (cases "s' = s")
    case True
    then show ?thesis using i by (intro exI [of _ L]) auto
  next
    case False
    then have "pinv s' (insert (0, order) (A \<union> L)) {} \<and> \<not> early_boot s' \<and> blk (0, order) \<subseteq> free_set s \<and>
        free_set s' = free_set s - blk (0, order)"
      using alloc_spec [OF i(3,4) alloc_fail(2,3)] by (auto split: if_splits)
    then show ?thesis using i by (intro exI [of _ "insert (0, order) L"]) auto
  qed
next
  case (free s A p order)
  then obtain L where i: "L \<subseteq> {0} \<times> UNIV" "A \<inter> {0} \<times> UNIV = {}" "pinv s (A \<union> L) {}" "\<not> early_boot s"
    "free_set s \<union> cover (A \<union> L) = free_set s0" by blast
  have m: "(p, order) \<in> A \<union> L" and e: "A \<union> L - {(p, order)} = A - {(p, order)} \<union> L"
    using free(2) i(1,2) by auto
  have "tiling (A \<union> L)" using tiling_subset [OF pinv_tiling [OF i(3)]] by blast
  then have "cover (A \<union> L) = cover (A - {(p, order)} \<union> L) \<union> blk (p, order)"
    using cover_remove [OF _ m] e by simp
  then show ?case using free_spec [OF i(3) m] i unfolding e by (intro exI [of _ L]) auto
qed



text \<open>
  Page 0 is lost, not allocated: when the head of the free list of single pages is the
  page at address 0, \<open>amm_phys_alloc\<close> takes it off the list and returns 0, which every
  caller reads as out of memory.
\<close>

theorem page_zero_lost:
  assumes "\<not> early_boot s" and "lists (phys s) 0 = 0 # ps"
  shows "fst (amm_phys_alloc 0 s) = 0 \<and> lists (phys (snd (amm_phys_alloc 0 s))) 0 = ps"
  using assms by (simp add: amm_phys_alloc_def alloc_loop.simps take_block_def mark_alloc_def)

theorem page_zero_lost_witness:
  "fst (amm_phys_alloc 0 (phys_free_block 0 0 tiny_amm)) = 0 \<and>
   lists (phys (snd (amm_phys_alloc 0 (phys_free_block 0 0 tiny_amm)))) 0 = []"
proof -
  have "\<not> early_boot (phys_free_block 0 0 tiny_amm)" "lists (phys (phys_free_block 0 0 tiny_amm)) 0 = [0]"
    by (simp_all add: tiny_amm_def phys_free_block_def reset_phys_def blank_amm_def)
  from page_zero_lost [OF this] show ?thesis .
qed

end
