(* ===== verification/Slab.thy ===== *)
theory Slab
  imports PhysMem
begin

text \<open>
  The kernel heap of \<open>src/kernel/mm/mm.c\<close>: slabs of equal objects on top of the buddy allocator.
  A slab header, which the code keeps at the start of the slab's first page, is a record with
  that address; pointers are physical addresses, as \<open>phys_to_virt\<close> is a fixed offset. \<open>None\<close> is a
  size for which the search of the order never ends, or a \<open>kfree\<close> that takes ordinary memory for
  a slab header.
\<close>

section \<open>State and operations\<close>

definition SLAB_CLASSES :: nat where "SLAB_CLASSES = 10"
definition slab_sizes :: "nat list" where
  "slab_sizes = [8, 16, 32, 64, 128, 256, 512, 1024, 2048, 4096]"
definition SLAB_HDR_SZ :: nat where "SLAB_HDR_SZ = 64"

record slab_hdr =
  s_pa :: u64
  s_free_count :: nat
  s_obj_size :: nat
  s_capacity :: nat
  s_bitmap :: "bool list"

record kheap =
  mm :: amm
  g_slab_heads :: "nat \<Rightarrow> slab_hdr list"

definition slab_class :: "nat \<Rightarrow> nat option" where
  "slab_class n = find_index (\<lambda>s. n \<le> s) slab_sizes"

definition slab_order :: "nat \<Rightarrow> nat" where
  "slab_order cls = (if slab_sizes ! cls \<ge> 2048 then 1 else 0)"

definition slab_new :: "nat \<Rightarrow> amm \<Rightarrow> slab_hdr option \<times> amm" where
  "slab_new cls m =
     (case amm_phys_alloc (slab_order cls) m of (pa, m) \<Rightarrow>
        if pa = 0 then (None, m)
        else
          let cap = (2 ^ slab_order cls * 4096 - SLAB_HDR_SZ) div (slab_sizes ! cls) in
          (Some \<lparr>s_pa = pa, s_free_count = cap, s_obj_size = slab_sizes ! cls,
                 s_capacity = (if cap > 288 then 288 else cap), s_bitmap = replicate 288 False\<rparr>,
           zero_mem pa (of_nat SLAB_HDR_SZ) m))"

partial_function (option) large_order :: "u64 \<Rightarrow> nat \<Rightarrow> nat option" where
  "large_order sz order =
     (if push_bit order PAGE_SIZE < sz then large_order sz (Suc order) else Some order)"

text \<open>The slot that is taken: the first clear bit, or slot 0 if the scan finds none.\<close>

definition first_slot :: "slab_hdr \<Rightarrow> nat" where
  "first_slot s = (case find_index Not (take (s_capacity s) (s_bitmap s)) of None \<Rightarrow> 0 | Some i \<Rightarrow> i)"

definition take_slot :: "slab_hdr \<Rightarrow> slab_hdr" where
  "take_slot s = s\<lparr>s_bitmap := (s_bitmap s)[first_slot s := True], s_free_count := s_free_count s - 1\<rparr>"

definition obj_addr :: "slab_hdr \<Rightarrow> nat \<Rightarrow> u64" where
  "obj_addr s i = s_pa s + of_nat (SLAB_HDR_SZ + i * s_obj_size s)"

definition with_room :: "nat \<Rightarrow> kheap \<Rightarrow> nat option \<times> kheap" where
  "with_room cls h =
     (case find_index (\<lambda>s. s_free_count s \<noteq> 0) (g_slab_heads h cls) of
        Some k \<Rightarrow> (Some k, h)
      | None \<Rightarrow> (case slab_new cls (mm h) of
            (None, m) \<Rightarrow> (None, h\<lparr>mm := m\<rparr>)
          | (Some s, m) \<Rightarrow> (Some 0, h\<lparr>mm := m,
              g_slab_heads := (g_slab_heads h)(cls := s # g_slab_heads h cls)\<rparr>)))"

definition kmalloc :: "u64 \<Rightarrow> kheap \<Rightarrow> (u64 \<times> kheap) option" where
  "kmalloc sz h =
     (if sz = 0 then Some (0, h)
      else case slab_class (unat sz) of
        None \<Rightarrow> (case large_order sz 0 of None \<Rightarrow> None
          | Some order \<Rightarrow> (case amm_phys_alloc order (mm h) of (pa, m) \<Rightarrow> Some (pa, h\<lparr>mm := m\<rparr>)))
      | Some cls \<Rightarrow> (case with_room cls h of
            (None, h) \<Rightarrow> Some (0, h)
          | (Some k, h) \<Rightarrow>
              let s = g_slab_heads h cls ! k in
              Some (obj_addr s (first_slot s),
                h\<lparr>g_slab_heads := (g_slab_heads h)(cls := (g_slab_heads h cls)[k := take_slot s])\<rparr>)))"

text \<open>Where the slab with a given address is: its class and its place in the list.\<close>

definition slab_at :: "u64 \<Rightarrow> kheap \<Rightarrow> (nat \<times> nat) option" where
  "slab_at a h =
     (case find_index (\<lambda>c. \<exists>s \<in> set (g_slab_heads h c). s_pa s = a) [0..<SLAB_CLASSES] of None \<Rightarrow> None
      | Some c \<Rightarrow> (case find_index (\<lambda>s. s_pa s = a) (g_slab_heads h c) of None \<Rightarrow> None
          | Some k \<Rightarrow> Some (c, k)))"

text \<open>The \<open>obj_size\<close> field that \<open>kfree\<close> reads at a page: that of a slab, or bytes 4 to 7 of
  whatever the page holds.\<close>

definition obj_size_at :: "u64 \<Rightarrow> kheap \<Rightarrow> nat" where
  "obj_size_at a h =
     (case slab_at a h of Some (c, k) \<Rightarrow> s_obj_size (g_slab_heads h c ! k)
      | None \<Rightarrow> unat (drop_bit 32 (pmem (mm h) a)))"

definition looks_like_slab :: "u64 \<Rightarrow> kheap \<Rightarrow> bool" where
  "looks_like_slab a h \<longleftrightarrow> 8 \<le> obj_size_at a h \<and> obj_size_at a h \<le> 4096"

definition free_pages_of :: "u64 \<Rightarrow> kheap \<Rightarrow> kheap" where
  "free_pages_of ptr h =
     h\<lparr>mm := amm_phys_free ptr (unat (porder (info (mm h) (pfn ptr)))) (mm h)\<rparr>"

definition slab_base :: "u64 \<Rightarrow> kheap \<Rightarrow> u64" where
  "slab_base ptr h =
     (let s = (ptr AND NOT (PAGE_SIZE - 1)) in
      if porder (info (mm h) (pfn s)) = 1 \<and> unat ptr mod 8192 \<ge> 4096 then s - PAGE_SIZE else s)"

definition clear_slot :: "nat \<Rightarrow> slab_hdr \<Rightarrow> slab_hdr" where
  "clear_slot i s =
     (if i \<ge> s_capacity s then s
      else if \<not> s_bitmap s ! i then s
      else s\<lparr>s_bitmap := (s_bitmap s)[i := False], s_free_count := s_free_count s + 1\<rparr>)"

definition kfree :: "u64 \<Rightarrow> kheap \<Rightarrow> kheap option" where
  "kfree ptr h =
     (if ptr = 0 then Some h
      else if unat ptr mod 4096 = 0 \<and> looks_like_slab ptr h then Some (free_pages_of ptr h)
      else
        let a = slab_base ptr h in
        if \<not> looks_like_slab a h then Some (free_pages_of ptr h)
        else case slab_at a h of None \<Rightarrow> None
          | Some (c, k) \<Rightarrow>
              let s = g_slab_heads h c ! k;
                  slot = unat (ptr - (a + of_nat SLAB_HDR_SZ)) div s_obj_size s in
              Some (h\<lparr>g_slab_heads := (g_slab_heads h)(c := (g_slab_heads h c)[k := clear_slot slot s])\<rparr>))"

section \<open>Invariant\<close>

definition class_cap :: "nat \<Rightarrow> nat" where
  "class_cap cls = min 288 ((2 ^ slab_order cls * 4096 - SLAB_HDR_SZ) div (slab_sizes ! cls))"

definition slab_ok :: "nat \<Rightarrow> slab_hdr \<Rightarrow> bool" where
  "slab_ok cls s \<longleftrightarrow> s_pa s \<noteq> 0 \<and> s_obj_size s = slab_sizes ! cls \<and> s_capacity s = class_cap cls \<and>
     length (s_bitmap s) = 288 \<and> (\<forall>i. class_cap cls \<le> i \<longrightarrow> i < 288 \<longrightarrow> \<not> s_bitmap s ! i) \<and>
     (cls \<noteq> 0 \<longrightarrow> s_free_count s = length (filter Not (take (class_cap cls) (s_bitmap s))))"

definition slabs :: "kheap \<Rightarrow> (nat \<times> u64) set" where
  "slabs h = {(c, s_pa s) | c s. c < SLAB_CLASSES \<and> s \<in> set (g_slab_heads h c)}"

definition heap_inv :: "kheap \<Rightarrow> (u64 \<times> nat) set \<Rightarrow> bool" where
  "heap_inv h A \<longleftrightarrow> pinv (mm h) A {} \<and> \<not> early_boot (mm h) \<and>
     (\<forall>c < SLAB_CLASSES. distinct (map s_pa (g_slab_heads h c)) \<and>
        (\<forall>s \<in> set (g_slab_heads h c). slab_ok c s \<and> (s_pa s, slab_order c) \<in> A)) \<and>
     (\<forall>c d a. (c, a) \<in> slabs h \<longrightarrow> (d, a) \<in> slabs h \<longrightarrow> c = d)"

text \<open>The live objects, as pairs of the address of a slab and a slot in it.\<close>

definition objs :: "kheap \<Rightarrow> (u64 \<times> nat) set" where
  "objs h = {(s_pa s, i) | c s i. c < SLAB_CLASSES \<and> s \<in> set (g_slab_heads h c) \<and>
     i < length (s_bitmap s) \<and> s_bitmap s ! i}"

lemma pinv_zero_mem: "pinv (zero_mem p n s) A H = pinv s A H"
  by (simp add: pinv_def zero_mem_def free_blocks_def)

lemma filter_Not_update:
  "i < length xs \<Longrightarrow> \<not> xs ! i \<Longrightarrow>
   Suc (length (filter Not (xs[i := True]))) = length (filter Not xs)"
proof (induction xs arbitrary: i)
  case (Cons x xs)
  then show ?case by (cases i) auto
qed simp

lemma filter_Not_clear:
  "i < length xs \<Longrightarrow> xs ! i \<Longrightarrow> length (filter Not (xs[i := False])) = length (filter Not xs) + 1"
proof (induction xs arbitrary: i)
  case (Cons x xs)
  then show ?case by (cases i) auto
qed simp

lemma first_slot_ok:
  assumes "slab_ok c s" "c \<noteq> 0" "s_free_count s \<noteq> 0"
  shows "first_slot s < class_cap c \<and> \<not> s_bitmap s ! first_slot s"
proof -
  let ?t = "take (class_cap c) (s_bitmap s)"
  have "length (filter Not ?t) \<noteq> 0" using assms by (simp add: slab_ok_def)
  then have "\<exists>x \<in> set ?t. \<not> x" by (auto simp: filter_empty_conv)
  then obtain i where i: "find_index Not ?t = Some i"
    using find_index_None [of Not ?t] by (cases "find_index Not ?t") auto
  from find_index_Some [OF i] assms(1) show ?thesis
    by (auto simp: first_slot_def slab_ok_def i)
qed

lemma class_cap_le: "class_cap c \<le> 288" by (simp add: class_cap_def)

lemma take_slot_ok:
  assumes "slab_ok c s" "c \<noteq> 0" "s_free_count s \<noteq> 0"
  shows "slab_ok c (take_slot s)"
proof -
  note f = first_slot_ok [OF assms]
  have l: "length (s_bitmap s) = 288" using assms(1) by (simp add: slab_ok_def)
  have "take (class_cap c) ((s_bitmap s)[first_slot s := True]) =
      (take (class_cap c) (s_bitmap s))[first_slot s := True]" by (rule take_update_swap)
  moreover have "length (filter Not ((take (class_cap c) (s_bitmap s))[first_slot s := True])) =
      length (filter Not (take (class_cap c) (s_bitmap s))) - 1"
    using filter_Not_update [of "first_slot s" "take (class_cap c) (s_bitmap s)"] f l class_cap_le [of c] by simp
  ultimately show ?thesis using assms f l
    by (auto simp: slab_ok_def take_slot_def nth_list_update)
qed

text \<open>Replacing one slab by a changed version of it.\<close>

definition put_slab :: "nat \<Rightarrow> nat \<Rightarrow> slab_hdr \<Rightarrow> kheap \<Rightarrow> kheap" where
  "put_slab c k s h = h\<lparr>g_slab_heads := (g_slab_heads h)(c := (g_slab_heads h c)[k := s])\<rparr>"

lemma objs_iff:
  "(a, i) \<in> objs h \<longleftrightarrow> (\<exists>c < SLAB_CLASSES. \<exists>j < length (g_slab_heads h c).
     s_pa (g_slab_heads h c ! j) = a \<and> i < length (s_bitmap (g_slab_heads h c ! j)) \<and>
     s_bitmap (g_slab_heads h c ! j) ! i)"
  unfolding objs_def by (fastforce simp: in_set_conv_nth)

lemma slabs_iff:
  "(c, a) \<in> slabs h \<longleftrightarrow> c < SLAB_CLASSES \<and> (\<exists>j < length (g_slab_heads h c). s_pa (g_slab_heads h c ! j) = a)"
  unfolding slabs_def by (fastforce simp: in_set_conv_nth)

lemma heads_put:
  "g_slab_heads (put_slab c k s h) d = (if d = c then (g_slab_heads h c)[k := s] else g_slab_heads h d)"
  by (simp add: put_slab_def)

lemma map_pa_put:
  assumes "k < length (g_slab_heads h c)" "s_pa s = s_pa (g_slab_heads h c ! k)"
  shows "map s_pa (g_slab_heads (put_slab c k s h) d) = map s_pa (g_slab_heads h d)"
  using assms by (auto simp: heads_put map_update list_update_same_conv)

lemma slabs_put:
  assumes "k < length (g_slab_heads h c)" "s_pa s = s_pa (g_slab_heads h c ! k)"
  shows "slabs (put_slab c k s h) = slabs h"
proof -
  have "slabs h = {(d, a). d < SLAB_CLASSES \<and> a \<in> set (map s_pa (g_slab_heads h d))}" for h
    by (auto simp: slabs_def)
  then show ?thesis by (simp only: map_pa_put [OF assms])
qed

lemma heap_inv_put:
  assumes "heap_inv h A" "c < SLAB_CLASSES" "k < length (g_slab_heads h c)"
    and "s_pa s = s_pa (g_slab_heads h c ! k)" "slab_ok c s"
  shows "heap_inv (put_slab c k s h) A"
proof -
  have m: "mm (put_slab c k s h) = mm h" by (simp add: put_slab_def)
  have "slab_ok d t \<and> (s_pa t, slab_order d) \<in> A"
    if "d < SLAB_CLASSES" "t \<in> set (g_slab_heads (put_slab c k s h) d)" for d t
  proof (cases "t = s \<and> d = c")
    case True
    have "g_slab_heads h c ! k \<in> set (g_slab_heads h c)" using assms(3) by simp
    then show ?thesis using assms True unfolding heap_inv_def by auto
  next
    case False
    then have "t \<in> set (g_slab_heads h d)"
      using that(2) set_update_subset_insert [of "g_slab_heads h c" k s] by (auto simp: heads_put split: if_splits)
    then show ?thesis using assms(1) that(1) unfolding heap_inv_def by blast
  qed
  then show ?thesis using assms(1)
    unfolding heap_inv_def m map_pa_put [OF assms(3,4)] slabs_put [OF assms(3,4)] by blast
qed

lemma heap_pa_unique:
  assumes "heap_inv h A" "c < SLAB_CLASSES" "d < SLAB_CLASSES" "j < length (g_slab_heads h c)"
    "k < length (g_slab_heads h d)" "s_pa (g_slab_heads h c ! j) = s_pa (g_slab_heads h d ! k)"
  shows "c = d \<and> j = k"
proof -
  have "(c, s_pa (g_slab_heads h c ! j)) \<in> slabs h" "(d, s_pa (g_slab_heads h c ! j)) \<in> slabs h"
    using assms slabs_iff by auto
  then have "c = d" using assms(1) unfolding heap_inv_def by blast
  moreover have "distinct (map s_pa (g_slab_heads h c))" using assms(1,2) unfolding heap_inv_def by blast
  ultimately show ?thesis using assms(4-6) by (simp add: distinct_conv_nth) metis
qed

lemma objs_put:
  assumes "heap_inv h A" "c < SLAB_CLASSES" "k < length (g_slab_heads h c)"
    and "s_pa s = s_pa (g_slab_heads h c ! k)" "length (s_bitmap s) = length (s_bitmap (g_slab_heads h c ! k))"
  shows "(a, i) \<in> objs (put_slab c k s h) \<longleftrightarrow>
    (if a = s_pa s then i < length (s_bitmap s) \<and> s_bitmap s ! i else (a, i) \<in> objs h)"
proof -
  let ?h = "put_slab c k s h"
  have nth: "g_slab_heads ?h d ! j = (if d = c \<and> j = k then s else g_slab_heads h d ! j)"
    and len: "length (g_slab_heads ?h d) = length (g_slab_heads h d)" if "j < length (g_slab_heads h d)" for d j
    using that by (auto simp: heads_put)
  have len: "length (g_slab_heads ?h d) = length (g_slab_heads h d)" for d by (simp add: heads_put)
  show ?thesis
  proof (cases "a = s_pa s")
    case True
    have "d = c \<and> j = k" if "d < SLAB_CLASSES" "j < length (g_slab_heads h d)" "s_pa (g_slab_heads ?h d ! j) = a" for d j
      using that nth [of j d] True assms(4) heap_pa_unique [OF assms(1) that(1) assms(2) that(2) assms(3)]
      by (auto split: if_splits)
    then show ?thesis using True assms(2,3) nth [of k c] unfolding objs_iff len by (auto; metis)
  next
    case False
    then show ?thesis unfolding objs_iff len using nth assms(4) by (auto; metis)
  qed
qed

lemma objs_self:
  assumes "heap_inv h A" "c < SLAB_CLASSES" "k < length (g_slab_heads h c)"
    and "s = g_slab_heads h c ! k" "length (s_bitmap s) = n"
  shows "(s_pa s, i) \<in> objs h \<longleftrightarrow> i < n \<and> s_bitmap s ! i"
  using objs_put [OF assms(1-3), of s "s_pa s" i] assms(4,5) by (simp add: put_slab_def)

lemma objs_take:
  assumes "heap_inv h A" "c < SLAB_CLASSES" "c \<noteq> 0" "k < length (g_slab_heads h c)"
    and "s = g_slab_heads h c ! k" "s_free_count s \<noteq> 0"
  shows "(s_pa s, first_slot s) \<notin> objs h"
    "objs (put_slab c k (take_slot s) h) = insert (s_pa s, first_slot s) (objs h)"
    "heap_inv (put_slab c k (take_slot s) h) A" "first_slot s < class_cap c"
proof -
  have ok: "slab_ok c s" using assms(1,2,4,5) unfolding heap_inv_def by auto
  note f = first_slot_ok [OF ok assms(3,6)]
  have l: "length (s_bitmap s) = 288" using ok by (simp add: slab_ok_def)
  have t: "s_pa (take_slot s) = s_pa s" "length (s_bitmap (take_slot s)) = length (s_bitmap s)"
    by (simp_all add: take_slot_def)
  have self: "(s_pa s, i) \<in> objs h \<longleftrightarrow> i < 288 \<and> s_bitmap s ! i" for i
    by (rule objs_self [OF assms(1,2,4,5) l])
  show "(s_pa s, first_slot s) \<notin> objs h" using self f by simp
  show "first_slot s < class_cap c" using f by simp
  show "heap_inv (put_slab c k (take_slot s) h) A"
    using take_slot_ok [OF ok assms(3,6)] assms t by (intro heap_inv_put) auto
  have "(a, i) \<in> objs (put_slab c k (take_slot s) h) \<longleftrightarrow> (a, i) = (s_pa s, first_slot s) \<or> (a, i) \<in> objs h" for a i
    using objs_put [OF assms(1,2,4), of "take_slot s" a i] t assms(5) l self [of i] f class_cap_le [of c]
    by (auto simp: take_slot_def nth_list_update)
  then show "objs (put_slab c k (take_slot s) h) = insert (s_pa s, first_slot s) (objs h)" by auto
qed

lemma slab_order_le: "slab_order c \<le> MAX_ORDER" by (simp add: slab_order_def MAX_ORDER_def)

lemma raw_cap:
  assumes "c < SLAB_CLASSES"
  shows "0 < (2 ^ slab_order c * 4096 - SLAB_HDR_SZ) div (slab_sizes ! c)"
    "c \<noteq> 0 \<Longrightarrow> (2 ^ slab_order c * 4096 - SLAB_HDR_SZ) div (slab_sizes ! c) \<le> 288"
proof -
  have "c = 0 \<or> c = 1 \<or> c = 2 \<or> c = 3 \<or> c = 4 \<or> c = 5 \<or> c = 6 \<or> c = 7 \<or> c = 8 \<or> c = 9"
    using assms by (simp add: SLAB_CLASSES_def, arith)
  then show "0 < (2 ^ slab_order c * 4096 - SLAB_HDR_SZ) div (slab_sizes ! c)"
    "c \<noteq> 0 \<Longrightarrow> (2 ^ slab_order c * 4096 - SLAB_HDR_SZ) div (slab_sizes ! c) \<le> 288"
    by (elim disjE; simp add: slab_order_def slab_sizes_def SLAB_HDR_SZ_def)+
qed

lemma slab_new_None: "slab_new c m = (None, m') \<Longrightarrow> amm_phys_alloc (slab_order c) m = (0, m')"
  by (auto simp: slab_new_def Let_def split: prod.splits if_splits)

lemma slab_new_Some:
  assumes "heap_inv h A" "c < SLAB_CLASSES" "slab_new c (mm h) = (Some s, m)"
  shows "pinv m (insert (s_pa s, slab_order c) A) {} \<and> \<not> early_boot m \<and> slab_ok c s \<and>
    s_bitmap s = replicate 288 False \<and> (s_pa s, slab_order c) \<notin> A \<and> (\<forall>d. (d, s_pa s) \<notin> slabs h) \<and>
    s_free_count s \<noteq> 0"
proof -
  obtain p m1 where a: "amm_phys_alloc (slab_order c) (mm h) = (p, m1)"
    by (cases "amm_phys_alloc (slab_order c) (mm h)")
  have p: "p \<noteq> 0" "s_pa s = p" "m = zero_mem p (of_nat SLAB_HDR_SZ) m1"
    using assms(3) a by (auto simp: slab_new_def Let_def split: if_splits)
  have i: "pinv (mm h) A {}" "\<not> early_boot (mm h)" using assms(1) by (simp_all add: heap_inv_def)
  have r: "pinv m1 (insert (p, slab_order c) A) {}" "\<not> early_boot m1" "blk (p, slab_order c) \<inter> cover A = {}"
    using alloc_spec [OF i slab_order_le a] p(1) by (auto split: if_splits)
  let ?cap = "(2 ^ slab_order c * 4096 - SLAB_HDR_SZ) div (slab_sizes ! c)"
  have s: "s = \<lparr>s_pa = p, s_free_count = ?cap, s_obj_size = slab_sizes ! c,
      s_capacity = (if ?cap > 288 then 288 else ?cap), s_bitmap = replicate 288 False\<rparr>"
    using assms(3) a p(1) by (auto simp: slab_new_def Let_def)
  have tk: "take n (replicate 288 False) = replicate (min n 288) False" for n by simp
  have ok: "slab_ok c s" "s_free_count s \<noteq> 0" "s_bitmap s = replicate 288 False"
    unfolding s slab_ok_def class_cap_def tk
    using p(1) raw_cap [OF assms(2)] by (cases "c = 0"; auto simp: min_def)+
  have hd: "pg p \<in> blk (p, j)" for j by (simp add: blk_def)
  have nin: "(p, j) \<notin> A" for j
  proof
    assume "(p, j) \<in> A"
    then have "pg p \<in> cover A" using hd [of j] unfolding cover_def by blast
    then show False using r(3) hd [of "slab_order c"] by blast
  qed
  have "(d, p) \<notin> slabs h" for d
    using nin assms(1) unfolding heap_inv_def slabs_def by auto
  moreover have "early_boot m = early_boot m1" unfolding p(3) by (simp add: zero_mem_def)
  ultimately show ?thesis using r ok p(2) nin unfolding p(3) pinv_zero_mem by blast
qed

lemma heap_inv_new:
  assumes "heap_inv h A" "c < SLAB_CLASSES" "slab_new c (mm h) = (Some s, m)"
  defines "h' \<equiv> h\<lparr>mm := m, g_slab_heads := (g_slab_heads h)(c := s # g_slab_heads h c)\<rparr>"
  shows "heap_inv h' (insert (s_pa s, slab_order c) A)" "objs h' = objs h"
proof -
  note n = slab_new_Some [OF assms(1-3)]
  have hd: "g_slab_heads h' d = (if d = c then s # g_slab_heads h c else g_slab_heads h d)" for d
    by (simp add: h'_def)
  have sl: "slabs h' = insert (c, s_pa s) (slabs h)"
    using assms(2) unfolding slabs_def hd by (auto split: if_splits)
  have old: "distinct (map s_pa (g_slab_heads h d))" "\<And>t. t \<in> set (g_slab_heads h d) \<Longrightarrow> slab_ok d t \<and> (s_pa t, slab_order d) \<in> A"
    if "d < SLAB_CLASSES" for d using assms(1) that unfolding heap_inv_def by blast+
  have uni: "c1 = d1" if "(c1, a) \<in> slabs h" "(d1, a) \<in> slabs h" for c1 d1 a
    using assms(1) that unfolding heap_inv_def by blast
  have notin: "s_pa s \<notin> s_pa ` set (g_slab_heads h c)" using n assms(2) by (auto simp: slabs_def)
  show "heap_inv h' (insert (s_pa s, slab_order c) A)"
    unfolding heap_inv_def
  proof (intro conjI allI impI ballI)
    show "pinv (mm h') (insert (s_pa s, slab_order c) A) {}" "\<not> early_boot (mm h')"
      using n by (simp_all add: h'_def)
    fix d assume d: "d < SLAB_CLASSES"
    show "distinct (map s_pa (g_slab_heads h' d))" using old(1) [OF d] notin by (auto simp: hd)
    fix t assume "t \<in> set (g_slab_heads h' d)"
    then show "slab_ok d t" "(s_pa t, slab_order d) \<in> insert (s_pa s, slab_order c) A"
      using old(2) [OF d, of t] n by (auto simp: hd split: if_splits)
  next
    fix c1 d1 a assume "(c1, a) \<in> slabs h'" "(d1, a) \<in> slabs h'"
    then show "c1 = d1" using uni n unfolding sl by blast
  qed
  show "objs h' = objs h"
  proof
    show "objs h' \<subseteq> objs h"
    proof
      fix x assume "x \<in> objs h'"
      then obtain d t i where t: "x = (s_pa t, i)" "d < SLAB_CLASSES" "t \<in> set (g_slab_heads h' d)"
        "i < length (s_bitmap t)" "s_bitmap t ! i" unfolding objs_def by blast
      then have "t \<noteq> s" using n by auto
      then have "t \<in> set (g_slab_heads h d)" using t(3) by (auto simp: hd split: if_splits)
      then show "x \<in> objs h" using t unfolding objs_def by blast
    qed
    show "objs h \<subseteq> objs h'"
    proof
      fix x assume "x \<in> objs h"
      then obtain d t i where t: "x = (s_pa t, i)" "d < SLAB_CLASSES" "t \<in> set (g_slab_heads h d)"
        "i < length (s_bitmap t)" "s_bitmap t ! i" unfolding objs_def by blast
      then have "t \<in> set (g_slab_heads h' d)" by (auto simp: hd)
      then show "x \<in> objs h'" using t unfolding objs_def by blast
    qed
  qed
qed

lemma class_bounds:
  assumes "slab_class n = Some c"
  shows "c < SLAB_CLASSES" "n \<le> slab_sizes ! c" "8 < n \<Longrightarrow> c \<noteq> 0"
  using find_index_Some [OF assms [unfolded slab_class_def]]
  by (auto simp: slab_sizes_def SLAB_CLASSES_def intro!: gr0I)

lemma heap_inv_mm:
  assumes "heap_inv h A" "pinv m B {}" "\<not> early_boot m" "A \<subseteq> B"
  shows "heap_inv (h\<lparr>mm := m\<rparr>) B"
proof -
  have "slabs (h\<lparr>mm := m\<rparr>) = slabs h" by (simp add: slabs_def)
  then show ?thesis using assms unfolding heap_inv_def by auto
qed

lemma kmalloc_small:
  assumes "heap_inv h A" "8 < unat n" "slab_class (unat n) = Some c" "kmalloc n h = Some (p, h')"
  shows "(\<exists>B s i. heap_inv h' B \<and> A \<subseteq> B \<and> (s_pa s, i) \<notin> objs h \<and> objs h' = insert (s_pa s, i) (objs h) \<and>
       slab_ok c s \<and> (s_pa s, slab_order c) \<in> B \<and> i < class_cap c \<and> p = obj_addr s i) \<or>
    (p = 0 \<and> (\<exists>B. heap_inv h' B \<and> A \<subseteq> B) \<and> objs h' = objs h)"
proof -
  note cb = class_bounds [OF assms(3)]
  have c0: "c \<noteq> 0" using cb(3) assms(2) by simp
  have nz: "n \<noteq> 0" using assms(2) by auto
  obtain o1 h1 where w: "with_room c h = (o1, h1)" by (cases "with_room c h")
  show ?thesis
  proof (cases o1)
    case None
    then obtain m where m: "slab_new c (mm h) = (None, m)" "h1 = h\<lparr>mm := m\<rparr>"
      using w by (auto simp: with_room_def split: option.splits prod.splits)
    have r: "p = 0" "h' = h1" using assms(3,4) nz w None by (auto simp: kmalloc_def)
    have "\<exists>B. pinv m B {} \<and> \<not> early_boot m \<and> A \<subseteq> B"
      using alloc_spec [OF _ _ slab_order_le slab_new_None [OF m(1)], of A] assms(1)
      unfolding heap_inv_def by (auto split: if_splits)
    then obtain B where "heap_inv h1 B" "A \<subseteq> B" using heap_inv_mm [OF assms(1)] m(2) by blast
    then show ?thesis using r m by (auto simp: objs_def)
  next
    case (Some k)
    let ?s = "g_slab_heads h1 c ! k"
    have r: "p = obj_addr ?s (first_slot ?s)" "h' = put_slab c k (take_slot ?s) h1"
      using assms(3,4) nz w Some by (auto simp: kmalloc_def Let_def put_slab_def)
    have "\<exists>B. heap_inv h1 B \<and> A \<subseteq> B \<and> objs h1 = objs h \<and> k < length (g_slab_heads h1 c) \<and> s_free_count ?s \<noteq> 0"
    proof (cases "find_index (\<lambda>s. s_free_count s \<noteq> 0) (g_slab_heads h c)")
      case None
      then obtain s m where s: "slab_new c (mm h) = (Some s, m)" "k = 0"
        "h1 = h\<lparr>mm := m, g_slab_heads := (g_slab_heads h)(c := s # g_slab_heads h c)\<rparr>"
        using w Some by (auto simp: with_room_def split: option.splits prod.splits)
      show ?thesis using heap_inv_new [OF assms(1) cb(1) s(1)] slab_new_Some [OF assms(1) cb(1) s(1)] s(2,3)
        by (intro exI [of _ "insert (s_pa s, slab_order c) A"]) auto
    next
      case (Some j)
      then have "k = j" "h1 = h" using w \<open>o1 = Some k\<close> by (auto simp: with_room_def)
      then show ?thesis using find_index_Some [OF Some] assms(1) by auto
    qed
    then obtain B where B: "heap_inv h1 B" "A \<subseteq> B" "objs h1 = objs h" "k < length (g_slab_heads h1 c)" "s_free_count ?s \<noteq> 0"
      by blast
    have "?s \<in> set (g_slab_heads h1 c)" using B(4) by simp
    then have "slab_ok c ?s" "(s_pa ?s, slab_order c) \<in> B" using B(1) cb(1) unfolding heap_inv_def by blast+
    then show ?thesis using objs_take [OF B(1) cb(1) c0 B(4) refl B(5)] B(2,3) r
      by (intro disjI1 exI [of _ B] exI [of _ ?s] exI [of _ "first_slot ?s"]) simp
  qed
qed


definition tiny_heap :: kheap where
  "tiny_heap = \<lparr>mm = tiny_amm, g_slab_heads = (\<lambda>c. [])\<rparr>"

lemma tiny_heap_inv: "heap_inv tiny_heap {}"
  using tiny_amm_inv tiny_amm_alloc(1) by (simp add: heap_inv_def tiny_heap_def slabs_def)

lemma find_clear: "find_index Not (replicate n False) = (if n = 0 then None else Some 0)"
  by (cases n) simp_all

lemma tiny_kmalloc:
  assumes "slab_class (unat n) = Some c" "slab_order c = 0" "n \<noteq> 0"
  shows "\<exists>h'. kmalloc n tiny_heap = Some (0x2040, h')"
proof -
  obtain m where "amm_phys_alloc 0 tiny_amm = (0x2000, m)"
    using tiny_amm_alloc(3) by (metis prod.collapse)
  then show ?thesis using assms
    by (simp add: kmalloc_def with_room_def tiny_heap_def slab_new_def Let_def obj_addr_def
        first_slot_def SLAB_HDR_SZ_def find_clear)
qed


section \<open>Eight-byte objects\<close>

fun kmalloc_n :: "nat \<Rightarrow> u64 \<Rightarrow> kheap \<Rightarrow> (u64 list \<times> kheap) option" where
  "kmalloc_n 0 sz h = Some ([], h)"
| "kmalloc_n (Suc n) sz h =
     (case kmalloc sz h of None \<Rightarrow> None
      | Some (p, h1) \<Rightarrow> (case kmalloc_n n sz h1 of None \<Rightarrow> None | Some (ps, h2) \<Rightarrow> Some (p # ps, h2)))"

definition slab8 :: "u64 \<Rightarrow> nat \<Rightarrow> slab_hdr" where
  "slab8 a k = \<lparr>s_pa = a, s_free_count = 504 - k, s_obj_size = 8, s_capacity = 288,
     s_bitmap = replicate (min k 288) True @ replicate (288 - k) False\<rparr>"

lemma class8: "slab_class 8 = Some 0"
  by (simp add: slab_class_def slab_sizes_def)

lemma find_used: "find_index Not (replicate k True @ xs) = map_option (\<lambda>i. k + i) (find_index Not xs)"
  by (induction k) (auto simp: option.map_ident split: option.split)

lemma first_slot8: "first_slot (slab8 a k) = (if k < 288 then k else 0)"
  by (auto simp: first_slot_def slab8_def find_used find_clear)

lemma take_slot8: "k < 504 \<Longrightarrow> take_slot (slab8 a k) = slab8 a (Suc k)"
proof -
  assume k: "k < 504"
  have "(replicate (min k 288) True @ replicate (288 - k) False)[first_slot (slab8 a k) := True] =
      replicate (min (Suc k) 288) True @ replicate (288 - Suc k) False"
    by (rule nth_equalityI) (auto simp: first_slot8 nth_append nth_list_update min_def)
  then show ?thesis using k unfolding take_slot_def by (simp add: slab8_def)
qed

lemma kmalloc8_step:
  assumes "g_slab_heads h 0 = slab8 a k # ss" "k < 504"
  shows "\<exists>h'. kmalloc 8 h = Some (a + of_nat (64 + (if k < 288 then k else 0) * 8), h') \<and>
    g_slab_heads h' 0 = slab8 a (Suc k) # ss"
proof -
  have "s_free_count (slab8 a k) \<noteq> 0" using assms(2) by (simp add: slab8_def)
  then have w: "with_room 0 h = (Some 0, h)" by (simp add: with_room_def assms(1))
  have "obj_addr (slab8 a k) (first_slot (slab8 a k)) = a + of_nat (64 + (if k < 288 then k else 0) * 8)"
    by (simp add: obj_addr_def first_slot8) (simp add: slab8_def SLAB_HDR_SZ_def)
  then show ?thesis using assms(1) by (simp add: kmalloc_def class8 w Let_def take_slot8 [OF assms(2)])
qed

lemma kmalloc8_run:
  assumes "g_slab_heads h 0 = slab8 a k # ss" "k + n \<le> 504"
  shows "\<exists>h'. kmalloc_n n 8 h = Some (map (\<lambda>i. a + of_nat (64 + (if i < 288 then i else 0) * 8)) [k..<k + n], h')"
  using assms
proof (induction n arbitrary: k h)
  case (Suc n)
  obtain h1 where h1: "kmalloc 8 h = Some (a + of_nat (64 + (if k < 288 then k else 0) * 8), h1)"
    "g_slab_heads h1 0 = slab8 a (Suc k) # ss"
    using kmalloc8_step [OF Suc.prems(1)] Suc.prems(2) by auto
  obtain h2 where "kmalloc_n n 8 h1 =
      Some (map (\<lambda>i. a + of_nat (64 + (if i < 288 then i else 0) * 8)) [Suc k..<Suc k + n], h2)"
    using Suc.IH [OF h1(2)] Suc.prems(2) by auto
  moreover have "[k..<k + Suc n] = k # [Suc k..<Suc k + n]" by (simp add: upt_conv_Cons)
  ultimately show ?case using h1(1) by simp
qed simp

text \<open>
  The eight-byte class hands out the same object twice. A slab of eight-byte objects is
  created with a free count of 504 but a bitmap of 288 slots; without any \<open>kfree\<close> in between, the
  289th allocation from it returns the pointer of the first one again.
\<close>

theorem kmalloc8_reuse:
  assumes "\<forall>s \<in> set (g_slab_heads h 0). s_free_count s = 0" and "slab_new 0 (mm h) = (Some s, m)"
  shows "\<exists>ps h'. kmalloc_n 289 8 h = Some (ps, h') \<and> ps ! 0 = s_pa s + 64 \<and> ps ! 288 = ps ! 0 \<and>
    distinct (take 288 ps)"
proof -
  have s: "s = slab8 (s_pa s) 0"
    using assms(2) by (auto simp: slab_new_def slab8_def Let_def slab_sizes_def slab_order_def
      SLAB_HDR_SZ_def split: prod.splits if_splits)
  let ?h = "h\<lparr>mm := m, g_slab_heads := (g_slab_heads h)(0 := s # g_slab_heads h 0)\<rparr>"
  have n: "find_index (\<lambda>s. s_free_count s \<noteq> 0) (g_slab_heads h 0) = None"
    using assms(1) by (simp add: find_index_None)
  have w: "with_room 0 h = (Some 0, ?h)" unfolding with_room_def n assms(2) by simp
  have "s_free_count s = 504" using arg_cong [OF s, of s_free_count] by (simp add: slab8_def)
  then have w': "with_room 0 ?h = (Some 0, ?h)" by (simp add: with_room_def)
  have "kmalloc 8 h = kmalloc 8 ?h" unfolding kmalloc_def using w w' by (simp add: class8)
  then have e: "kmalloc_n 289 8 h = kmalloc_n 289 8 ?h" by (simp add: eval_nat_numeral)
  have "g_slab_heads ?h 0 = slab8 (s_pa s) 0 # g_slab_heads h 0" unfolding s [symmetric] by simp
  from kmalloc8_run [OF this, of 289] obtain h' where
    r: "kmalloc_n 289 8 ?h = Some (map (\<lambda>i. s_pa s + of_nat (64 + (if i < 288 then i else 0) * 8)) [0..<289], h')"
    (is "_ = Some (?ps, _)") by auto
  have "distinct (map (\<lambda>i. s_pa s + of_nat (64 + i * 8)) [0..<288])"
  proof -
    have "x = y" if l: "x < 288" "y < 288" and e: "s_pa s + of_nat (64 + x * 8) = s_pa s + of_nat (64 + y * 8)" for x y
    proof -
      have "unat (of_nat (64 + x * 8) :: u64) = unat (of_nat (64 + y * 8) :: u64)"
        using e by (simp only: add_left_cancel)
      note q = this
      have "unat (of_nat (64 + z * 8) :: u64) = 64 + z * 8" if "z < 288" for z
        using that by (intro unat_of_nat_u64) simp
      note z = this
      have "64 + x * 8 = 64 + y * 8" using q z [OF l(1)] z [OF l(2)] by (simp only:)
      then show ?thesis by simp
    qed
    then show ?thesis unfolding distinct_map by (intro conjI inj_onI) auto
  qed
  moreover have "take 288 ?ps = map (\<lambda>i. s_pa s + of_nat (64 + i * 8)) [0..<288]"
    by (rule nth_equalityI) auto
  ultimately show ?thesis using r e by auto
qed

theorem kmalloc8_reuse_witness:
  "\<exists>ps h'. kmalloc_n 289 8 tiny_heap = Some (ps, h') \<and> ps ! 288 = ps ! 0 \<and> ps ! 0 = 0x2040"
proof -
  obtain m where m: "amm_phys_alloc 0 tiny_amm = (0x2000, m)"
    using tiny_amm_alloc(3) by (metis prod.collapse)
  then obtain s m' where s: "slab_new 0 (mm tiny_heap) = (Some s, m')" "s_pa s = 0x2000"
    by (auto simp: slab_new_def tiny_heap_def slab_order_def slab_sizes_def Let_def)
  have "\<forall>s \<in> set (g_slab_heads tiny_heap 0). s_free_count s = 0" by (simp add: tiny_heap_def)
  from kmalloc8_reuse [OF this s(1)] s(2) show ?thesis by auto
qed

section \<open>Release\<close>

lemma pg_base: "pg (x AND NOT 4095) = pg x"
proof -
  have m: "(4095 :: u64) = mask 12" by (simp add: mask_eq_exp_minus_1)
  have "drop_bit 12 (x AND NOT 4095) = drop_bit 12 x"
    unfolding m by (rule bit_word_eqI) (auto simp: bit_simps dest: bit_imp_le_length)
  then show ?thesis unfolding pg_def pfn_def by (rule arg_cong)
qed

lemma small_span:
  assumes "c < 8" "i < class_cap c"
  shows "SLAB_HDR_SZ + i * (slab_sizes ! c) < 4096" "8 \<le> slab_sizes ! c" "slab_sizes ! c \<le> 4096" "slab_order c = 0"
proof -
  have "c = 0 \<or> c = 1 \<or> c = 2 \<or> c = 3 \<or> c = 4 \<or> c = 5 \<or> c = 6 \<or> c = 7" using assms(1) by arith
  then show "SLAB_HDR_SZ + i * (slab_sizes ! c) < 4096" "8 \<le> slab_sizes ! c" "slab_sizes ! c \<le> 4096" "slab_order c = 0"
    using assms(2) by (elim disjE; simp add: class_cap_def slab_order_def slab_sizes_def SLAB_HDR_SZ_def)+
qed

lemma in_page:
  assumes "aligned a 0" "x < 4096"
  shows "unat (a + of_nat x) = unat a + x" "unat (a + of_nat x) mod 4096 = x" "((a + of_nat x) AND NOT 4095) = a"
proof -
  obtain m where m: "unat a = m * 4096" "pg a = m" using alignedE [OF assms(1)] by auto
  have "m * 4096 < 2 ^ 64" unfolding m(1) [symmetric] two64 by simp
  then have "m < 4503599627370496" by simp
  then have "m * 4096 + x < 2 ^ 64" using assms(2) unfolding two64 by linarith
  then show u: "unat (a + of_nat x) = unat a + x"
    using assms(2) m by (simp add: unat_word_ariths unat_of_nat take_bit_nat_eq_self)
  show "unat (a + of_nat x) mod 4096 = x" unfolding u m(1) using assms(2) by simp
  have "pg (a + of_nat x) = m" unfolding pg_div u m(1) using assms(2) by simp
  then have "pg ((a + of_nat x) AND NOT 4095) = pg a" using m pg_base by simp
  then show "((a + of_nat x) AND NOT 4095) = a" using pg_inj [OF aligned_and_not assms(1)] by simp
qed

lemma slab_at_found:
  assumes "heap_inv h A" "c < SLAB_CLASSES" "k < length (g_slab_heads h c)"
  shows "slab_at (s_pa (g_slab_heads h c ! k)) h = Some (c, k)"
proof -
  let ?a = "s_pa (g_slab_heads h c ! k)"
  have "d = c \<and> j = k" if "d < SLAB_CLASSES" "j < length (g_slab_heads h d)" "s_pa (g_slab_heads h d ! j) = ?a" for d j
    using heap_pa_unique [OF assms(1) that(1) assms(2) that(2) assms(3) that(3)] .
  note u = this
  have "find_index (\<lambda>c. \<exists>s \<in> set (g_slab_heads h c). s_pa s = ?a) [0..<SLAB_CLASSES] = Some c"
  proof (rule find_index_first)
    show "c < length [0..<SLAB_CLASSES]" using assms(2) by simp
    show "\<exists>s \<in> set (g_slab_heads h ([0..<SLAB_CLASSES] ! c)). s_pa s = ?a" using assms(2,3) by force
    show "\<not> (\<exists>s \<in> set (g_slab_heads h ([0..<SLAB_CLASSES] ! j)). s_pa s = ?a)" if "j < c" for j
      using u [of j] that assms(2) by (auto simp: in_set_conv_nth)
  qed
  moreover have "find_index (\<lambda>s. s_pa s = ?a) (g_slab_heads h c) = Some k"
  proof (rule find_index_first)
    show "s_pa (g_slab_heads h c ! j) \<noteq> ?a" if "j < k" for j
      using u [OF assms(2), of j] that assms(3) by auto
  qed (use assms(3) in auto)
  ultimately show ?thesis by (simp add: slab_at_def)
qed

lemma clear_slot_ok:
  assumes "slab_ok c s" "i < class_cap c" "s_bitmap s ! i"
  shows "slab_ok c (clear_slot i s)"
proof -
  have l: "length (s_bitmap s) = 288" "s_capacity s = class_cap c" using assms(1) by (simp_all add: slab_ok_def)
  have "take (class_cap c) ((s_bitmap s)[i := False]) = (take (class_cap c) (s_bitmap s))[i := False]"
    by (rule take_update_swap)
  moreover have "length (filter Not ((take (class_cap c) (s_bitmap s))[i := False])) =
      length (filter Not (take (class_cap c) (s_bitmap s))) + 1"
    using filter_Not_clear [of i "take (class_cap c) (s_bitmap s)"] assms(2,3) l class_cap_le [of c] by simp
  ultimately show ?thesis using assms l
    by (auto simp: slab_ok_def clear_slot_def nth_list_update)
qed


definition one_slab :: slab_hdr where
  "one_slab = \<lparr>s_pa = 0x2000, s_free_count = 30, s_obj_size = 128, s_capacity = 31,
     s_bitmap = True # replicate 287 False\<rparr>"

definition one_heap :: kheap where
  "one_heap = \<lparr>mm = snd (amm_phys_alloc 0 tiny_amm), g_slab_heads = (\<lambda>c. if c = 4 then [one_slab] else [])\<rparr>"

lemma one_heap_inv: "heap_inv one_heap {(0x2000, 0)}"
proof -
  have e: "\<not> early_boot (snd (amm_phys_alloc 0 tiny_amm))" "slab_order 4 = 0" "class_cap 4 = 31"
    by (simp_all add: tiny_amm_def blank_amm_def reset_phys_def phys_free_block_def
      amm_phys_alloc_def MAX_ORDER_def alloc_loop.simps take_block_def mark_alloc_def
      slab_order_def slab_sizes_def class_cap_def SLAB_HDR_SZ_def)
  have r: "replicate 287 False ! i = False" if "i < 287" for i using that by simp
  have "\<not> (True # replicate 287 False) ! i" if "31 \<le> i" "i < 288" for i
    using that r [of "i - 1"] by (cases i) auto
  moreover have "take 31 (True # replicate 287 False) = True # replicate 30 False" by (simp add: take_Cons')
  ultimately have "slab_ok 4 one_slab"
    by (simp add: slab_ok_def one_slab_def e slab_sizes_def)
  then show ?thesis using tiny_amm_allocated e
    by (auto simp: heap_inv_def one_heap_def slabs_def one_slab_def split: if_splits)
qed


lemma large_order_returns:
  assumes "sz \<le> 2 ^ 63"
  shows "\<exists>r. large_order sz 0 = Some r"
proof -
  have "\<exists>r. large_order sz (51 - d) = Some r" for d
  proof (induction d)
    case 0
    have "\<not> push_bit 51 PAGE_SIZE < sz" using assms by (simp add: PAGE_SIZE_def push_bit_eq_mult not_less)
    then show ?case by (subst large_order.simps) simp
  next
    case (Suc d)
    show ?case
    proof (cases "d < 51")
      case True
      then have "Suc (51 - Suc d) = 51 - d" by simp
      then show ?thesis using Suc by (subst large_order.simps) auto
    next
      case False
      then show ?thesis using Suc by simp
    qed
  qed
  from this [of 51] show ?thesis by simp
qed

text \<open>Every request of at most half of the address space is answered.\<close>

lemma kmalloc_returns: "sz \<le> 2 ^ 63 \<Longrightarrow> \<exists>r. kmalloc sz h = Some r"
  using large_order_returns [of sz] by (auto simp: kmalloc_def Let_def split: option.splits prod.splits)

end
