(* ===== verification/RunQueue.thy ===== *)
theory RunQueue
  imports OsPrelude
begin

text \<open>
  The red-black trees of \<open>src/kernel/sched/sched.c\<close>, which hold the ready processes of a run
  queue by priority. A tree of linked nodes is a term; the walk of the insertion and of its
  fix-up from a node to the root is a path of frames, innermost first. The priority that orders
  the nodes is read from the process table, so it is an argument. The list of processes from
  left to right is the specification: insertion is stable insertion into it, removal deletes.
\<close>

section \<open>Trees\<close>

datatype rb_color = Red | Black

datatype 'a rbt = Leaf | Node rb_color "'a rbt" 'a "'a rbt"

datatype dir = DL | DR

type_synonym 'a frame = "dir \<times> rb_color \<times> 'a \<times> 'a rbt"

fun color :: "'a rbt \<Rightarrow> rb_color" where
  "color Leaf = Black"
| "color (Node c l a r) = c"

fun paint :: "rb_color \<Rightarrow> 'a rbt \<Rightarrow> 'a rbt" where
  "paint c Leaf = Leaf"
| "paint c (Node _ l a r) = Node c l a r"

fun join_frame :: "'a rbt \<Rightarrow> 'a frame \<Rightarrow> 'a rbt" where
  "join_frame t (DL, c, a, s) = Node c t a s"
| "join_frame t (DR, c, a, s) = Node c s a t"

fun plug :: "'a rbt \<Rightarrow> 'a frame list \<Rightarrow> 'a rbt" where
  "plug t [] = t"
| "plug t (f # fs) = plug (join_frame t f) fs"

fun rb_rotate_left :: "'a rbt \<Rightarrow> 'a rbt" where
  "rb_rotate_left (Node c a x (Node d b y e)) = Node d (Node c a x b) y e"
| "rb_rotate_left t = t"

fun rb_rotate_right :: "'a rbt \<Rightarrow> 'a rbt" where
  "rb_rotate_right (Node c (Node d a x b) y e) = Node d a x (Node c b y e)"
| "rb_rotate_right t = t"

fun rb_insert_fixup :: "'a rbt \<Rightarrow> 'a frame list \<Rightarrow> 'a rbt" where
  "rb_insert_fixup z [] = z"
| "rb_insert_fixup z [p] = join_frame z p"
| "rb_insert_fixup z ((d, pc, pa, ps) # (e, gc, ga, y) # fs) =
     (let p = join_frame z (d, pc, pa, ps) in
      if pc \<noteq> Red then plug p ((e, gc, ga, y) # fs)
      else if color y = Red
      then rb_insert_fixup (join_frame (paint Black p) (e, Red, ga, paint Black y)) fs
      else case e of
        DL \<Rightarrow> plug (rb_rotate_right (Node Red
                (paint Black (if d = DR then rb_rotate_left p else p)) ga y)) fs
      | DR \<Rightarrow> plug (rb_rotate_left (Node Red y ga
                (paint Black (if d = DL then rb_rotate_right p else p)))) fs)"

fun rb_descend :: "('a \<Rightarrow> int) \<Rightarrow> int \<Rightarrow> 'a rbt \<Rightarrow> 'a frame list \<Rightarrow> 'a frame list" where
  "rb_descend prio key Leaf fs = fs"
| "rb_descend prio key (Node c l a r) fs =
     (if key < prio a then rb_descend prio key l ((DL, c, a, r) # fs)
      else rb_descend prio key r ((DR, c, a, l) # fs))"

definition rb_insert :: "('a \<Rightarrow> int) \<Rightarrow> 'a \<Rightarrow> int \<Rightarrow> 'a rbt \<Rightarrow> 'a rbt" where
  "rb_insert prio z key t =
     paint Black (rb_insert_fixup (Node Red Leaf z Leaf) (rb_descend prio key t []))"

fun rb_leftmost :: "'a rbt \<Rightarrow> 'a option" where
  "rb_leftmost Leaf = None"
| "rb_leftmost (Node c l a r) = (if l = Leaf then Some a else rb_leftmost l)"

fun take_min :: "'a rbt \<Rightarrow> 'a option \<times> 'a rbt" where
  "take_min Leaf = (None, Leaf)"
| "take_min (Node c l a r) =
     (if l = Leaf then (Some a, r) else case take_min l of (y, l') \<Rightarrow> (y, Node c l' a r))"

text \<open>The subtree that takes the place of a removed node with the given children.\<close>

definition replace_node :: "rb_color \<Rightarrow> 'a rbt \<Rightarrow> 'a rbt \<Rightarrow> 'a rbt" where
  "replace_node c l r =
     (if l = Leaf then r else if r = Leaf then l
      else case take_min r of (Some y, r') \<Rightarrow> Node c l y r' | (None, r') \<Rightarrow> l)"

fun inorder :: "'a rbt \<Rightarrow> 'a list" where
  "inorder Leaf = []"
| "inorder (Node c l a r) = inorder l @ a # inorder r"

fun remove_at :: "'a \<Rightarrow> 'a rbt \<Rightarrow> 'a rbt" where
  "remove_at z Leaf = Leaf"
| "remove_at z (Node c l a r) =
     (if a = z then replace_node c l r
      else if z \<in> set (inorder l) then Node c (remove_at z l) a r
      else Node c l a (remove_at z r))"

definition rb_remove_node :: "'a \<Rightarrow> 'a rbt \<Rightarrow> 'a rbt" where
  "rb_remove_node z t = paint Black (remove_at z t)"

section \<open>The list of a tree\<close>

lemma inorder_paint [simp]: "inorder (paint c t) = inorder t"
  by (cases t) simp_all

lemma inorder_rotate [simp]:
  "inorder (rb_rotate_left t) = inorder t" "inorder (rb_rotate_right t) = inorder t"
  by (cases t rule: rb_rotate_left.cases; simp) (cases t rule: rb_rotate_right.cases; simp)

fun frame_before :: "'a frame \<Rightarrow> 'a list" where
  "frame_before (DL, c, a, s) = []"
| "frame_before (DR, c, a, s) = inorder s @ [a]"

fun frame_after :: "'a frame \<Rightarrow> 'a list" where
  "frame_after (DL, c, a, s) = a # inorder s"
| "frame_after (DR, c, a, s) = []"

fun before :: "'a frame list \<Rightarrow> 'a list" where
  "before [] = []"
| "before (f # fs) = before fs @ frame_before f"

fun after :: "'a frame list \<Rightarrow> 'a list" where
  "after [] = []"
| "after (f # fs) = frame_after f @ after fs"

lemma inorder_join_frame [simp]: "inorder (join_frame t f) = frame_before f @ inorder t @ frame_after f"
  by (cases "(t, f)" rule: join_frame.cases) simp_all

lemma inorder_plug [simp]: "inorder (plug t fs) = before fs @ inorder t @ after fs"
  by (induction fs arbitrary: t) simp_all

lemma inorder_fixup [simp]: "inorder (rb_insert_fixup z fs) = before fs @ inorder z @ after fs"
proof (induction z fs rule: rb_insert_fixup.induct)
  case (3 z d pc pa ps e gc ga y fs)
  show ?case
  proof (cases "pc = Red \<and> color y = Red")
    case True
    then show ?thesis using 3 [OF refl] by (cases e; cases d) (simp_all add: Let_def)
  next
    case False
    then show ?thesis by (cases e; cases d) (auto simp: Let_def)
  qed
qed simp_all

lemma descend_list:
  "before (rb_descend prio key t fs) @ after (rb_descend prio key t fs) = before fs @ inorder t @ after fs"
  by (induction t arbitrary: fs) simp_all

text \<open>Insertion behind every entry that is not larger.\<close>

definition ins_list :: "('a \<Rightarrow> int) \<Rightarrow> 'a \<Rightarrow> int \<Rightarrow> 'a list \<Rightarrow> 'a list" where
  "ins_list prio z key xs =
     takeWhile (\<lambda>x. prio x \<le> key) xs @ z # dropWhile (\<lambda>x. prio x \<le> key) xs"

lemma descend_split:
  assumes "sorted (map prio (inorder t))"
    and "\<forall>x \<in> set (before fs). prio x \<le> key" "\<forall>x \<in> set (after fs). key < prio x"
  shows "(\<forall>x \<in> set (before (rb_descend prio key t fs)). prio x \<le> key) \<and>
    (\<forall>x \<in> set (after (rb_descend prio key t fs)). key < prio x)"
  using assms
proof (induction t arbitrary: fs)
  case (Node c l a r)
  show ?case
  proof (cases "key < prio a")
    case True
    have "\<forall>x \<in> set (after ((DL, c, a, r) # fs)). key < prio x"
      using True Node.prems by (auto simp: sorted_append)
    then show ?thesis using Node.IH(1) [of "(DL, c, a, r) # fs"] Node.prems True by (simp add: sorted_append)
  next
    case False
    have "\<forall>x \<in> set (before ((DR, c, a, l) # fs)). prio x \<le> key"
      using False Node.prems by (auto simp: sorted_append)
    then show ?thesis using Node.IH(2) [of "(DR, c, a, l) # fs"] Node.prems False by (simp add: sorted_append)
  qed
qed simp

lemma inorder_insert:
  assumes "sorted (map prio (inorder t))"
  shows "inorder (rb_insert prio z key t) = ins_list prio z key (inorder t)"
proof -
  let ?d = "rb_descend prio key t []"
  have s: "\<forall>x \<in> set (before ?d). prio x \<le> key" "\<forall>x \<in> set (after ?d). key < prio x"
    using descend_split [OF assms, of "[]" key] by auto
  have t: "inorder t = before ?d @ after ?d" using descend_list [of prio key t "[]"] by simp
  have "takeWhile (\<lambda>x. prio x \<le> key) (inorder t) = before ?d \<and> dropWhile (\<lambda>x. prio x \<le> key) (inorder t) = after ?d"
    using s unfolding t by (cases "after ?d") auto
  then show ?thesis by (simp add: rb_insert_def ins_list_def)
qed

lemma sorted_ins_list:
  assumes "sorted (map prio xs)"
  shows "sorted (map prio (takeWhile (\<lambda>x. prio x \<le> key) xs) @ key # map prio (dropWhile (\<lambda>x. prio x \<le> key) xs))"
proof -
  have "key \<le> prio x" if "x \<in> set (dropWhile (\<lambda>x. prio x \<le> key) xs)" for x
    using that assms
  proof (induction xs)
    case (Cons y ys)
    then show ?case by (cases "prio y \<le> key") auto
  qed simp
  moreover have "sorted (map prio (takeWhile (\<lambda>x. prio x \<le> key) xs)) \<and> sorted (map prio (dropWhile (\<lambda>x. prio x \<le> key) xs)) \<and>
      (\<forall>x \<in> set (takeWhile (\<lambda>x. prio x \<le> key) xs). \<forall>y \<in> set (dropWhile (\<lambda>x. prio x \<le> key) xs). prio x \<le> prio y)"
  proof -
    have "sorted (map prio (takeWhile (\<lambda>x. prio x \<le> key) xs) @ map prio (dropWhile (\<lambda>x. prio x \<le> key) xs))"
      using assms by (metis map_append takeWhile_dropWhile_id)
    then show ?thesis by (simp add: sorted_append)
  qed
  ultimately show ?thesis
    by (auto simp: sorted_append dest: set_takeWhileD)
qed

lemma set_ins_list [simp]: "set (ins_list prio z key xs) = insert z (set xs)"
proof -
  have "set xs = set (takeWhile (\<lambda>x. prio x \<le> key) xs) \<union> set (dropWhile (\<lambda>x. prio x \<le> key) xs)"
    by (metis set_append takeWhile_dropWhile_id)
  then show ?thesis by (auto simp: ins_list_def)
qed

lemma length_ins_list [simp]: "length (ins_list prio z key xs) = Suc (length xs)"
proof -
  have "length (takeWhile (\<lambda>x. prio x \<le> key) xs) + length (dropWhile (\<lambda>x. prio x \<le> key) xs) = length xs"
    by (metis length_append takeWhile_dropWhile_id)
  then show ?thesis by (simp add: ins_list_def)
qed

lemma distinct_ins_list: "distinct xs \<Longrightarrow> z \<notin> set xs \<Longrightarrow> distinct (ins_list prio z key xs)"
proof -
  assume a: "distinct xs" "z \<notin> set xs"
  then have "distinct (takeWhile (\<lambda>x. prio x \<le> key) xs) \<and> distinct (dropWhile (\<lambda>x. prio x \<le> key) xs) \<and>
      set (takeWhile (\<lambda>x. prio x \<le> key) xs) \<inter> set (dropWhile (\<lambda>x. prio x \<le> key) xs) = {}"
    by (metis distinct_append takeWhile_dropWhile_id)
  then show ?thesis using a
    by (auto simp: ins_list_def dest: set_takeWhileD set_dropWhileD)
qed

lemma inorder_Nil [simp]: "inorder t = [] \<longleftrightarrow> t = Leaf"
  by (cases t) simp_all

lemma leftmost_hd: "rb_leftmost t = (case inorder t of [] \<Rightarrow> None | x # xs \<Rightarrow> Some x)"
proof (induction t)
  case (Node c l a r)
  then show ?case by (cases "inorder l") (auto simp del: inorder_Nil simp flip: inorder_Nil)
qed simp

lemma take_min_inorder: "t \<noteq> Leaf \<Longrightarrow> take_min t = (y, t') \<Longrightarrow> \<exists>x. y = Some x \<and> inorder t = x # inorder t'"
proof (induction t arbitrary: y t')
  case (Node c l a r)
  then show ?case by (cases "l = Leaf") (auto split: prod.splits)
qed simp

lemma inorder_replace [simp]: "inorder (replace_node c l r) = inorder l @ inorder r"
proof -
  have "r = Leaf \<or> (\<exists>y r'. take_min r = (Some y, r') \<and> inorder r = y # inorder r')"
    using take_min_inorder [of r] by (cases "take_min r") auto
  then show ?thesis by (auto simp: replace_node_def)
qed

lemma inorder_remove: "distinct (inorder t) \<Longrightarrow> inorder (rb_remove_node z t) = remove1 z (inorder t)"
proof -
  have "distinct (inorder t) \<Longrightarrow> inorder (remove_at z t) = remove1 z (inorder t)"
    by (induction t) (auto simp: remove1_append remove1_idem)
  then show "distinct (inorder t) \<Longrightarrow> ?thesis" by (simp add: rb_remove_node_def)
qed

section \<open>Shape\<close>

fun bheight :: "'a rbt \<Rightarrow> nat" where
  "bheight Leaf = 0"
| "bheight (Node c l a r) = bheight l + (if c = Black then 1 else 0)"

fun invh :: "'a rbt \<Rightarrow> bool" where
  "invh Leaf = True"
| "invh (Node c l a r) \<longleftrightarrow> bheight l = bheight r \<and> invh l \<and> invh r"

fun invc :: "'a rbt \<Rightarrow> bool" where
  "invc Leaf = True"
| "invc (Node c l a r) \<longleftrightarrow> (c = Red \<longrightarrow> color l = Black \<and> color r = Black) \<and> invc l \<and> invc r"

definition rb_shape :: "'a rbt \<Rightarrow> bool" where
  "rb_shape t \<longleftrightarrow> invh t \<and> invc t \<and> color t = Black"

fun top_black :: "'a frame list \<Rightarrow> bool" where
  "top_black [] = True"
| "top_black ((d, c, a, s) # fs) = (c = Black)"

text \<open>A path into which a subtree of the given black height fits.\<close>

fun ok_path :: "nat \<Rightarrow> 'a frame list \<Rightarrow> bool" where
  "ok_path n [] = True"
| "ok_path n ((d, c, a, s) # fs) \<longleftrightarrow> invh s \<and> invc s \<and> bheight s = n \<and>
     (c = Red \<longrightarrow> color s = Black \<and> top_black fs) \<and> ok_path (n + (if c = Black then 1 else 0)) fs"

lemma plug_shape:
  "invh t \<Longrightarrow> invc t \<Longrightarrow> ok_path (bheight t) fs \<Longrightarrow> (color t = Red \<Longrightarrow> top_black fs) \<Longrightarrow>
   invh (plug t fs) \<and> invc (plug t fs)"
proof (induction fs arbitrary: t)
  case (Cons f fs)
  obtain d c a s where f: "f = (d, c, a, s)" by (cases f)
  show ?case unfolding f plug.simps
    by (rule Cons.IH; use Cons.prems f in \<open>cases d; cases c; cases "color t"; auto\<close>)
qed simp

lemma descend_path:
  "invh t \<Longrightarrow> invc t \<Longrightarrow> ok_path (bheight t) fs \<Longrightarrow> (color t = Red \<Longrightarrow> top_black fs) \<Longrightarrow>
   ok_path 0 (rb_descend prio key t fs)"
proof (induction t arbitrary: fs)
  case (Node c l a r)
  show ?case
  proof (cases "key < prio a")
    case True
    then show ?thesis using Node.IH(1) [of "(DL, c, a, r) # fs"] Node.prems
      by (cases c; cases "color l") auto
  next
    case False
    then show ?thesis using Node.IH(2) [of "(DR, c, a, l) # fs"] Node.prems
      by (cases c; cases "color r") auto
  qed
qed simp

lemma neq_Red [simp]: "c \<noteq> Red \<longleftrightarrow> c = Black"
  by (cases c) auto

lemma invc_paint: "invc t \<Longrightarrow> invc (paint Black t)"
  by (cases t) auto

lemma invh_paint [simp]: "invh (paint c t) = invh t"
  by (cases t) auto

lemma fixup_shape:
  "z = Node Red zl za zr \<Longrightarrow> invh z \<Longrightarrow> invc z \<Longrightarrow> ok_path (bheight z) fs \<Longrightarrow>
   invh (rb_insert_fixup z fs) \<and> invc (paint Black (rb_insert_fixup z fs))"
proof (induction z fs arbitrary: zl za zr rule: rb_insert_fixup.induct)
  case (1 z)
  then show ?case by simp
next
  case (2 z p)
  then show ?case by (cases "(z, p)" rule: join_frame.cases) auto
next
  case (3 z d pc pa ps e gc ga y fs)
  note pr = 3(2-)
  show ?case
  proof (cases "pc = Red \<and> color y = Red")
    case True
    then obtain yl ya yr where y: "y = Node Red yl ya yr" by (cases y) auto
    have gc: "gc = Black" using pr True by simp
    from True y gc show ?thesis using 3(1) [OF refl] pr
      by (cases e; cases d; simp add: Let_def; metis)
  next
    case False
    show ?thesis
    proof (cases "pc = Red")
      case True
      then have y: "color y = Black" and gc: "gc = Black" using False pr by auto
      then show ?thesis using True pr
        by (cases e; cases d) (auto simp: Let_def intro!: plug_shape [THEN conjunct1] invc_paint plug_shape [THEN conjunct2])
    next
      case pb: False
      then show ?thesis using pr plug_shape [of "join_frame z (d, pc, pa, ps)" "(e, gc, ga, y) # fs"]
        by (cases d) (auto simp: Let_def intro!: invc_paint simp del: plug.simps)
    qed
  qed
qed

lemma insert_shape: "rb_shape t \<Longrightarrow> rb_shape (rb_insert prio z key t)"
proof -
  assume t: "rb_shape t"
  let ?u = "rb_insert_fixup (Node Red Leaf z Leaf) (rb_descend prio key t [])"
  have "ok_path 0 (rb_descend prio key t [])" using t by (intro descend_path) (simp_all add: rb_shape_def)
  then have "invh ?u \<and> invc (paint Black ?u)" by (intro fixup_shape [OF refl]) simp_all
  moreover have "color (paint Black u) = Black" for u :: "'b rbt" by (cases u) simp_all
  ultimately show ?thesis by (simp add: rb_shape_def rb_insert_def)
qed

lemma sorted_takeWhile:
  "sorted (map p xs) \<Longrightarrow> x \<in> set xs \<Longrightarrow> p x \<le> k \<Longrightarrow> x \<in> set (takeWhile (\<lambda>y. p y \<le> (k :: int)) xs)"
proof (induction xs)
  case (Cons y ys)
  then have "p y \<le> p x" by auto
  with Cons show ?case by auto
qed simp

section \<open>Contract of a run queue\<close>

text \<open>
  What the scheduler relies on: a collection whose content, in the order in which it is served,
  is a list without repetitions; \<open>enq\<close> inserts behind everything that is at least as urgent, \<open>first\<close>
  is the head, \<open>del\<close> removes an entry wherever it stands.
\<close>

locale ready_queue =
  fixes content :: "'q \<Rightarrow> 'a list"
    and wf :: "('a \<Rightarrow> int) \<Rightarrow> 'q \<Rightarrow> bool"
    and enq :: "('a \<Rightarrow> int) \<Rightarrow> 'a \<Rightarrow> int \<Rightarrow> 'q \<Rightarrow> 'q"
    and first :: "'q \<Rightarrow> 'a option"
    and del :: "'a \<Rightarrow> 'q \<Rightarrow> 'q"
  assumes wf_sorted: "wf p q \<Longrightarrow> sorted (map p (content q)) \<and> distinct (content q)"
    and enq_content: "wf p q \<Longrightarrow> z \<notin> set (content q) \<Longrightarrow> content (enq p z (p z) q) = ins_list p z (p z) (content q)"
    and enq_wf: "wf p q \<Longrightarrow> z \<notin> set (content q) \<Longrightarrow> wf p (enq p z (p z) q)"
    and first_content: "first q = (case content q of [] \<Rightarrow> None | x # xs \<Rightarrow> Some x)"
    and del_content: "wf p q \<Longrightarrow> content (del z q) = remove1 z (content q)"
    and del_wf: "wf p q \<Longrightarrow> wf p (del z q)"
begin

lemma serve:
  assumes "wf p q" "first q = Some x"
  shows "content q = x # content (del x q)" "\<forall>y \<in> set (content q). p x \<le> p y"
proof -
  obtain xs where c: "content q = x # xs" using assms(2) first_content [of q] by (auto split: list.splits)
  then show "content q = x # content (del x q)" using del_content [OF assms(1)] by simp
  show "\<forall>y \<in> set (content q). p x \<le> p y" using wf_sorted [OF assms(1)] c by auto
qed

text \<open>Entries of equal priority are served in the order of their arrival.\<close>

lemma fifo_among_equals:
  assumes "wf p q" "z \<notin> set (content q)" "x \<in> set (content q)" "p x \<le> p z"
  shows "\<exists>us vs. content (enq p z (p z) q) = us @ z # vs \<and> x \<in> set us"
proof -
  have "x \<in> set (takeWhile (\<lambda>y. p y \<le> p z) (content q))"
    using wf_sorted [OF assms(1)] assms(3,4)
    by (intro sorted_takeWhile) auto
  then show ?thesis using enq_content [OF assms(1,2)] by (auto simp: ins_list_def)
qed

text \<open>Serving \<open>n\<close> times leaves the list without its first \<open>n\<close> entries.\<close>

lemma serve_n:
  "wf p q \<Longrightarrow> content (((\<lambda>q. case first q of None \<Rightarrow> q | Some x \<Rightarrow> del x q) ^^ n) q) = drop n (content q)"
proof (induction n arbitrary: q)
  case (Suc n)
  show ?case
  proof (cases "first q")
    case None
    then have "content q = []" using first_content [of q] by (auto split: list.splits)
    then show ?thesis using Suc None by (simp del: funpow.simps add: funpow_Suc_right)
  next
    case (Some x)
    have "content q = x # content (del x q)" using serve(1) [OF Suc.prems Some] .
    then show ?thesis using Suc.IH [OF del_wf [OF Suc.prems]] Some
      by (simp del: funpow.simps add: funpow_Suc_right)
  qed
qed simp

end

definition tree_wf :: "('a \<Rightarrow> int) \<Rightarrow> 'a rbt \<Rightarrow> bool" where
  "tree_wf p t \<longleftrightarrow> sorted (map p (inorder t)) \<and> distinct (inorder t)"

lemma sorted_remove1_map: "sorted (map p xs) \<Longrightarrow> sorted (map p (remove1 z xs))"
proof (induction xs)
  case (Cons x xs)
  then show ?case using set_remove1_subset [of z xs] by auto
qed simp

interpretation rbq: ready_queue inorder tree_wf rb_insert rb_leftmost rb_remove_node
proof
  fix p :: "'a \<Rightarrow> int" and q z
  show "tree_wf p q \<Longrightarrow> sorted (map p (inorder q)) \<and> distinct (inorder q)" by (simp add: tree_wf_def)
  show i: "tree_wf p q \<Longrightarrow> z \<notin> set (inorder q) \<Longrightarrow> inorder (rb_insert p z (p z) q) = ins_list p z (p z) (inorder q)"
    by (simp add: tree_wf_def inorder_insert)
  show "tree_wf p q \<Longrightarrow> z \<notin> set (inorder q) \<Longrightarrow> tree_wf p (rb_insert p z (p z) q)"
    using sorted_ins_list [of p "inorder q" "p z"] distinct_ins_list [of "inorder q" z p "p z"]
    by (simp add: tree_wf_def inorder_insert) (simp add: ins_list_def)
  show "rb_leftmost q = (case inorder q of [] \<Rightarrow> None | x # xs \<Rightarrow> Some x)" by (rule leftmost_hd)
  show "tree_wf p q \<Longrightarrow> inorder (rb_remove_node z q) = remove1 z (inorder q)"
    by (simp add: tree_wf_def inorder_remove)
  show "tree_wf p q \<Longrightarrow> tree_wf p (rb_remove_node z q)"
    by (simp add: tree_wf_def inorder_remove sorted_remove1_map)
qed

text \<open>
  C37. Insertion into the priority tree. The new process comes after everything that is at least
  as urgent and before everything less urgent, nothing else moves, and the tree keeps the shape
  of a red-black tree: no red node has a red child, all paths have as many black nodes.
\<close>

theorem rb_insert_correct:
  assumes "sorted (map prio (inorder t))" and "rb_shape t"
  shows "inorder (rb_insert prio z key t) = ins_list prio z key (inorder t) \<and> rb_shape (rb_insert prio z key t)"
  using inorder_insert [OF assms(1)] insert_shape [OF assms(2)] by blast

theorem rb_insert_correct_witness:
  "inorder (rb_insert id 3 3 (rb_insert id 5 5 (rb_insert id 4 4 Leaf))) = [3, 4, 5 :: int] \<and>
   rb_shape (rb_insert id 3 3 (rb_insert id 5 5 (rb_insert id (4 :: int) 4 Leaf)))"
proof -
  let ?t = "rb_insert id 5 5 (rb_insert id (4 :: int) 4 Leaf)"
  have "inorder ?t = [4, 5]" "rb_shape ?t"
    by (simp_all add: rb_insert_def rb_shape_def)
  then show ?thesis using rb_insert_correct [of id ?t 3 3] by (simp add: ins_list_def)
qed

end
