(* ===== verification/Region.thy ===== *)
theory Region
  imports OsPrelude
begin

text \<open>
  The virtual memory regions of \<open>src/kernel/mm/mm.c\<close>: the sorted doubly linked list of
  regions of an address space and the pool its nodes come from. The list is the list of
  its nodes; a null map is \<open>None\<close>. \<open>region_inv\<close> is what the early exits of the loops rely on.
\<close>

section \<open>State and operations\<close>

record vregion =
  base :: u64
  rsize :: u64
  prot :: int
  kind :: int
  fd :: int

record vmap =
  regions :: "vregion list"
  cr3 :: u64
  region_count :: u32

definition MAX_REGIONS :: nat where "MAX_REGIONS = 1024 * 16"

text \<open>The pool index \<open>g_region_next\<close> is passed and returned; \<open>None\<close> is an exhausted pool.\<close>

definition region_alloc :: "nat \<Rightarrow> (vregion \<times> nat) option" where
  "region_alloc region_next =
     (if region_next \<ge> MAX_REGIONS then None
      else Some (\<lparr>base = 0, rsize = 0, prot = 0, kind = 0, fd = -1\<rparr>, Suc region_next))"

fun overlaps_loop :: "vregion list \<Rightarrow> u64 \<Rightarrow> u64 \<Rightarrow> bool" where
  "overlaps_loop [] b e = False"
| "overlaps_loop (r # rs) b e =
     (let r_end = base r + rsize r in
      if r_end \<le> base r then True
      else if b < r_end \<and> e > base r then True
      else if base r \<ge> e then False
      else overlaps_loop rs b e)"

definition amm_region_overlaps :: "vmap option \<Rightarrow> u64 \<Rightarrow> u64 \<Rightarrow> bool" where
  "amm_region_overlaps vm b sz =
     (case vm of None \<Rightarrow> False
      | Some m \<Rightarrow>
          if sz = 0 then False
          else let e = b + sz in
            if e \<le> b then True else overlaps_loop (regions m) b e)"

fun insert_walk :: "vregion \<Rightarrow> vregion list \<Rightarrow> vregion list" where
  "insert_walk nr [] = [nr]"
| "insert_walk nr [cur] = [cur, nr]"
| "insert_walk nr (cur # nx # rs) =
     (if base nx < base nr then cur # insert_walk nr (nx # rs) else cur # nr # nx # rs)"

definition insert_sorted :: "vregion \<Rightarrow> vregion list \<Rightarrow> vregion list" where
  "insert_sorted nr rs =
     (case rs of [] \<Rightarrow> nr # rs
      | h # _ \<Rightarrow> if base h > base nr then nr # rs else insert_walk nr rs)"

definition amm_region_add ::
    "vmap option \<Rightarrow> nat \<Rightarrow> u64 \<Rightarrow> u64 \<Rightarrow> int \<Rightarrow> int \<Rightarrow> int \<Rightarrow> int \<times> vmap option \<times> nat" where
  "amm_region_add vm region_next b sz p k f =
     (case vm of None \<Rightarrow> (-1, vm, region_next)
      | Some m \<Rightarrow>
          if sz = 0 then (-1, vm, region_next)
          else if amm_region_overlaps vm b sz then (-1, vm, region_next)
          else (case region_alloc region_next of
            None \<Rightarrow> (-1, vm, region_next)
          | Some (nr, region_next') \<Rightarrow>
              let nr = nr\<lparr>base := b, rsize := sz, prot := p, kind := k, fd := f\<rparr> in
              (0, Some (m\<lparr>regions := insert_sorted nr (regions m),
                          region_count := region_count m + 1\<rparr>), region_next')))"

fun remove_base :: "u64 \<Rightarrow> vregion list \<Rightarrow> vregion list option" where
  "remove_base b [] = None"
| "remove_base b (r # rs) =
     (if base r = b then Some rs
      else case remove_base b rs of None \<Rightarrow> None | Some rs' \<Rightarrow> Some (r # rs'))"

definition amm_region_remove :: "vmap \<Rightarrow> u64 \<Rightarrow> int \<times> vmap" where
  "amm_region_remove m b =
     (case remove_base b (regions m) of None \<Rightarrow> (-1, m)
      | Some rs \<Rightarrow> (0, m\<lparr>regions := rs, region_count := region_count m - 1\<rparr>))"

fun find_loop :: "vregion list \<Rightarrow> u64 \<Rightarrow> vregion option" where
  "find_loop [] addr = None"
| "find_loop (r # rs) addr =
     (if addr \<ge> base r \<and> addr < base r + rsize r then Some r
      else if base r > addr then None
      else find_loop rs addr)"

definition amm_region_find :: "vmap \<Rightarrow> u64 \<Rightarrow> vregion option" where
  "amm_region_find m addr = find_loop (regions m) addr"

section \<open>Invariant\<close>

definition region_ok :: "vregion \<Rightarrow> bool" where
  "region_ok r \<longleftrightarrow> rsize r \<noteq> 0 \<and> unat (base r) + unat (rsize r) < 2 ^ 64"

definition span :: "vregion \<Rightarrow> nat set" where
  "span r = {unat (base r) ..< unat (base r) + unat (rsize r)}"

definition before :: "vregion \<Rightarrow> vregion \<Rightarrow> bool" where
  "before r r' \<longleftrightarrow> unat (base r) + unat (rsize r) \<le> unat (base r')"

definition rlist_ok :: "vregion list \<Rightarrow> bool" where
  "rlist_ok rs \<longleftrightarrow> (\<forall>r\<in>set rs. region_ok r) \<and> sorted_wrt before rs"

definition region_inv :: "vmap \<Rightarrow> bool" where
  "region_inv m \<longleftrightarrow> rlist_ok (regions m) \<and> region_count m = of_nat (length (regions m))"

lemma rlist_ok_Cons:
  "rlist_ok (r # rs) \<longleftrightarrow> region_ok r \<and> (\<forall>r'\<in>set rs. before r r') \<and> rlist_ok rs"
  by (auto simp: rlist_ok_def)

lemma unat_add_sum: "unat (a :: u64) + unat b < 2 ^ 64 \<Longrightarrow> unat (a + b) = unat a + unat b"
  by (simp add: unat_word_ariths)

lemma end_ok: "region_ok r \<Longrightarrow> unat (base r + rsize r) = unat (base r) + unat (rsize r) \<and> 0 < unat (rsize r)"
  by (simp add: region_ok_def unat_add_sum unat_gt_0)

lemma no_wrap_iff:
  assumes "sz \<noteq> (0 :: u64)"
  shows "b < b + sz \<longleftrightarrow> unat b + unat sz < 2 ^ 64"
proof (cases "unat b + unat sz < 2 ^ 64")
  case True
  with assms show ?thesis by (simp add: word_less_nat_alt unat_add_sum unat_gt_0)
next
  case False
  have lt: "unat b + unat sz - 2 ^ 64 < unat b"
    using False unat_lt_2p64 [of b] unat_lt_2p64 [of sz] unfolding two64 by linarith
  then have "unat b + unat sz - 2 ^ 64 < 2 ^ 64"
    using unat_lt_2p64 [of b] unfolding two64 by linarith
  then have "unat (b + sz) = unat b + unat sz - 2 ^ 64"
    using False by (simp add: unat_word_ariths not_less le_mod_geq)
  then show ?thesis using False lt by (simp add: word_less_nat_alt)
qed

lemma overlaps_loop_iff:
  assumes "rlist_ok rs" and "unat b < unat e"
  shows "overlaps_loop rs b e \<longleftrightarrow> (\<exists>r\<in>set rs. span r \<inter> {unat b ..< unat e} \<noteq> {})"
  using assms
proof (induction rs)
  case (Cons r rs)
  have ok: "region_ok r" "rlist_ok rs" "\<forall>r'\<in>set rs. before r r'"
    using Cons.prems(1) by (auto simp: rlist_ok_Cons)
  have here: "span r \<inter> {unat b ..< unat e} \<noteq> {} \<longleftrightarrow>
      unat b < unat (base r) + unat (rsize r) \<and> unat (base r) < unat e"
    using end_ok [OF ok(1)] Cons.prems(2)
    by (auto simp: span_def ivl_disj_int_two not_le dest!: equals0D [of _ "max (unat b) (unat (base r))"])
  have later: "span r' \<inter> {unat b ..< unat e} = {}" if "r' \<in> set rs" "unat e \<le> unat (base r)" for r'
    using ok(3) that by (auto simp: before_def span_def)
  show ?case
    using Cons.IH [OF ok(2) Cons.prems(2)] end_ok [OF ok(1)] here later
    by (auto simp: Let_def word_less_nat_alt word_le_nat_alt not_le)
qed simp

lemma amm_region_overlaps_iff:
  assumes "rlist_ok (regions m)" and "sz \<noteq> 0"
  shows "amm_region_overlaps (Some m) b sz \<longleftrightarrow>
    unat b + unat sz \<ge> 2 ^ 64 \<or>
    (\<exists>r\<in>set (regions m). span r \<inter> {unat b ..< unat b + unat sz} \<noteq> {})"
proof (cases "unat b + unat sz < 2 ^ 64")
  case True
  then have "b < b + sz" using no_wrap_iff [OF assms(2)] by blast
  moreover have "unat (b + sz) = unat b + unat sz" using True by (rule unat_add_sum)
  ultimately show ?thesis
    using overlaps_loop_iff [OF assms(1), of b "b + sz"] assms(2) True
    by (simp add: amm_region_overlaps_def word_less_nat_alt not_le)
next
  case False
  then have "b + sz \<le> b" using no_wrap_iff [OF assms(2), of b] by auto
  then show ?thesis using assms(2) False by (simp add: amm_region_overlaps_def)
qed

text \<open>Insertion before the first region that lies behind the new one.\<close>

lemma insert_walk_ok:
  assumes "rlist_ok (cur # rs)" and "region_ok nr" and "before cur nr"
    and "\<forall>r\<in>set rs. before r nr \<or> before nr r"
  shows "rlist_ok (insert_walk nr (cur # rs)) \<and>
    set (insert_walk nr (cur # rs)) = insert nr (set (cur # rs)) \<and>
    length (insert_walk nr (cur # rs)) = Suc (length (cur # rs))"
  using assms
proof (induction rs arbitrary: cur)
  case (Cons nx rs)
  have nx: "region_ok nx" "rlist_ok (nx # rs)" "\<forall>r'\<in>set rs. before nx r'" "region_ok cur"
    using Cons.prems(1) by (auto simp: rlist_ok_Cons)
  show ?case
  proof (cases "base nx < base nr")
    case True
    then have "before nx nr" using Cons.prems(4) by (auto simp: before_def word_less_nat_alt)
    then have "rlist_ok (insert_walk nr (nx # rs)) \<and>
        set (insert_walk nr (nx # rs)) = insert nr (set (nx # rs)) \<and>
        length (insert_walk nr (nx # rs)) = Suc (length (nx # rs))"
      using Cons.IH [of nx] nx Cons.prems(2,4) by simp
    then show ?thesis using True Cons.prems by (auto simp: rlist_ok_Cons)
  next
    case False
    then have "before nr nx" using Cons.prems(4) end_ok [OF nx(1)]
      by (auto simp: before_def word_less_nat_alt)
    moreover have "before nr r" if "r \<in> set rs" for r
      using calculation nx(3) that end_ok [OF nx(1)] by (auto simp: before_def)
    ultimately show ?thesis using False Cons.prems by (auto simp: rlist_ok_Cons)
  qed
qed (auto simp: rlist_ok_def)

lemma insert_sorted_ok:
  assumes "rlist_ok rs" and "region_ok nr" and "\<forall>r\<in>set rs. span r \<inter> span nr = {}"
  shows "rlist_ok (insert_sorted nr rs) \<and> set (insert_sorted nr rs) = insert nr (set rs) \<and>
    length (insert_sorted nr rs) = Suc (length rs)"
proof -
  have ba: "before r nr \<or> before nr r" if "r \<in> set rs" for r
  proof -
    have "region_ok r" using assms(1) that by (auto simp: rlist_ok_def)
    moreover have "span r \<inter> span nr = {}" using assms(3) that by simp
    ultimately show ?thesis
      using end_ok [of r] end_ok [OF assms(2)]
      by (auto simp: span_def before_def not_le ivl_disj_int_two
        dest!: equals0D [of _ "max (unat (base r)) (unat (base nr))"])
  qed
  show ?thesis
  proof (cases rs)
    case Nil
    then show ?thesis using assms(2) by (simp add: insert_sorted_def rlist_ok_def)
  next
    case (Cons h t)
    have h: "region_ok h" "\<forall>r\<in>set t. before h r" using assms(1) Cons by (auto simp: rlist_ok_Cons)
    show ?thesis
    proof (cases "base h > base nr")
      case True
      then have "before nr h" using ba [of h] Cons by (auto simp: before_def word_less_nat_alt)
      moreover have "before nr r" if "r \<in> set t" for r
        using calculation h that end_ok [OF h(1)] by (auto simp: before_def)
      ultimately show ?thesis
        using True Cons assms(1,2) by (auto simp: insert_sorted_def rlist_ok_Cons)
    next
      case False
      then have "before h nr" using ba [of h] Cons end_ok [OF assms(2)]
        by (auto simp: before_def word_less_nat_alt)
      then show ?thesis
        using insert_walk_ok [of h t nr] assms(1,2) ba Cons False by (simp add: insert_sorted_def)
    qed
  qed
qed

lemma find_loop_iff:
  assumes "rlist_ok rs"
  shows "find_loop rs addr = Some r \<longleftrightarrow> r \<in> set rs \<and> unat addr \<in> span r"
  using assms
proof (induction rs)
  case (Cons h rs)
  have ok: "region_ok h" "rlist_ok rs" "\<forall>r'\<in>set rs. before h r'"
    using Cons.prems by (auto simp: rlist_ok_Cons)
  have in_h: "addr \<ge> base h \<and> addr < base h + rsize h \<longleftrightarrow> unat addr \<in> span h"
    using end_ok [OF ok(1)] by (simp add: span_def word_less_nat_alt word_le_nat_alt)
  have later: "unat addr \<notin> span r'"
    if "r' \<in> set rs" "unat addr \<in> span h \<or> addr < base h" for r'
    using ok(3) that by (auto simp: before_def span_def word_less_nat_alt)
  show ?case
    using Cons.IH [OF ok(2)] in_h later [of r] by (auto split: if_splits)
qed simp

lemma remove_base_ok:
  assumes "rlist_ok rs"
  shows "(case remove_base b rs of None \<Rightarrow> b \<notin> base ` set rs
    | Some rs' \<Rightarrow> rlist_ok rs' \<and> length rs = Suc (length rs') \<and> b \<in> base ` set rs \<and>
        set rs' = {r \<in> set rs. base r \<noteq> b})"
  using assms
proof (induction rs)
  case (Cons r rs)
  have ok: "region_ok r" "rlist_ok rs" "\<forall>r'\<in>set rs. before r r'"
    using Cons.prems by (auto simp: rlist_ok_Cons)
  show ?case
  proof (cases "base r = b")
    case True
    have "base r' \<noteq> b" if "r' \<in> set rs" for r'
      using ok(3) that end_ok [OF ok(1)] True by (auto simp: before_def)
    then show ?thesis using True ok by auto
  next
    case False
    then show ?thesis using Cons.IH [OF ok(2)] ok
      by (auto split: option.splits simp: rlist_ok_Cons)
  qed
qed simp

section \<open>The address map interface\<close>

text \<open>
  What the fault handler and the system calls rely on: a set of disjoint spans and a search
  that finds the one that holds an address. How a search changes when a span is added or
  taken away follows from the interface alone.
\<close>

locale address_map =
  fixes inv :: "'s \<Rightarrow> bool"
    and items :: "'s \<Rightarrow> 'r set"
    and extent :: "'r \<Rightarrow> nat set"
    and find :: "'s \<Rightarrow> u64 \<Rightarrow> 'r option"
  assumes find_iff: "inv s \<Longrightarrow> find s a = Some r \<longleftrightarrow> r \<in> items s \<and> unat a \<in> extent r"
begin

lemma find_none_iff: "inv s \<Longrightarrow> find s a = None \<longleftrightarrow> (\<forall>r\<in>items s. unat a \<notin> extent r)"
  using find_iff [of s a] by (cases "find s a") auto

lemma find_unique:
  "inv s \<Longrightarrow> r \<in> items s \<Longrightarrow> r' \<in> items s \<Longrightarrow> unat (a :: u64) \<in> extent r \<Longrightarrow> unat a \<in> extent r' \<Longrightarrow> r = r'"
  using find_iff [of s a r] find_iff [of s a r'] by simp

lemma find_insert:
  assumes "inv s" and "inv t" and "items t = insert r (items s)"
  shows "find t a = (if unat a \<in> extent r then Some r else find s a)"
proof (cases "find s a")
  case None
  with assms find_none_iff [of s a] find_none_iff [of t a] find_iff [of t a r] show ?thesis by auto
next
  case (Some q)
  with assms find_iff [of s a q] find_iff [of t a q] find_iff [of t a r] show ?thesis by auto
qed

lemma find_remove:
  assumes "inv s" and "inv t" and "r \<in> items s" and "items t = items s - {r}"
  shows "find t a = (if unat a \<in> extent r then None else find s a)"
proof (cases "unat a \<in> extent r")
  case True
  then have "unat a \<notin> extent q" if "q \<in> items t" for q
    using find_unique [OF assms(1,3), of q a] that assms(4) by auto
  then show ?thesis using True find_none_iff [OF assms(2)] by simp
next
  case False
  have "find t a = Some q \<longleftrightarrow> find s a = Some q" for q
    using find_iff [OF assms(1), of a q] find_iff [OF assms(2), of a q] False assms(4) by auto
  then show ?thesis using False by (cases "find s a"; cases "find t a") auto
qed

end

interpretation regs: address_map region_inv "\<lambda>m. set (regions m)" span amm_region_find
  by unfold_locales (simp add: region_inv_def amm_region_find_def find_loop_iff)

section \<open>Properties\<close>

lemma region_add_cases:
  assumes "region_inv m"
  shows "if sz \<noteq> 0 \<and> unat b + unat sz < 2 ^ 64 \<and> nxt < MAX_REGIONS \<and>
      (\<forall>r\<in>set (regions m). span r \<inter> {unat b ..< unat b + unat sz} = {})
    then \<exists>m'. amm_region_add (Some m) nxt b sz p k f = (0, Some m', Suc nxt) \<and> region_inv m' \<and>
      set (regions m') = insert \<lparr>base = b, rsize = sz, prot = p, kind = k, fd = f\<rparr> (set (regions m)) \<and>
      cr3 m' = cr3 m
    else amm_region_add (Some m) nxt b sz p k f = (-1, Some m, nxt)"
proof -
  have ok: "rlist_ok (regions m)" using assms by (simp add: region_inv_def)
  let ?nr = "\<lparr>base = b, rsize = sz, prot = p, kind = k, fd = f\<rparr>"
  let ?free = "unat b + unat sz < 2 ^ 64 \<and>
    (\<forall>r\<in>set (regions m). span r \<inter> {unat b ..< unat b + unat sz} = {})"
  have ov: "amm_region_overlaps (Some m) b sz \<longleftrightarrow> \<not> ?free" if "sz \<noteq> 0"
    using amm_region_overlaps_iff [OF ok that] by auto
  show ?thesis
  proof (cases "sz \<noteq> 0 \<and> nxt < MAX_REGIONS \<and> ?free")
    case True
    have sp: "span ?nr = {unat b ..< unat b + unat sz}" by (simp add: span_def)
    have "rlist_ok (insert_sorted ?nr (regions m)) \<and>
        set (insert_sorted ?nr (regions m)) = insert ?nr (set (regions m)) \<and>
        length (insert_sorted ?nr (regions m)) = Suc (length (regions m))"
      using True sp by (intro insert_sorted_ok [OF ok]) (auto simp: region_ok_def)
    then show ?thesis
      using True ov assms by (simp add: amm_region_add_def region_alloc_def region_inv_def)
  next
    case False
    then show ?thesis using ov by (auto simp: amm_region_add_def region_alloc_def)
  qed
qed

text \<open>
  C7. \<open>amm_region_add\<close> on a well-formed address space adds the region exactly when its size is
  not zero, its end does not wrap around, it overlaps no region and the pool has a node
  left; the space stays sorted and free of overlaps with the right count, and afterwards a
  search gives the new region inside it and what it gave before outside. Otherwise the
  call returns -1 and changes nothing.
\<close>

theorem region_add_correct:
  assumes "region_inv m"
  shows "if sz \<noteq> 0 \<and> unat b + unat sz < 2 ^ 64 \<and> nxt < MAX_REGIONS \<and>
      (\<forall>r\<in>set (regions m). span r \<inter> {unat b ..< unat b + unat sz} = {})
    then \<exists>m'. amm_region_add (Some m) nxt b sz p k f = (0, Some m', Suc nxt) \<and> region_inv m' \<and>
      (\<forall>a. amm_region_find m' a =
        (if unat b \<le> unat a \<and> unat a < unat b + unat sz
         then Some \<lparr>base = b, rsize = sz, prot = p, kind = k, fd = f\<rparr> else amm_region_find m a))
    else amm_region_add (Some m) nxt b sz p k f = (-1, Some m, nxt)"
proof (cases "sz \<noteq> 0 \<and> unat b + unat sz < 2 ^ 64 \<and> nxt < MAX_REGIONS \<and>
      (\<forall>r\<in>set (regions m). span r \<inter> {unat b ..< unat b + unat sz} = {})")
  case True
  let ?nr = "\<lparr>base = b, rsize = sz, prot = p, kind = k, fd = f\<rparr>"
  obtain m' where m': "amm_region_add (Some m) nxt b sz p k f = (0, Some m', Suc nxt)"
    "region_inv m'" "set (regions m') = insert ?nr (set (regions m))"
    using region_add_cases [OF assms, of sz b nxt p k f] True by auto
  have "amm_region_find m' a = (if unat b \<le> unat a \<and> unat a < unat b + unat sz
      then Some ?nr else amm_region_find m a)" for a
    using regs.find_insert [OF assms m'(2,3), of a] by (simp add: span_def)
  with m' True show ?thesis by simp
qed (use region_add_cases [OF assms, of sz b nxt p k f] in \<open>simp only: if_False\<close>)

definition demo_map :: vmap where
  "demo_map = \<lparr>regions = [\<lparr>base = 0x1000, rsize = 0x1000, prot = 1, kind = 0, fd = -1\<rparr>,
     \<lparr>base = 0x8000, rsize = 0x2000, prot = 3, kind = 2, fd = -1\<rparr>], cr3 = 0, region_count = 2\<rparr>"

lemma demo_map_inv: "region_inv demo_map"
  by (simp add: demo_map_def region_inv_def rlist_ok_def region_ok_def before_def)

theorem region_add_correct_witness:
  "region_inv demo_map \<and>
   (\<exists>m'. amm_region_add (Some demo_map) 5 0x2000 0x3000 3 1 (-1) = (0, Some m', 6) \<and>
      amm_region_find m' 0x4FFF = Some \<lparr>base = 0x2000, rsize = 0x3000, prot = 3, kind = 1, fd = -1\<rparr>)"
proof -
  have "\<forall>r\<in>set (regions demo_map).
      span r \<inter> {unat (0x2000 :: u64) ..< unat (0x2000 :: u64) + unat (0x3000 :: u64)} = {}"
    by (auto simp: demo_map_def span_def)
  then show ?thesis
    using region_add_correct [OF demo_map_inv, of "0x3000" "0x2000" 5 3 1 "-1"] demo_map_inv
    by (auto simp: MAX_REGIONS_def)
qed

text \<open>
  C32. \<open>amm_region_remove\<close> removes the one region that starts at the given address: the space
  stays well formed, a search inside the removed region then finds nothing and any other
  search is unchanged; with no such region it returns -1 and changes nothing. And
  \<open>amm_region_find\<close>, in spite of its early exit, finds the region that holds an address
  exactly when there is one.
\<close>

theorem region_remove_find_correct:
  assumes "region_inv m"
  shows "(amm_region_find m a = Some r \<longleftrightarrow> r \<in> set (regions m) \<and> unat a \<in> span r) \<and>
    (if r \<in> set (regions m)
     then \<exists>m'. amm_region_remove m (base r) = (0, m') \<and> region_inv m' \<and>
       (\<forall>x. amm_region_find m' x = (if unat x \<in> span r then None else amm_region_find m x))
     else b \<notin> base ` set (regions m) \<longrightarrow> amm_region_remove m b = (-1, m))"
proof -
  have ok: "rlist_ok (regions m)" using assms by (simp add: region_inv_def)
  show ?thesis
  proof (intro conjI)
    show "amm_region_find m a = Some r \<longleftrightarrow> r \<in> set (regions m) \<and> unat a \<in> span r"
      by (rule regs.find_iff [OF assms])
    show "if r \<in> set (regions m)
     then \<exists>m'. amm_region_remove m (base r) = (0, m') \<and> region_inv m' \<and>
       (\<forall>x. amm_region_find m' x = (if unat x \<in> span r then None else amm_region_find m x))
     else b \<notin> base ` set (regions m) \<longrightarrow> amm_region_remove m b = (-1, m)"
    proof (cases "r \<in> set (regions m)")
      case True
      then obtain rs where rs: "remove_base (base r) (regions m) = Some rs" "rlist_ok rs"
        "length (regions m) = Suc (length rs)" "set rs = {q \<in> set (regions m). base q \<noteq> base r}"
        using remove_base_ok [OF ok, of "base r"] by (auto split: option.splits)
      let ?m = "m\<lparr>regions := rs, region_count := region_count m - 1\<rparr>"
      have "unat (base q) \<in> span q" if "q \<in> set (regions m)" for q
        using ok end_ok [of q] that by (auto simp: rlist_ok_def span_def)
      then have "q = r" if "q \<in> set (regions m)" "base q = base r" for q
        using regs.find_unique [OF assms that(1) True, of "base r"] that True by force
      then have "set rs = set (regions m) - {r}" using rs(4) True by auto
      moreover have "region_inv ?m" using rs assms by (simp add: region_inv_def)
      ultimately show ?thesis
        using regs.find_remove [OF assms, of ?m r] True rs(1) by (simp add: amm_region_remove_def)
    next
      case False
      then show ?thesis
        using remove_base_ok [OF ok, of b] by (auto simp: amm_region_remove_def split: option.splits)
    qed
  qed
qed

theorem region_remove_find_correct_witness:
  "amm_region_find demo_map 0x9000 = Some (regions demo_map ! 1) \<and>
   (\<exists>m'. amm_region_remove demo_map 0x8000 = (0, m') \<and> amm_region_find m' 0x9000 = None)"
  using region_remove_find_correct [OF demo_map_inv, of "0x9000" "regions demo_map ! 1"]
  by (auto simp: demo_map_def span_def)

end
