(* ===== verification/PageTable.thy ===== *)
theory PageTable
  imports PhysMem Region
begin

text \<open>
  Paging in \<open>src/kernel/mm/mm.c\<close>: the four-level tables in physical memory, the walk that
  allocates missing tables, mapping, translation, address space creation and teardown,
  demand paging and eager population. Tables are words of \<open>pmem\<close>; \<open>tree_ok\<close> says that the
  tables reachable from a root form a tree of private pages.
\<close>

section \<open>Definitions\<close>

definition PTE_PRESENT :: u64 where "PTE_PRESENT = 1"
definition PTE_WRITE :: u64 where "PTE_WRITE = 2"
definition PTE_USER :: u64 where "PTE_USER = 4"
definition PTE_NX :: u64 where "PTE_NX = push_bit 63 1"
definition PTE_ADDR_MASK :: u64 where "PTE_ADDR_MASK = 0x000FFFFFFFFFF000"
definition PHYS_MAP_BASE :: u64 where "PHYS_MAP_BASE = 0xFFFFC80000000000"
definition PAGE_INFO_BASE :: u64 where "PAGE_INFO_BASE = 0xFFFF880000000000"
definition AMM_IDENTITY_LIMIT :: u64 where "AMM_IDENTITY_LIMIT = 4 * 1024 * 1024 * 1024"
definition PROT_READ :: int where "PROT_READ = 1"
definition PROT_WRITE :: int where "PROT_WRITE = 2"
definition PROT_EXEC :: int where "PROT_EXEC = 4"

definition PML4_IDX :: "u64 \<Rightarrow> nat" where "PML4_IDX v = unat (drop_bit 39 v AND 0x1FF)"
definition PDPT_IDX :: "u64 \<Rightarrow> nat" where "PDPT_IDX v = unat (drop_bit 30 v AND 0x1FF)"
definition PD_IDX :: "u64 \<Rightarrow> nat" where "PD_IDX v = unat (drop_bit 21 v AND 0x1FF)"
definition PT_IDX :: "u64 \<Rightarrow> nat" where "PT_IDX v = unat (drop_bit 12 v AND 0x1FF)"

definition phys_to_virt :: "amm \<Rightarrow> u64 \<Rightarrow> u64" where
  "phys_to_virt s p = (if early_boot s then p else PHYS_MAP_BASE + p)"

text \<open>The physical address of entry \<open>i\<close> of the table at \<open>p\<close>, and stores to it.\<close>

definition ent :: "u64 \<Rightarrow> nat \<Rightarrow> u64" where
  "ent p i = p + 8 * of_nat i"

definition write_word :: "u64 \<Rightarrow> u64 \<Rightarrow> amm \<Rightarrow> amm" where
  "write_word a v s = s\<lparr>pmem := (pmem s)(a := v)\<rparr>"

definition present :: "u64 \<Rightarrow> bool" where
  "present e \<longleftrightarrow> (e AND PTE_PRESENT) \<noteq> 0"

text \<open>One level of \<open>pt_walk_alloc\<close>: the table below entry \<open>i\<close>, allocated if it is missing.\<close>

definition next_table :: "u64 \<Rightarrow> nat \<Rightarrow> amm \<Rightarrow> u64 option \<times> amm" where
  "next_table tbl i s =
     (if \<not> present (pmem s (ent tbl i)) then
        (case amm_phys_alloc 0 s of (p, s1) \<Rightarrow>
           if p = 0 then (None, s1)
           else let s2 = write_word (ent tbl i) (p OR PTE_PRESENT OR PTE_WRITE OR PTE_USER)
                           (zero_mem p PAGE_SIZE s1) in
             (Some (pmem s2 (ent tbl i) AND PTE_ADDR_MASK), s2))
      else (Some (pmem s (ent tbl i) AND PTE_ADDR_MASK), s))"

definition pt_walk_alloc :: "u64 \<Rightarrow> u64 \<Rightarrow> amm \<Rightarrow> u64 option \<times> amm" where
  "pt_walk_alloc root va s =
     (let pml4 = root AND PTE_ADDR_MASK in
      case next_table pml4 (PML4_IDX va) s of (None, s1) \<Rightarrow> (None, s1)
      | (Some pdpt, s1) \<Rightarrow> (case next_table pdpt (PDPT_IDX va) s1 of (None, s2) \<Rightarrow> (None, s2)
        | (Some pd, s2) \<Rightarrow> (case next_table pd (PD_IDX va) s2 of (None, s3) \<Rightarrow> (None, s3)
          | (Some pt, s3) \<Rightarrow> (Some (ent pt (PT_IDX va)), s3))))"

definition pte_flags :: "int \<Rightarrow> u64" where
  "pte_flags pr =
     (let flags = PTE_PRESENT OR PTE_USER;
          flags = (if (pr AND PROT_WRITE) \<noteq> 0 then flags OR PTE_WRITE else flags) in
      if (pr AND PROT_EXEC) = 0 then flags OR PTE_NX else flags)"

definition map_page :: "u64 \<Rightarrow> u64 \<Rightarrow> u64 \<Rightarrow> int \<Rightarrow> amm \<Rightarrow> amm" where
  "map_page root va pa pr s =
     (case pt_walk_alloc root va s of (None, s1) \<Rightarrow> s1
      | (Some pte, s1) \<Rightarrow> write_word pte ((pa AND PTE_ADDR_MASK) OR pte_flags pr) s1)"

text \<open>The reading walk shared by \<open>amm_virt_to_kva\<close> and \<open>amm_vmap_destroy\<close>.\<close>

definition child :: "amm \<Rightarrow> u64 \<Rightarrow> nat \<Rightarrow> u64 option" where
  "child s tbl i =
     (let e = pmem s (ent tbl i) in if \<not> present e then None else Some (e AND PTE_ADDR_MASK))"

definition leaf_table :: "amm \<Rightarrow> u64 \<Rightarrow> u64 \<Rightarrow> u64 option" where
  "leaf_table s root va =
     (case child s root (PML4_IDX va) of None \<Rightarrow> None
      | Some pdpt \<Rightarrow> (case child s pdpt (PDPT_IDX va) of None \<Rightarrow> None
        | Some pd \<Rightarrow> child s pd (PD_IDX va)))"

definition pt_lookup :: "amm \<Rightarrow> u64 \<Rightarrow> u64 \<Rightarrow> u64 option" where
  "pt_lookup s root va =
     (case leaf_table s root va of None \<Rightarrow> None
      | Some pt \<Rightarrow> let e = pmem s (ent pt (PT_IDX va)) in if \<not> present e then None else Some e)"

definition amm_virt_to_kva :: "vmap option \<Rightarrow> u64 \<Rightarrow> amm \<Rightarrow> u64 option" where
  "amm_virt_to_kva vm va s =
     (case vm of None \<Rightarrow> None
      | Some m \<Rightarrow> (case pt_lookup s (cr3 m AND PTE_ADDR_MASK) va of None \<Rightarrow> None
        | Some e \<Rightarrow> Some (phys_to_virt s ((e AND PTE_ADDR_MASK) OR (va AND (PAGE_SIZE - 1))))))"

definition amm_page_fault :: "vmap \<Rightarrow> u64 \<Rightarrow> bool \<Rightarrow> amm \<Rightarrow> int \<times> amm" where
  "amm_page_fault m fault_addr write s =
     (case amm_region_find m fault_addr of None \<Rightarrow> (-1, s)
      | Some r \<Rightarrow>
          if write \<and> (prot r AND PROT_WRITE) = 0 then (-1, s)
          else (case amm_phys_alloc 0 s of (pa, s1) \<Rightarrow>
            if pa = 0 then (-1, s1)
            else (0, map_page (cr3 m) (fault_addr AND NOT (PAGE_SIZE - 1)) pa (prot r)
                       (zero_mem pa PAGE_SIZE s1))))"

text \<open>
  The loop of \<open>amm_region_populate\<close>; \<open>None\<close> is a loop that does not end, which a range at the
  very top of the address space could cause.
\<close>

partial_function (option) populate_loop ::
    "vmap \<Rightarrow> u64 \<Rightarrow> u64 \<Rightarrow> int \<Rightarrow> amm \<Rightarrow> (bool \<times> amm) option" where
  "populate_loop m va aligned_end pr s =
     (if va < aligned_end then
        if amm_virt_to_kva (Some m) va s \<noteq> None
        then populate_loop m (va + PAGE_SIZE) aligned_end pr s
        else (case amm_phys_alloc 0 s of (pa, s1) \<Rightarrow>
          if pa = 0 then Some (False, s1)
          else populate_loop m (va + PAGE_SIZE) aligned_end pr
                 (map_page (cr3 m) va pa pr (zero_mem pa PAGE_SIZE s1)))
      else Some (True, s))"

definition amm_region_populate ::
    "vmap option \<Rightarrow> u64 \<Rightarrow> u64 \<Rightarrow> int \<Rightarrow> amm \<Rightarrow> (u64 option \<times> amm) option" where
  "amm_region_populate vm b sz pr s =
     (case vm of None \<Rightarrow> Some (None, s)
      | Some m \<Rightarrow>
          if sz = 0 then Some (None, s)
          else let aligned_base = (b AND NOT (PAGE_SIZE - 1));
                   aligned_end = PAGE_ALIGN (b + sz) in
            if aligned_end \<le> aligned_base then Some (None, s)
            else (case populate_loop m aligned_base aligned_end pr s of
                None \<Rightarrow> None
              | Some (False, s1) \<Rightarrow> Some (None, s1)
              | Some (True, s1) \<Rightarrow> Some (amm_virt_to_kva (Some m) b s1, s1)))"

section \<open>Table entries\<close>

lemma idx_bounds [simp]: "PML4_IDX v < 512" "PDPT_IDX v < 512" "PD_IDX v < 512" "PT_IDX v < 512"
proof -
  have "unat (w AND 0x1FF) < 512" for w :: u64
  proof -
    have "(0x1FF :: u64) = mask 9" by (simp add: mask_eq_exp_minus_1)
    then have "w AND 0x1FF = take_bit 9 w" by (simp add: take_bit_eq_mask)
    then have "unat (w AND 0x1FF) = take_bit 9 (unat w)" by (simp add: unsigned_take_bit_eq)
    then show ?thesis using take_bit_nat_less_exp [of 9 "unat w"] by simp
  qed
  then show "PML4_IDX v < 512" "PDPT_IDX v < 512" "PD_IDX v < 512" "PT_IDX v < 512"
    by (simp_all add: PML4_IDX_def PDPT_IDX_def PD_IDX_def PT_IDX_def)
qed

definition table_page :: "u64 \<Rightarrow> bool" where
  "table_page p \<longleftrightarrow> aligned p 0 \<and> (p AND PTE_ADDR_MASK) = p"

lemma aligned_room:
  assumes "aligned p 0"
  shows "unat p + 4096 \<le> 2 ^ 64"
proof -
  obtain m where m: "unat p = m * 4096" using alignedE [OF assms] by auto
  then have "m * 4096 < 4503599627370496 * 4096" using unat_lt_2p64 [of p] by simp
  then have "Suc m \<le> 4503599627370496" by simp
  then show ?thesis using m by simp
qed

lemma unat_ent:
  assumes "aligned p 0" and "i < 512"
  shows "unat (ent p i) = unat p + 8 * i"
proof -
  have lt: "unat p + 8 * i < 2 ^ 64" using aligned_room [OF assms(1)] assms(2) by linarith
  have "ent p i = of_nat (unat p + 8 * i)" by (simp add: ent_def)
  then show ?thesis using unat_of_nat_u64 [OF lt] by simp
qed

lemma ent_inj:
  assumes "aligned p 0" and "aligned q 0" and "i < 512" and "j < 512" and "ent p i = ent q j"
  shows "p = q \<and> i = j"
proof -
  obtain m where m: "unat p = m * 4096" using alignedE [OF assms(1)] by auto
  obtain k where k: "unat q = k * 4096" using alignedE [OF assms(2)] by auto
  have eq: "m * 4096 + 8 * i = k * 4096 + 8 * j"
    using unat_ent [OF assms(1,3)] unat_ent [OF assms(2,4)] assms(5) m k by simp
  have "(m * 4096 + 8 * i) div 4096 = m" "(k * 4096 + 8 * j) div 4096 = k"
    using assms(3,4) by simp_all
  then have "m = k" using eq by metis
  then show ?thesis using eq m k by (simp flip: unat_eq_unat_iff)
qed

lemma zero_mem_pmem [simp]:
  "pmem (zero_mem p n s) a = (if unat (a - p) < unat n then 0 else pmem s a)"
  by (simp add: zero_mem_def)

lemma zero_mem_ent:
  assumes "aligned p 0" and "aligned q 0" and "i < 512"
  shows "pmem (zero_mem p PAGE_SIZE s) (ent q i) = (if p = q then 0 else pmem s (ent q i))"
proof -
  have u: "unat (ent q i) = unat q + 8 * i" using unat_ent [OF assms(2,3)] .
  have "unat (ent q i - p) < 4096 \<longleftrightarrow> p = q"
  proof
    assume a: "unat (ent q i - p) < 4096"
    obtain m where m: "unat p = m * 4096" using alignedE [OF assms(1)] by auto
    obtain k where k: "unat q = k * 4096" using alignedE [OF assms(2)] by auto
    have "p \<le> ent q i"
    proof (rule ccontr)
      assume "\<not> p \<le> ent q i"
      then have "unat (ent q i - p) = 2 ^ 64 + unat (ent q i) - unat p"
        by (simp add: unat_sub_if' word_le_nat_alt)
      then show False using a aligned_room [OF assms(1)] by linarith
    qed
    then have "k * 4096 + 8 * i - m * 4096 < 4096" "m * 4096 \<le> k * 4096 + 8 * i"
      using a u m k by (simp_all add: unat_sub_if' word_le_nat_alt)
    then have "k = m" using assms(3) by linarith
    then show "p = q" using m k by (simp flip: unat_eq_unat_iff)
  next
    assume "p = q"
    then show "unat (ent q i - p) < 4096"
      using u assms(3) by (simp add: unat_sub_if' word_le_nat_alt)
  qed
  then show ?thesis by (simp add: PAGE_SIZE_def)
qed

lemma write_word_pmem [simp]: "pmem (write_word a v s) b = (if b = a then v else pmem s b)"
  by (simp add: write_word_def)

lemma present_bit: "present e \<longleftrightarrow> bit e 0"
  by (simp add: present_def PTE_PRESENT_def and_one_eq bit_0 odd_iff_mod_2_eq_one)

lemma table_entry:
  assumes "table_page p"
  shows "present (p OR PTE_PRESENT OR PTE_WRITE OR PTE_USER) \<and>
    ((p OR PTE_PRESENT OR PTE_WRITE OR PTE_USER) AND PTE_ADDR_MASK) = p"
proof -
  have "((p OR 7) AND PTE_ADDR_MASK) = (p AND PTE_ADDR_MASK)"
    by (simp add: PTE_ADDR_MASK_def bit.conj_disj_distrib2)
  moreover have "p OR PTE_PRESENT OR PTE_WRITE OR PTE_USER = p OR 7"
    by (simp add: PTE_PRESENT_def PTE_WRITE_def PTE_USER_def)
  moreover have "((p OR 7) AND 1) \<noteq> 0"
    by (simp add: bit_eq_iff) (auto simp: bit_simps intro!: exI [of _ 0])
  ultimately show ?thesis using assms by (simp add: table_page_def present_def PTE_PRESENT_def)
qed

section \<open>Trees of tables\<close>

text \<open>
  \<open>T\<close> gives the level of every table page: 4 for the root, 1 for the tables that hold the
  page entries. \<open>I\<close> are the entries of the root that belong to the tree; the others, such as
  the kernel half of a user address space, are shared with other trees.
\<close>

definition in_tree :: "u64 \<Rightarrow> nat set \<Rightarrow> (u64 \<rightharpoonup> nat) \<Rightarrow> u64 \<Rightarrow> nat \<Rightarrow> nat \<Rightarrow> bool" where
  "in_tree root I T p l i \<longleftrightarrow> T p = Some (Suc l) \<and> 1 \<le> l \<and> i < 512 \<and> (p = root \<longrightarrow> i \<in> I)"

definition tree_ok :: "amm \<Rightarrow> u64 \<Rightarrow> nat set \<Rightarrow> (u64 \<rightharpoonup> nat) \<Rightarrow> bool" where
  "tree_ok s root I T \<longleftrightarrow> T root = Some 4 \<and>
     (\<forall>p l. T p = Some l \<longrightarrow> 1 \<le> l \<and> l \<le> 4 \<and> table_page p) \<and>
     (\<forall>p l i q. in_tree root I T p l i \<longrightarrow> child s p i = Some q \<longrightarrow> T q = Some l) \<and>
     (\<forall>p l i p' l' i' q. in_tree root I T p l i \<longrightarrow> in_tree root I T p' l' i' \<longrightarrow>
        child s p i = Some q \<longrightarrow> child s p' i' = Some q \<longrightarrow> p = p' \<and> i = i')"

lemma tree_root: "tree_ok s root I T \<Longrightarrow> T root = Some 4"
  by (simp add: tree_ok_def)

lemma tree_level: "tree_ok s root I T \<Longrightarrow> T p = Some l \<Longrightarrow> 1 \<le> l \<and> l \<le> 4 \<and> table_page p"
  by (simp add: tree_ok_def)

lemma tree_page: "tree_ok s root I T \<Longrightarrow> T p = Some l \<Longrightarrow> table_page p \<and> aligned p 0"
  by (simp add: tree_ok_def table_page_def)

lemma tree_child:
  "tree_ok s root I T \<Longrightarrow> in_tree root I T p l i \<Longrightarrow> child s p i = Some q \<Longrightarrow> T q = Some l"
  unfolding tree_ok_def by blast

lemma tree_inj:
  "tree_ok s root I T \<Longrightarrow> in_tree root I T p l i \<Longrightarrow> in_tree root I T p' l' i' \<Longrightarrow>
   child s p i = Some q \<Longrightarrow> child s p' i' = Some q \<Longrightarrow> p = p' \<and> i = i'"
  unfolding tree_ok_def by blast

lemma tree_okI:
  assumes "T root = Some 4" and "\<And>p l. T p = Some l \<Longrightarrow> 1 \<le> l \<and> l \<le> 4 \<and> table_page p"
    and "\<And>p l i q. in_tree root I T p l i \<Longrightarrow> child s p i = Some q \<Longrightarrow> T q = Some l"
    and "\<And>p l i p' l' i' q. in_tree root I T p l i \<Longrightarrow> in_tree root I T p' l' i' \<Longrightarrow>
      child s p i = Some q \<Longrightarrow> child s p' i' = Some q \<Longrightarrow> p = p' \<and> i = i'"
  shows "tree_ok s root I T"
  unfolding tree_ok_def using assms by blast

lemma child_cong: "pmem s' (ent p i) = pmem s (ent p i) \<Longrightarrow> child s' p i = child s p i"
  by (simp add: child_def)

lemma tree_cong:
  assumes "tree_ok s root I T"
    and "\<And>p l i. in_tree root I T p l i \<Longrightarrow> child s' p i = child s p i"
  shows "tree_ok s' root I T"
proof (rule tree_okI)
  have c: "child s p i = Some q" if "in_tree root I T p l i" "child s' p i = Some q" for p l i q
    unfolding assms(2) [OF that(1), symmetric] by (rule that(2))
  show "T q = Some l" if "in_tree root I T p l i" "child s' p i = Some q" for p l i q
    by (rule tree_child [OF assms(1) that(1) c [OF that]])
  show "p = p' \<and> i = i'" if "in_tree root I T p l i" "in_tree root I T p' l' i'"
    "child s' p i = Some q" "child s' p' i' = Some q" for p l i p' l' i' q
    by (rule tree_inj [OF assms(1) that(1,2) c [OF that(1,3)] c [OF that(2,4)]])
qed (rule tree_root [OF assms(1)], rule tree_level [OF assms(1)])

lemma leaf_table_same:
  "PML4_IDX va = PML4_IDX va' \<Longrightarrow> PDPT_IDX va = PDPT_IDX va' \<Longrightarrow> PD_IDX va = PD_IDX va' \<Longrightarrow>
   leaf_table s root va = leaf_table s root va'"
  by (simp only: leaf_table_def)

lemma leaf_table_level:
  assumes "tree_ok s root I T" and "PML4_IDX va \<in> I" and "leaf_table s root va = Some t"
  obtains a b where "child s root (PML4_IDX va) = Some a" "child s a (PDPT_IDX va) = Some b"
    "child s b (PD_IDX va) = Some t" "T a = Some 3" "T b = Some 2" "T t = Some 1"
    "in_tree root I T root 3 (PML4_IDX va)" "in_tree root I T a 2 (PDPT_IDX va)"
    "in_tree root I T b 1 (PD_IDX va)"
proof -
  obtain a b where c: "child s root (PML4_IDX va) = Some a" "child s a (PDPT_IDX va) = Some b"
    "child s b (PD_IDX va) = Some t"
    using assms(3) by (auto simp: leaf_table_def split: option.splits)
  have r: "in_tree root I T root 3 (PML4_IDX va)"
    using tree_root [OF assms(1)] assms(2) by (simp add: in_tree_def)
  then have a: "T a = Some 3" using tree_child [OF assms(1) _ c(1)] by simp
  then have a': "in_tree root I T a 2 (PDPT_IDX va)"
    using tree_root [OF assms(1)] by (auto simp: in_tree_def)
  then have b: "T b = Some 2" using tree_child [OF assms(1) _ c(2)] by simp
  then have b': "in_tree root I T b 1 (PD_IDX va)"
    using tree_root [OF assms(1)] by (auto simp: in_tree_def)
  then have t: "T t = Some 1" using tree_child [OF assms(1) _ c(3)] by simp
  show ?thesis by (rule that [OF c a b t r a' b'])
qed

text \<open>Two addresses share a leaf table only if they agree in all upper indices.\<close>

lemma leaf_table_inj:
  assumes "tree_ok s root I T" and "PML4_IDX va \<in> I" and "PML4_IDX va' \<in> I"
    and "leaf_table s root va = Some t" and "leaf_table s root va' = Some t"
  shows "PML4_IDX va = PML4_IDX va' \<and> PDPT_IDX va = PDPT_IDX va' \<and> PD_IDX va = PD_IDX va'"
proof (rule leaf_table_level [OF assms(1,2,4)], rule leaf_table_level [OF assms(1,3,5)])
  fix a b c d
  assume 1: "child s root (PML4_IDX va) = Some a" "child s a (PDPT_IDX va) = Some b"
    "child s b (PD_IDX va) = Some t" "in_tree root I T root 3 (PML4_IDX va)"
    "in_tree root I T a 2 (PDPT_IDX va)" "in_tree root I T b 1 (PD_IDX va)"
  assume 2: "child s root (PML4_IDX va') = Some c" "child s c (PDPT_IDX va') = Some d"
    "child s d (PD_IDX va') = Some t" "in_tree root I T root 3 (PML4_IDX va')"
    "in_tree root I T c 2 (PDPT_IDX va')" "in_tree root I T d 1 (PD_IDX va')"
  have bd: "b = d" "PD_IDX va = PD_IDX va'"
    using tree_inj [OF assms(1) 1(6) 2(6) 1(3) 2(3)] by auto
  have ac: "a = c" "PDPT_IDX va = PDPT_IDX va'"
    using tree_inj [OF assms(1) 1(5) 2(5) 1(2)] 2(2) bd by auto
  have "PML4_IDX va = PML4_IDX va'"
    using tree_inj [OF assms(1) 1(4) 2(4) 1(1)] 2(1) ac by auto
  with bd ac show ?thesis by simp
qed

lemma leaf_table_cong:
  assumes "tree_ok s root I T" and "PML4_IDX va \<in> I"
    and ch: "\<And>p l i. in_tree root I T p l i \<Longrightarrow> child s' p i = child s p i"
  shows "leaf_table s' root va = leaf_table s root va"
proof -
  note tr = tree_root [OF assms(1)]
  have r: "in_tree root I T root 3 (PML4_IDX va)" using tr assms(2) by (simp add: in_tree_def)
  show ?thesis
  proof (cases "child s root (PML4_IDX va)")
    case (Some a)
    then have a: "in_tree root I T a 2 (PDPT_IDX va)"
      using tree_child [OF assms(1) r] tr by (auto simp: in_tree_def)
    show ?thesis
    proof (cases "child s a (PDPT_IDX va)")
      case (Some b)
      then have "in_tree root I T b 1 (PD_IDX va)"
        using tree_child [OF assms(1) a] tr by (auto simp: in_tree_def)
      then show ?thesis
        using Some \<open>child s root _ = _\<close> ch [OF r] ch [OF a] ch by (simp add: leaf_table_def)
    qed (use Some ch [OF r] ch [OF a] in \<open>simp add: leaf_table_def\<close>)
  qed (use ch [OF r] in \<open>simp add: leaf_table_def\<close>)
qed

definition same_page :: "u64 \<Rightarrow> u64 \<Rightarrow> bool" where
  "same_page va va' \<longleftrightarrow> PML4_IDX va = PML4_IDX va' \<and> PDPT_IDX va = PDPT_IDX va' \<and>
     PD_IDX va = PD_IDX va' \<and> PT_IDX va = PT_IDX va'"

text \<open>A store to a leaf entry changes the translation of its page and of no other.\<close>

lemma write_leaf:
  assumes "tree_ok s root I T" and "PML4_IDX va \<in> I" and "leaf_table s root va = Some t"
    and "present v"
  defines "s' \<equiv> write_word (ent t (PT_IDX va)) v s"
  shows "tree_ok s' root I T \<and>
    (\<forall>va'. PML4_IDX va' \<in> I \<longrightarrow>
      pt_lookup s' root va' = (if same_page va va' then Some v else pt_lookup s root va'))"
proof -
  have t: "T t = Some 1" by (rule leaf_table_level [OF assms(1-3)])
  have ch: "child s' p i = child s p i" if "in_tree root I T p l i" for p l i
  proof (rule child_cong)
    have "p \<noteq> t" using that t by (auto simp: in_tree_def)
    then have "ent p i \<noteq> ent t (PT_IDX va)"
      using ent_inj [of p t i "PT_IDX va"] that t tree_page [OF assms(1)] by (auto simp: in_tree_def)
    then show "pmem s' (ent p i) = pmem s (ent p i)" by (simp add: s'_def)
  qed
  have tree: "tree_ok s' root I T" by (rule tree_cong [OF assms(1) ch])
  have lt: "leaf_table s' root va' = leaf_table s root va'" if i: "PML4_IDX va' \<in> I" for va'
    by (rule leaf_table_cong [OF assms(1) i ch])
  have "pt_lookup s' root va' = (if same_page va va' then Some v else pt_lookup s root va')"
    if i: "PML4_IDX va' \<in> I" for va'
  proof (cases "leaf_table s root va'")
    case None
    moreover have "\<not> same_page va va'"
      using None assms(3) leaf_table_same [of va va' s root] by (auto simp: same_page_def)
    ultimately show ?thesis using lt [OF i] by (simp add: pt_lookup_def)
  next
    case (Some t')
    have t': "T t' = Some 1" by (rule leaf_table_level [OF assms(1) i Some])
    have "ent t' (PT_IDX va') = ent t (PT_IDX va) \<longleftrightarrow> same_page va va'"
    proof
      assume "ent t' (PT_IDX va') = ent t (PT_IDX va)"
      then have "t' = t" "PT_IDX va' = PT_IDX va"
        using ent_inj [of t' t "PT_IDX va'" "PT_IDX va"] t t' tree_page [OF assms(1)] by auto
      then show "same_page va va'"
        using leaf_table_inj [OF assms(1,2) i assms(3)] Some by (simp add: same_page_def)
    next
      assume "same_page va va'"
      then show "ent t' (PT_IDX va') = ent t (PT_IDX va)"
        using Some assms(3) leaf_table_same [of va va' s root] by (simp add: same_page_def)
    qed
    then show ?thesis using lt [OF i] Some assms(4) by (simp add: pt_lookup_def s'_def)
  qed
  with tree show ?thesis by blast
qed

section \<open>Hanging a fresh table into the tree\<close>

lemma child_write:
  assumes "table_page q"
  shows "child (write_word (ent p i) (q OR PTE_PRESENT OR PTE_WRITE OR PTE_USER) s) p i = Some q"
  using table_entry [OF assms] by (simp add: child_def)

text \<open>
  \<open>s'\<close> is \<open>s\<close> with the page \<open>q\<close>, new to the tree, zeroed and entered at entry \<open>i\<close> of the table
  \<open>p\<close>, which was not present.
\<close>

definition hung :: "amm \<Rightarrow> amm \<Rightarrow> (u64 \<rightharpoonup> nat) \<Rightarrow> u64 \<Rightarrow> nat \<Rightarrow> u64 \<Rightarrow> bool" where
  "hung s s' T p i q \<longleftrightarrow> child s p i = None \<and> child s' p i = Some q \<and> T q = None \<and>
     table_page q \<and> (\<forall>j < 512. pmem s' (ent q j) = 0) \<and>
     (\<forall>x l j. T x = Some l \<longrightarrow> j < 512 \<longrightarrow> (x, j) \<noteq> (p, i) \<longrightarrow> pmem s' (ent x j) = pmem s (ent x j))"

lemma hung_other:
  assumes "hung s s' T p i q" and "T x = Some l" and "j < 512" and "(x, j) \<noteq> (p, i)"
  shows "pmem s' (ent x j) = pmem s (ent x j)" and "child s' x j = child s x j"
proof -
  show e: "pmem s' (ent x j) = pmem s (ent x j)" using assms unfolding hung_def by blast
  show "child s' x j = child s x j" by (rule child_cong [OF e])
qed

lemma hung_empty: "hung s s' T p i q \<Longrightarrow> j < 512 \<Longrightarrow> child s' q j = None"
  by (simp add: hung_def child_def present_def)

lemma hung_tree:
  assumes "tree_ok s root I T" and "hung s s' T p i q" and "in_tree root I T p l i"
  shows "tree_ok s' root I (T(q \<mapsto> l))"
proof (rule tree_okI)
  have q: "T q = None" "table_page q" "child s' p i = Some q" using assms(2) by (simp_all add: hung_def)
  have l: "1 \<le> l" "Suc l \<le> 4" "T p = Some (Suc l)"
    using assms(3) tree_level [OF assms(1), of p "Suc l"] by (auto simp: in_tree_def)
  have root: "q \<noteq> root" using q(1) tree_root [OF assms(1)] by auto
  have old: "in_tree root I T x m j" "x \<noteq> q"
    if "in_tree root I (T(q \<mapsto> l)) x m j" "child s' x j = Some y" for x m j y
  proof -
    show "x \<noteq> q" using that hung_empty [OF assms(2), of j] by (auto simp: in_tree_def)
    then show "in_tree root I T x m j" using that by (simp add: in_tree_def)
  qed
  have step: "(x = p \<and> j = i \<and> y = q \<and> m = l) \<or> (child s x j = Some y \<and> T y = Some m)"
    if "in_tree root I (T(q \<mapsto> l)) x m j" "child s' x j = Some y" for x m j y
  proof (cases "(x, j) = (p, i)")
    case True
    then show ?thesis using that q(3) old [OF that] l(3) by (auto simp: in_tree_def)
  next
    case False
    have o: "in_tree root I T x m j" by (rule old [OF that])
    then have "child s' x j = child s x j"
      using hung_other(2) [OF assms(2) _ _ False] by (auto simp: in_tree_def)
    then show ?thesis using tree_child [OF assms(1) o] that(2) by auto
  qed
  show "(T(q \<mapsto> l)) root = Some 4" using tree_root [OF assms(1)] root by simp
  show "1 \<le> m \<and> m \<le> 4 \<and> table_page x" if "(T(q \<mapsto> l)) x = Some m" for x m
    using that q l tree_level [OF assms(1), of x m] by (auto split: if_splits)
  show "(T(q \<mapsto> l)) y = Some m"
    if "in_tree root I (T(q \<mapsto> l)) x m j" "child s' x j = Some y" for x m j y
    using step [OF that] q(1) by auto
  show "x = x' \<and> j = j'"
    if a: "in_tree root I (T(q \<mapsto> l)) x m j" and b: "in_tree root I (T(q \<mapsto> l)) x' m' j'"
      and c: "child s' x j = Some y" and d: "child s' x' j' = Some y" for x m j x' m' j' y
  proof (cases "y = q")
    case True
    then show ?thesis using step [OF a c] step [OF b d] q(1) by auto
  next
    case False
    then have "child s x j = Some y" "child s x' j' = Some y"
      using step [OF a c] step [OF b d] by auto
    then show ?thesis by (rule tree_inj [OF assms(1) old(1) [OF a c] old(1) [OF b d]])
  qed
qed

text \<open>A fresh, empty table translates nothing: no translation of the tree changes.\<close>

lemma hung_lookup:
  assumes "tree_ok s root I T" and "hung s s' T p i q" and "in_tree root I T p l i"
    and "PML4_IDX va \<in> I"
  shows "pt_lookup s' root va = pt_lookup s root va"
proof -
  note tr = tree_root [OF assms(1)]
  have none: "pt_lookup s' root va = None \<and> pt_lookup s root va = None"
    if "leaf_table s root va = None"
      and "leaf_table s' root va = None \<or> leaf_table s' root va = Some q"
  proof -
    have "\<not> present (pmem s' (ent q (PT_IDX va)))"
      using assms(2) by (simp add: hung_def present_def)
    then show ?thesis using that by (auto simp: pt_lookup_def)
  qed
  have r: "in_tree root I T root 3 (PML4_IDX va)" using tr assms(4) by (simp add: in_tree_def)
  have pi: "child s p i = None" "child s' p i = Some q" using assms(2) by (simp_all add: hung_def)
  have step: "child s' x j = child s x j \<or> (child s x j = None \<and> child s' x j = Some q)"
    if "in_tree root I T x m j" for x m j
  proof (cases "(x, j) = (p, i)")
    case False
    then show ?thesis
      using that hung_other(2) [OF assms(2), of x "Suc m" j] by (auto simp: in_tree_def)
  qed (use pi in simp)
  note e = hung_empty [OF assms(2)]
  show ?thesis
  proof (cases "child s root (PML4_IDX va)")
    case None
    then show ?thesis using step [OF r] none e by (auto simp: leaf_table_def)
  next
    case (Some a)
    then have a: "child s' root (PML4_IDX va) = Some a" using step [OF r] by simp
    have ta: "in_tree root I T a 2 (PDPT_IDX va)"
      using tree_child [OF assms(1) r Some] tr by (auto simp: in_tree_def)
    show ?thesis
    proof (cases "child s a (PDPT_IDX va)")
      case None
      then show ?thesis using step [OF ta] none e Some a by (auto simp: leaf_table_def)
    next
      case b0: (Some b)
      then have b: "child s' a (PDPT_IDX va) = Some b" using step [OF ta] by simp
      have tb: "in_tree root I T b 1 (PD_IDX va)"
        using tree_child [OF assms(1) ta b0] tr by (auto simp: in_tree_def)
      show ?thesis
      proof (cases "child s b (PD_IDX va)")
        case None
        then show ?thesis using step [OF tb] none Some a b0 b by (auto simp: leaf_table_def)
      next
        case t0: (Some t)
        then have t: "child s' b (PD_IDX va) = Some t" using step [OF tb] by simp
        have tt: "T t = Some 1" by (rule tree_child [OF assms(1) tb t0])
        then have "(t, PT_IDX va) \<noteq> (p, i)" using assms(3) by (auto simp: in_tree_def)
        then have "pmem s' (ent t (PT_IDX va)) = pmem s (ent t (PT_IDX va))"
          by (rule hung_other(1) [OF assms(2) tt idx_bounds(4)])
        then show ?thesis using Some a b0 b t0 t by (simp add: pt_lookup_def leaf_table_def)
      qed
    qed
  qed
qed

section \<open>What the walk needs of the page allocator\<close>

text \<open>
  \<open>own s P\<close>: the pages in \<open>P\<close> are in use. A successful allocation returns a page that is not in
  use and changes no memory outside it; a failed one changes no memory.
\<close>

locale page_owner =
  fixes own :: "amm \<Rightarrow> u64 set \<Rightarrow> bool"
  assumes alloc_page: "own s P \<Longrightarrow> amm_phys_alloc 0 s = (p, s') \<Longrightarrow> p \<noteq> 0 \<Longrightarrow>
      own s' (insert p P) \<and> p \<notin> P \<and> table_page p \<and>
      (\<forall>a. 4096 \<le> unat (a - p) \<longrightarrow> pmem s' a = pmem s a)"
    and alloc_none: "own s P \<Longrightarrow> amm_phys_alloc 0 s = (0, s') \<Longrightarrow> own s' P \<and> pmem s' = pmem s"
    and own_pmem: "own s P \<Longrightarrow> own (s\<lparr>pmem := m\<rparr>) P"

text \<open>
  \<open>grown\<close>: the tree may have more tables, the old ones keep their place, and every translation
  is what it was.
\<close>

definition grown :: "u64 \<Rightarrow> nat set \<Rightarrow> amm \<Rightarrow> (u64 \<rightharpoonup> nat) \<Rightarrow> amm \<Rightarrow> (u64 \<rightharpoonup> nat) \<Rightarrow> bool" where
  "grown root I s T s' T' \<longleftrightarrow> tree_ok s' root I T' \<and> T \<subseteq>\<^sub>m T' \<and>
     (\<forall>va. PML4_IDX va \<in> I \<longrightarrow> pt_lookup s' root va = pt_lookup s root va) \<and>
     (\<forall>p l i q. in_tree root I T p l i \<longrightarrow> child s p i = Some q \<longrightarrow> child s' p i = Some q)"

lemma grown_refl: "tree_ok s root I T \<Longrightarrow> grown root I s T s T"
  by (simp add: grown_def)

lemma in_tree_mono: "T \<subseteq>\<^sub>m T' \<Longrightarrow> in_tree root I T p l i \<Longrightarrow> in_tree root I T' p l i"
  by (auto simp: in_tree_def map_le_def dom_def)

lemma grown_trans:
  assumes "grown root I s T t U" and "grown root I t U u V"
  shows "grown root I s T u V"
proof -
  have "T \<subseteq>\<^sub>m V" using assms map_le_trans unfolding grown_def by blast
  moreover have "child u p i = Some q"
    if "in_tree root I T p l i" "child s p i = Some q" for p l i q
  proof -
    have "child t p i = Some q" "in_tree root I U p l i"
      using assms(1) that in_tree_mono unfolding grown_def by blast+
    then show ?thesis using assms(2) unfolding grown_def by blast
  qed
  ultimately show ?thesis using assms unfolding grown_def by auto
qed

lemma hung_grown:
  assumes "tree_ok s root I T" and "hung s s' T p i q" and "in_tree root I T p l i"
  shows "grown root I s T s' (T(q \<mapsto> l))"
proof -
  have "T q = None" "child s p i = None" using assms(2) by (simp_all add: hung_def)
  then have "T \<subseteq>\<^sub>m T(q \<mapsto> l)" by (auto simp: map_le_def)
  moreover have "child s' x j = Some y" if "in_tree root I T x m j" "child s x j = Some y" for x m j y
  proof -
    have "(x, j) \<noteq> (p, i)" using that \<open>child s p i = None\<close> by auto
    then show ?thesis
      using hung_other(2) [OF assms(2), of x "Suc m" j] that by (simp add: in_tree_def)
  qed
  ultimately show ?thesis
    using hung_tree [OF assms] hung_lookup [OF assms] unfolding grown_def by blast
qed

lemma grown_same:
  assumes "tree_ok s root I T"
    and e: "\<And>x l j. T x = Some l \<Longrightarrow> j < 512 \<Longrightarrow> pmem s' (ent x j) = pmem s (ent x j)"
  shows "grown root I s T s' T"
proof -
  have ch: "child s' p i = child s p i" if "in_tree root I T p l i" for p l i
    using that by (intro child_cong e) (auto simp: in_tree_def)
  have "pt_lookup s' root va = pt_lookup s root va" if va: "PML4_IDX va \<in> I" for va
  proof (cases "leaf_table s root va")
    case None
    then show ?thesis using leaf_table_cong [OF assms(1) va ch] by (simp add: pt_lookup_def)
  next
    case (Some t)
    have "T t = Some 1" by (rule leaf_table_level [OF assms(1) va Some])
    then show ?thesis
      using Some e [of t 1 "PT_IDX va"] leaf_table_cong [OF assms(1) va ch] by (simp add: pt_lookup_def)
  qed
  moreover have "tree_ok s' root I T" by (rule tree_cong [OF assms(1) ch])
  moreover have "child s' p i = Some q" if "in_tree root I T p l i" "child s p i = Some q" for p l i q
    using that ch [OF that(1)] by simp
  ultimately show ?thesis by (simp add: grown_def)
qed

text \<open>
  Every address lies in one page; storing to a table or clearing a fresh page leaves the other
  pages alone. \<open>kept\<close>: the pages in use stay in use, none of them turns into a table, and what is
  not a table keeps its content.
\<close>

lemma page_addr:
  assumes "aligned x 0" and "unat (a - x) < 4096"
  shows "unat a = unat x + unat (a - x)" and "unat x = unat a div 4096 * 4096"
proof -
  have "unat x + unat (a - x) < 2 ^ 64" using aligned_room [OF assms(1)] assms(2) by linarith
  then have "unat (x + (a - x)) = unat x + unat (a - x)" by (subst unat_word_ariths) simp
  then show u: "unat a = unat x + unat (a - x)" by simp
  obtain m where m: "unat x = m * 4096" using alignedE [OF assms(1)] by auto
  show "unat x = unat a div 4096 * 4096" using assms(2) by (simp add: u m)
qed

lemma page_unique:
  assumes "aligned x 0" and "aligned y 0" and "unat (a - x) < 4096" and "unat (a - y) < 4096"
  shows "x = y"
  using page_addr(2) [OF assms(1,3)] page_addr(2) [OF assms(2,4)] by (simp flip: unat_eq_unat_iff)

lemma ent_in_page: "aligned p 0 \<Longrightarrow> i < 512 \<Longrightarrow> unat (ent p i - p) < 4096"
  by (simp add: ent_def unat_word_ariths unat_of_nat_u64)

definition kept :: "amm \<Rightarrow> (u64 \<rightharpoonup> nat) \<Rightarrow> u64 set \<Rightarrow> amm \<Rightarrow> (u64 \<rightharpoonup> nat) \<Rightarrow> u64 set \<Rightarrow> bool" where
  "kept s T P s' T' P' \<longleftrightarrow> P \<subseteq> P' \<and> dom T \<subseteq> dom T' \<and> dom T' \<inter> P \<subseteq> dom T \<and>
     (\<forall>x a. x \<in> P \<and> x \<notin> dom T \<and> aligned x 0 \<and> unat (a - x) < 4096 \<longrightarrow> pmem s' a = pmem s a)"

lemma kept_refl: "kept s T P s T P"
  by (simp add: kept_def)

lemma kept_more: "kept s T P s' T P' \<Longrightarrow> q \<notin> P \<Longrightarrow> kept s T P s' (T(q \<mapsto> l)) P'"
  by (auto simp: kept_def)

lemma keptI:
  assumes "P \<subseteq> P'" and "dom T \<subseteq> dom T'" and "dom T' \<inter> P \<subseteq> dom T"
    and "\<And>x a. x \<in> P \<Longrightarrow> x \<notin> dom T \<Longrightarrow> aligned x 0 \<Longrightarrow> unat (a - x) < 4096 \<Longrightarrow> pmem s' a = pmem s a"
  shows "kept s T P s' T' P'"
  unfolding kept_def
proof (intro conjI allI impI assms(1-3))
  fix x a assume "x \<in> P \<and> x \<notin> dom T \<and> aligned x 0 \<and> unat (a - x) < 4096"
  then show "pmem s' a = pmem s a" using assms(4) [of x a] by simp
qed

lemma keptD:
  assumes "kept s T P s' T' P'"
  shows "P \<subseteq> P'" "dom T \<subseteq> dom T'" "dom T' \<inter> P \<subseteq> dom T"
    "x \<in> P \<Longrightarrow> x \<notin> dom T \<Longrightarrow> aligned x 0 \<Longrightarrow> unat (a - x) < 4096 \<Longrightarrow> pmem s' a = pmem s a"
  using assms by (simp_all add: kept_def)

lemma kept_trans:
  assumes "kept s T P t U Q" and "kept t U Q u V R"
  shows "kept s T P u V R"
proof -
  note 1 = keptD [OF assms(1)] and 2 = keptD [OF assms(2)]
  have m: "pmem u a = pmem s a" if x: "x \<in> P" "x \<notin> dom T" "aligned x 0" "unat (a - x) < 4096" for x a
  proof -
    have "x \<in> Q" "x \<notin> dom U" using 1(1,3) x by blast+
    then show ?thesis using 1(4) [OF x] 2(4) x(3,4) by simp
  qed
  have "dom V \<inter> P \<subseteq> dom T" using 1(1,3) 2(3) by blast
  then show ?thesis by (rule keptI [OF order_trans [OF 1(1) 2(1)] order_trans [OF 1(2) 2(2)] _ m])
qed

lemma kept_write:
  assumes "tree_ok s root I T" and "T p = Some l" and "i < 512"
  shows "kept s T P (write_word (ent p i) v s) T P"
proof -
  have pa: "aligned p 0" using tree_page [OF assms(1,2)] by simp
  have "a \<noteq> ent p i" if "aligned x 0" "unat (a - x) < 4096" "x \<notin> dom T" for x a
    using page_unique [OF that(1) pa that(2)] ent_in_page [OF pa assms(3)] that(3) assms(2) by auto
  then show ?thesis by (auto simp: kept_def write_word_def)
qed

context page_owner
begin

lemma own_write: "own s P \<Longrightarrow> own (write_word a v s) P"
  by (simp add: write_word_def own_pmem)

lemma own_zero: "own s P \<Longrightarrow> own (zero_mem p n s) P"
  by (simp add: zero_mem_def own_pmem)

lemma alloc_zero_other:
  assumes "own s P" and "amm_phys_alloc 0 s = (q, s1)" and "q \<noteq> 0" and "x \<in> P" and "aligned x 0"
    and "j < 512"
  shows "pmem (zero_mem q PAGE_SIZE s1) (ent x j) = pmem s (ent x j)"
proof -
  have q: "q \<notin> P" "table_page q" and m: "\<And>a. 4096 \<le> unat (a - q) \<Longrightarrow> pmem s1 a = pmem s a"
    using alloc_page [OF assms(1-3)] by auto
  have qa: "aligned q 0" using q(2) by (simp add: table_page_def)
  have "\<not> unat (ent x j - q) < unat PAGE_SIZE"
    using zero_mem_ent [OF qa assms(5,6), of "s1\<lparr>pmem := \<lambda>_. 1\<rparr>"] q(1) assms(4)
    by (auto split: if_splits)
  then show ?thesis using m [of "ent x j"] by (simp add: PAGE_SIZE_def)
qed

lemma alloc_zero_grown:
  assumes "tree_ok s root I T" and "own s P" and "dom T \<subseteq> P" and "amm_phys_alloc 0 s = (q, s1)"
    and "q \<noteq> 0"
  shows "grown root I s T (zero_mem q PAGE_SIZE s1) T \<and> own (zero_mem q PAGE_SIZE s1) (insert q P) \<and>
    q \<notin> P \<and> table_page q"
proof -
  have "pmem (zero_mem q PAGE_SIZE s1) (ent x j) = pmem s (ent x j)" if "T x = Some l" "j < 512" for x l j
    using that assms(3) tree_page [OF assms(1) that(1)]
    by (intro alloc_zero_other [OF assms(2,4,5)]) auto
  then have "grown root I s T (zero_mem q PAGE_SIZE s1) T" by (rule grown_same [OF assms(1)])
  then show ?thesis using alloc_page [OF assms(2,4,5)] own_zero by blast
qed

lemma alloc_zero_kept:
  assumes "own s P" and "amm_phys_alloc 0 s = (q, s1)" and "q \<noteq> 0"
  shows "kept s T P (zero_mem q PAGE_SIZE s1) T (insert q P)"
proof -
  have q: "q \<notin> P" "aligned q 0" and m: "\<And>a. 4096 \<le> unat (a - q) \<Longrightarrow> pmem s1 a = pmem s a"
    using alloc_page [OF assms] by (auto simp: table_page_def)
  have z: "pmem (zero_mem q PAGE_SIZE s1) a = pmem s a"
    if "x \<in> P" "aligned x 0" "unat (a - x) < 4096" for x a
    using page_unique [OF that(2) q(2) that(3)] that(1) q(1) m [of a]
    by (auto simp: PAGE_SIZE_def not_less)
  show ?thesis by (rule keptI [OF _ _ _ z]) auto
qed

lemma alloc_hung:
  assumes "tree_ok s root I T" and "own s P" and "dom T \<subseteq> P" and "in_tree root I T p l i"
    and "child s p i = None" and "amm_phys_alloc 0 s = (q, s1)" and "q \<noteq> 0"
  defines "s2 \<equiv> write_word (ent p i) (q OR PTE_PRESENT OR PTE_WRITE OR PTE_USER) (zero_mem q PAGE_SIZE s1)"
  shows "hung s s2 T p i q \<and> own s2 (insert q P)"
proof -
  have q: "own s1 (insert q P)" "q \<notin> P" "table_page q"
    using alloc_page [OF assms(2,6,7)] by auto
  have Tq: "T q = None" using q(2) assms(3) by auto
  have qa: "aligned q 0" using q(3) by (simp add: table_page_def)
  have pa: "aligned p 0" "i < 512" "T p = Some (Suc l)"
    using assms(4) tree_page [OF assms(1)] by (auto simp: in_tree_def)
  have ne: "ent x j \<noteq> ent p i" if "aligned x 0" "j < 512" "(x, j) \<noteq> (p, i)" for x j
    using ent_inj [OF that(1) pa(1) that(2) pa(2)] that(3) by auto
  have z: "pmem s2 (ent q j) = 0" if "j < 512" for j
  proof -
    have "q \<noteq> p" using Tq pa(3) by auto
    then show ?thesis
      using ne [OF qa that] zero_mem_ent [OF qa qa that, of s1] by (simp add: s2_def)
  qed
  have o: "pmem s2 (ent x j) = pmem s (ent x j)"
    if "T x = Some k" "j < 512" "(x, j) \<noteq> (p, i)" for x k j
  proof -
    have xa: "aligned x 0" "x \<in> P" using tree_page [OF assms(1) that(1)] that(1) assms(3) by auto
    then have "pmem (zero_mem q PAGE_SIZE s1) (ent x j) = pmem s (ent x j)"
      using alloc_zero_other [OF assms(2,6,7)] that(2) by blast
    then show ?thesis using ne [OF xa(1) that(2,3)] by (simp add: s2_def)
  qed
  have "child s2 p i = Some q" unfolding s2_def by (rule child_write [OF q(3)])
  then have "hung s s2 T p i q" using assms(5) Tq q(3) z o unfolding hung_def by blast
  moreover have "own s2 (insert q P)" unfolding s2_def by (intro own_write own_zero q(1))
  ultimately show ?thesis by blast
qed

lemma next_table_spec:
  assumes "tree_ok s root I T" and "own s P" and "dom T \<subseteq> P" and "in_tree root I T p l i"
    and "next_table p i s = (r, s')"
  obtains T' P' where "grown root I s T s' T'" "own s' P'" "dom T' \<subseteq> P'" "kept s T P s' T' P'"
    "\<And>q. r = Some q \<Longrightarrow> T' q = Some l \<and> child s' p i = Some q"
proof (cases "child s p i")
  case None
  then have np: "\<not> present (pmem s (ent p i))" by (simp add: child_def Let_def split: if_splits)
  obtain q s1 where a: "amm_phys_alloc 0 s = (q, s1)" by fastforce
  show ?thesis
  proof (cases "q = 0")
    case True
    then have r: "r = None" "s' = s1" using assms(5) np a by (simp_all add: next_table_def)
    have o: "own s1 P" "pmem s1 = pmem s" using alloc_none [OF assms(2)] a True by auto
    have "grown root I s T s1 T" using o(2) by (intro grown_same [OF assms(1)]) simp
    then show ?thesis using that [of T P] r o assms(3) by (simp add: kept_def)
  next
    case False
    let ?s2 = "write_word (ent p i) (q OR PTE_PRESENT OR PTE_WRITE OR PTE_USER) (zero_mem q PAGE_SIZE s1)"
    have h: "hung s ?s2 T p i q" "own ?s2 (insert q P)"
      using alloc_hung [OF assms(1-4) None a False] by auto
    have c: "child ?s2 p i = Some q" using h(1) by (simp add: hung_def)
    then have "r = Some q" "s' = ?s2"
      using assms(5) np a False by (auto simp: next_table_def child_def Let_def split: if_splits)
    moreover have "kept s T P ?s2 (T(q \<mapsto> l)) (insert q P)"
    proof (rule kept_more [OF kept_trans [OF alloc_zero_kept [OF assms(2) a False] kept_write]])
      show "tree_ok (zero_mem q PAGE_SIZE s1) root I T"
        using alloc_zero_grown [OF assms(1-3) a False] by (simp add: grown_def)
      show "T p = Some (Suc l)" "i < 512" using assms(4) by (simp_all add: in_tree_def)
      show "q \<notin> P" using alloc_page [OF assms(2) a False] by simp
    qed
    ultimately show ?thesis
      using that [of "T(q \<mapsto> l)" "insert q P"] hung_grown [OF assms(1) h(1) assms(4)] h(2) c assms(3)
      by auto
  qed
next
  case (Some q)
  then have "r = Some q" "s' = s"
    using assms(5) by (auto simp: next_table_def child_def Let_def split: if_splits)
  then show ?thesis
    using that [of T P] grown_refl [OF assms(1)] assms(2,3) Some tree_child [OF assms(1,4)]
    by (simp add: kept_refl)
qed

lemma pt_walk_spec:
  assumes "tree_ok s root I T" and "own s P" and "dom T \<subseteq> P" and "PML4_IDX va \<in> I"
    and "pt_walk_alloc root va s = (r, s')"
  obtains T' P' where "grown root I s T s' T'" "own s' P'" "dom T' \<subseteq> P'" "kept s T P s' T' P'"
    "\<And>pte. r = Some pte \<Longrightarrow> \<exists>t. leaf_table s' root va = Some t \<and> pte = ent t (PT_IDX va)"
proof -
  have rm: "root AND PTE_ADDR_MASK = root"
    using tree_page [OF assms(1) tree_root [OF assms(1)]] by (simp add: table_page_def)
  note tr = tree_root [OF assms(1)]
  have r4: "in_tree root I T root 3 (PML4_IDX va)" using tr assms(4) by (simp add: in_tree_def)
  obtain r1 s1 where n1: "next_table root (PML4_IDX va) s = (r1, s1)" by fastforce
  obtain T1 P1 where g1: "grown root I s T s1 T1" "own s1 P1" "dom T1 \<subseteq> P1" "kept s T P s1 T1 P1"
    and c1: "\<And>q. r1 = Some q \<Longrightarrow> T1 q = Some 3 \<and> child s1 root (PML4_IDX va) = Some q"
    using next_table_spec [OF assms(1-3) r4 n1] by metis
  show ?thesis
  proof (cases r1)
    case None
    then show ?thesis using that [of T1 P1] g1 assms(5) n1 rm by (simp add: pt_walk_alloc_def)
  next
    case (Some a)
    have t1: "tree_ok s1 root I T1" "T1 root = Some 4" using g1(1) tree_root by (auto simp: grown_def)
    have a: "in_tree root I T1 a 2 (PDPT_IDX va)" using c1 [OF Some] t1(2) by (auto simp: in_tree_def)
    have r1: "in_tree root I T1 root 3 (PML4_IDX va)" using t1(2) assms(4) by (simp add: in_tree_def)
    obtain r2 s2 where n2: "next_table a (PDPT_IDX va) s1 = (r2, s2)" by fastforce
    obtain T2 P2 where g2: "grown root I s1 T1 s2 T2" "own s2 P2" "dom T2 \<subseteq> P2" "kept s1 T1 P1 s2 T2 P2"
      and c2: "\<And>q. r2 = Some q \<Longrightarrow> T2 q = Some 2 \<and> child s2 a (PDPT_IDX va) = Some q"
      using next_table_spec [OF t1(1) g1(2,3) a n2] by metis
    have gg2: "grown root I s T s2 T2" by (rule grown_trans [OF g1(1) g2(1)])
    have k2: "kept s T P s2 T2 P2" by (rule kept_trans [OF g1(4) g2(4)])
    show ?thesis
    proof (cases r2)
      case None
      then show ?thesis using that [of T2 P2] gg2 g2(2,3) k2 assms(5) n1 n2 rm Some by (simp add: pt_walk_alloc_def)
    next
      case b: (Some b)
      have t2: "tree_ok s2 root I T2" "T2 root = Some 4" using g2(1) tree_root by (auto simp: grown_def)
      have tb: "in_tree root I T2 b 1 (PD_IDX va)" using c2 [OF b] t2(2) by (auto simp: in_tree_def)
      obtain r3 s3 where n3: "next_table b (PD_IDX va) s2 = (r3, s3)" by fastforce
      obtain T3 P3 where g3: "grown root I s2 T2 s3 T3" "own s3 P3" "dom T3 \<subseteq> P3" "kept s2 T2 P2 s3 T3 P3"
        and c3: "\<And>q. r3 = Some q \<Longrightarrow> T3 q = Some 1 \<and> child s3 b (PD_IDX va) = Some q"
        using next_table_spec [OF t2(1) g2(2,3) tb n3] by metis
      have gg3: "grown root I s T s3 T3" by (rule grown_trans [OF gg2 g3(1)])
      have k3: "kept s T P s3 T3 P3" by (rule kept_trans [OF k2 g3(4)])
      have "child s2 root (PML4_IDX va) = Some a"
        using g2(1) r1 c1 [OF Some] unfolding grown_def by blast
      moreover have "in_tree root I T2 root 3 (PML4_IDX va)" "in_tree root I T2 a 2 (PDPT_IDX va)"
        using in_tree_mono [of T1 T2] r1 a g2(1) by (auto simp: grown_def)
      ultimately have c: "child s3 root (PML4_IDX va) = Some a" "child s3 a (PDPT_IDX va) = Some b"
        using g3(1) c2 [OF b] unfolding grown_def by blast+
      have res: "s' = s3" "r = (case r3 of None \<Rightarrow> None | Some pt \<Rightarrow> Some (ent pt (PT_IDX va)))"
        using assms(5) n1 n2 n3 rm Some b by (auto simp: pt_walk_alloc_def split: option.splits)
      show ?thesis
        using that [of T3 P3] gg3 g3(2,3) k3 res c3 c by (auto simp: leaf_table_def split: option.splits)
    qed
  qed
qed

text \<open>
  \<open>map_page\<close>: the tree stays a tree, the page gets its entry unless memory runs out, and no
  other page's translation changes.
\<close>

lemma map_page_spec:
  assumes "tree_ok s root I T" and "own s P" and "dom T \<subseteq> P" and "PML4_IDX va \<in> I"
  obtains T' P' where "tree_ok (map_page root va pa pr s) root I T'"
    "own (map_page root va pa pr s) P'" "dom T' \<subseteq> P'" "kept s T P (map_page root va pa pr s) T' P'"
    "\<And>va'. PML4_IDX va' \<in> I \<Longrightarrow> pt_lookup (map_page root va pa pr s) root va' =
       (if fst (pt_walk_alloc root va s) \<noteq> None \<and> same_page va va'
        then Some ((pa AND PTE_ADDR_MASK) OR pte_flags pr) else pt_lookup s root va')"
proof -
  obtain r s1 where w: "pt_walk_alloc root va s = (r, s1)" by fastforce
  obtain T1 P1 where g: "grown root I s T s1 T1" "own s1 P1" "dom T1 \<subseteq> P1" "kept s T P s1 T1 P1"
    and pte: "\<And>pte. r = Some pte \<Longrightarrow> \<exists>t. leaf_table s1 root va = Some t \<and> pte = ent t (PT_IDX va)"
    using pt_walk_spec [OF assms w] by metis
  have t1: "tree_ok s1 root I T1" and same: "\<And>va'. PML4_IDX va' \<in> I \<Longrightarrow>
      pt_lookup s1 root va' = pt_lookup s root va'" using g(1) by (auto simp: grown_def)
  show ?thesis
  proof (cases r)
    case None
    then show ?thesis using that [of T1 P1] t1 g same w by (simp add: map_page_def)
  next
    case (Some q)
    then obtain t where t: "leaf_table s1 root va = Some t" "q = ent t (PT_IDX va)"
      using pte by blast
    have pr: "present ((pa AND PTE_ADDR_MASK) OR pte_flags pr)"
      by (simp add: present_bit pte_flags_def Let_def PTE_PRESENT_def bit_simps)
    have "T1 t = Some 1" by (rule leaf_table_level [OF t1 assms(4) t(1)])
    then have "kept s T P (write_word q ((pa AND PTE_ADDR_MASK) OR pte_flags pr) s1) T1 P1"
      unfolding t(2) by (rule kept_trans [OF g(4) kept_write [OF t1]]) simp
    with write_leaf [OF t1 assms(4) t(1) pr] show ?thesis
      using that [of T1 P1] g(2,3) same w Some t(2) own_write by (simp add: map_page_def)
  qed
qed

end

text \<open>
  An allocator that counts its pages: an allocation fails only if none is left, and takes one.
  A walk allocates at most three tables.
\<close>

locale counted_owner = page_owner own for own +
  fixes avail :: "amm \<Rightarrow> nat"
  assumes alloc_avail: "own s P \<Longrightarrow> amm_phys_alloc 0 s = (p, s') \<Longrightarrow>
      avail s = (if p = 0 then 0 else Suc (avail s'))"
    and avail_pmem: "avail (s\<lparr>pmem := m\<rparr>) = avail s"
begin

lemma next_table_avail:
  assumes "own s P" and "next_table p i s = (r, s')"
  shows "(\<exists>P'. own s' P') \<and> avail s \<le> Suc (avail s') \<and> (r = None \<longrightarrow> avail s = 0)"
proof (cases "present (pmem s (ent p i))")
  case True
  then show ?thesis using assms by (auto simp: next_table_def)
next
  case False
  obtain q s1 where a: "amm_phys_alloc 0 s = (q, s1)" by fastforce
  show ?thesis
  proof (cases "q = 0")
    case True
    then show ?thesis
      using False assms(2) a alloc_none [OF assms(1)] alloc_avail [OF assms(1) a] by (auto simp: next_table_def)
  next
    case q: False
    let ?s2 = "write_word (ent p i) (q OR PTE_PRESENT OR PTE_WRITE OR PTE_USER) (zero_mem q PAGE_SIZE s1)"
    have o: "own s1 (insert q P)" and av: "avail s = Suc (avail s1)"
      using alloc_page [OF assms(1) a q] alloc_avail [OF assms(1) a] q by auto
    have "own ?s2 (insert q P)" by (intro own_write own_zero o)
    moreover have "avail ?s2 = avail s1" by (simp add: avail_pmem write_word_def zero_mem_def)
    moreover have "r \<noteq> None" "s' = ?s2" using False assms(2) a q by (auto simp: next_table_def Let_def)
    ultimately show ?thesis using av by auto
  qed
qed

lemma pt_walk_avail:
  assumes "own s P" and "3 \<le> avail s"
  shows "fst (pt_walk_alloc root va s) \<noteq> None"
proof -
  let ?r = "root AND PTE_ADDR_MASK"
  obtain r1 s1 where n1: "next_table ?r (PML4_IDX va) s = (r1, s1)" by fastforce
  from next_table_avail [OF assms(1) n1] assms(2) obtain a P1
    where 1: "r1 = Some a" "own s1 P1" "2 \<le> avail s1" by fastforce
  obtain r2 s2 where n2: "next_table a (PDPT_IDX va) s1 = (r2, s2)" by fastforce
  from next_table_avail [OF 1(2) n2] 1(3) obtain b P2
    where 2: "r2 = Some b" "own s2 P2" "1 \<le> avail s2" by fastforce
  obtain r3 s3 where n3: "next_table b (PD_IDX va) s2 = (r3, s3)" by fastforce
  from next_table_avail [OF 2(2) n3] 2(3) have "r3 \<noteq> None" by auto
  then show ?thesis using n1 n2 n3 1(1) 2(1) by (auto simp: pt_walk_alloc_def)
qed

end

section \<open>The two allocators own pages\<close>

lemma take_bit_aligned: "aligned p 0 \<longleftrightarrow> take_bit 12 p = 0"
proof -
  have "aligned p 0 \<longleftrightarrow> take_bit 12 (unat p) = 0" by (simp add: aligned_def take_bit_eq_0_iff)
  also have "\<dots> \<longleftrightarrow> unat (take_bit 12 p) = 0" by (simp only: unsigned_take_bit_eq)
  finally show ?thesis by (simp only: unat_eq_zero)
qed

lemma aligned_bits: "aligned p 0 \<Longrightarrow> bit p n \<Longrightarrow> 12 \<le> n"
proof (rule ccontr)
  assume a: "aligned p 0" "bit p n" "\<not> 12 \<le> n"
  then have "bit (take_bit 12 p) n" by (simp only: bit_take_bit_iff) simp
  then show False using a(1) by (simp only: take_bit_aligned) simp
qed

lemma table_pageI:
  assumes "aligned p 0" and "unat p < 2 ^ 52"
  shows "table_page p"
proof -
  have m: "PTE_ADDR_MASK = (mask 52 AND NOT (mask 12))"
    by (simp add: PTE_ADDR_MASK_def mask_eq_exp_minus_1)
  have "take_bit 52 (unat p) = unat p" using assms(2) by (rule take_bit_nat_eq_self)
  then have "unat (take_bit 52 p) = unat p" by (simp only: unsigned_take_bit_eq)
  then have high: "take_bit 52 p = p" by simp
  have "n < 52" if "bit p n" for n
    using that bit_take_bit_iff [of 52 p n] high by simp
  with aligned_bits [OF assms(1)] have "p AND PTE_ADDR_MASK = p"
    unfolding m by (intro bit_word_eqI) (auto simp: bit_simps not_less)
  then show ?thesis using assms(1) by (simp add: table_page_def)
qed

lemma alloc_frame:
  assumes "\<not> early_boot s" and "amm_phys_alloc order s = (p, s')"
  shows "pmem s' = pmem s \<and> kernel_cr3 s' = kernel_cr3 s"
proof -
  have "pmem (snd (alloc_loop order ord s)) = pmem s \<and>
      kernel_cr3 (snd (alloc_loop order ord s)) = kernel_cr3 s" for ord
  proof (induction order ord s rule: alloc_loop.induct)
    case (1 order ord s)
    have "pmem (split_down order q n u) = pmem u \<and> kernel_cr3 (split_down order q n u) = kernel_cr3 u"
      for q n u
      by (induction n arbitrary: u) (simp_all add: phys_free_block_def)
    with 1 show ?case
      by (auto simp: alloc_loop.simps [of order ord s] mark_alloc_def take_block_def split: list.splits)
  qed
  from this [of order] show ?thesis using assms by (auto simp: amm_phys_alloc_def split: if_splits)
qed

lemmas alloc_pmem = alloc_frame [THEN conjunct1]

definition own_buddy :: "amm \<Rightarrow> u64 set \<Rightarrow> bool" where
  "own_buddy s P \<longleftrightarrow> \<not> early_boot s \<and> free_set s \<subseteq> {1 ..< 2 ^ 40} \<and>
     (\<exists>A. pinv s A {} \<and> (\<forall>p\<in>P. pg p \<in> cover A))"

definition own_bump :: "amm \<Rightarrow> u64 set \<Rightarrow> bool" where
  "own_bump s P \<longleftrightarrow> early_boot s \<and> unat (bump_end s) < 2 ^ 52 \<and> aligned (bump_cur s) 0 \<and>
     bump_cur s \<le> bump_end s \<and> bump_cur s \<noteq> 0 \<and> (\<forall>p\<in>P. p < bump_cur s)"

lemma page_bound: "aligned p 0 \<Longrightarrow> pg p < 2 ^ 40 \<Longrightarrow> unat p < 2 ^ 52"
  by (elim alignedE) simp

lemma own_buddy_alloc:
  assumes "own_buddy s P" and "amm_phys_alloc 0 s = (p, s')"
  shows "if p = 0 then s' = s
    else own_buddy s' (insert p P) \<and> p \<notin> P \<and> table_page p"
proof -
  obtain A where A: "pinv s A {}" "\<forall>p\<in>P. pg p \<in> cover A" and e: "\<not> early_boot s"
    and f: "free_set s \<subseteq> {1 ..< 2 ^ 40}" using assms(1) by (auto simp: own_buddy_def)
  have "0 \<le> MAX_ORDER" by simp
  note sp = alloc_spec [OF A(1) e this assms(2)]
  show ?thesis
  proof (cases "\<exists>ord. 0 \<le> ord \<and> ord \<le> MAX_ORDER \<and> lists (phys s) ord \<noteq> []")
    case True
    then have r: "pinv s' (insert (p, 0) A) {}" "\<not> early_boot s'" "aligned p 0"
      "blk (p, 0) \<subseteq> free_set s" "blk (p, 0) \<inter> cover A = {}" "free_set s' = free_set s - blk (p, 0)"
      using sp by simp_all
    have pp: "pg p \<in> blk (p, 0)" by simp
    have b: "pg p \<in> {1 ..< 2 ^ 40}" using pp r(4) f by blast
    have "p \<notin> P" using A(2) r(5) pp by blast
    moreover have "own_buddy s' (insert p P)"
      unfolding own_buddy_def using r f A(2) pp by (intro conjI exI [of _ "insert (p, 0) A"]) auto
    moreover have "table_page p" using r(3) b page_bound [of p] by (intro table_pageI) auto
    moreover have "p \<noteq> 0" using b by (auto simp: pg_div)
    ultimately show ?thesis by simp
  next
    case False
    then show ?thesis using sp by (simp only: False if_False) simp
  qed
qed

lemma page_align_aligned:
  assumes "aligned x 0"
  shows "((x + PAGE_SIZE - 1) AND NOT (PAGE_SIZE - 1)) = x"
proof -
  have m: "(4095 :: u64) = mask 12" by (simp add: mask_eq_exp_minus_1)
  note low = aligned_bits [OF assms]
  have "x AND 4095 = 0"
    unfolding m by (rule bit_word_eqI) (use low in \<open>auto simp: bit_simps dest!: leD\<close>)
  then have "x + 4095 = x OR 4095" by (rule disjunctive_add_eq_or)
  moreover have "((x OR 4095) AND NOT 4095) = x"
    unfolding m by (rule bit_word_eqI) (use low in \<open>auto simp: bit_simps not_less\<close>)
  ultimately show ?thesis by (simp add: PAGE_SIZE_def add.commute)
qed

lemma own_bump_alloc:
  assumes "own_bump s P" and "amm_phys_alloc 0 s = (p, s')"
  shows "if p = 0 then s' = s
    else own_bump s' (insert p P) \<and> p \<notin> P \<and> table_page p \<and>
      (\<forall>a. 4096 \<le> unat (a - p) \<longrightarrow> pmem s' a = pmem s a)"
proof -
  let ?c = "bump_cur s"
  have o: "early_boot s" "unat (bump_end s) < 2 ^ 52" "aligned ?c 0" "?c \<le> bump_end s" "?c \<noteq> 0"
    "\<forall>p\<in>P. p < ?c" using assms(1) by (auto simp: own_bump_def)
  have al: "((?c + PAGE_SIZE - 1) AND NOT (PAGE_SIZE - 1)) = ?c" by (rule page_align_aligned [OF o(3)])
  have cs: "unat ?c < 2 ^ 52" using o(2,4) by (simp add: word_le_nat_alt)
  then have sum: "unat (?c + PAGE_SIZE) = unat ?c + 4096"
    by (simp add: unat_word_ariths PAGE_SIZE_def)
  have res: "(p, s') = (if ?c + PAGE_SIZE > bump_end s then (0, s)
      else (?c, zero_mem ?c PAGE_SIZE (s\<lparr>bump_cur := ?c + PAGE_SIZE\<rparr>)))"
    using assms(2) o(1) by (simp add: amm_phys_alloc_def bump_alloc_def Let_def al cong: if_cong)
  show ?thesis
  proof (cases "?c + PAGE_SIZE > bump_end s")
    case True
    then show ?thesis using res by simp
  next
    case False
    then have r: "p = ?c" "s' = zero_mem ?c PAGE_SIZE (s\<lparr>bump_cur := ?c + PAGE_SIZE\<rparr>)"
      using res by auto
    have "4096 dvd unat (?c + PAGE_SIZE)" using sum o(3) by (simp add: aligned_def)
    then have "aligned (?c + PAGE_SIZE) 0" by (simp add: aligned_def)
    moreover have "?c < ?c + PAGE_SIZE" "?c + PAGE_SIZE \<noteq> 0"
      using sum by (auto simp: word_less_nat_alt simp flip: unat_eq_unat_iff)
    ultimately have "own_bump s' (insert p P)"
      using o False r by (auto simp: own_bump_def zero_mem_def not_less)
    moreover have "p \<notin> P" using o(6) r(1) by auto
    moreover have "table_page p" unfolding r(1) using o(3) cs by (rule table_pageI)
    ultimately show ?thesis using r o(5) by (auto simp: PAGE_SIZE_def)
  qed
qed

lemma buddy_avail:
  assumes "own_buddy s P" and "amm_phys_alloc 0 s = (p, s')"
  shows "card (free_set s) = (if p = 0 then 0 else Suc (card (free_set s')))"
proof -
  obtain A where A: "pinv s A {}" and e: "\<not> early_boot s" and f: "free_set s \<subseteq> {1 ..< 2 ^ 40}"
    using assms(1) by (auto simp: own_buddy_def)
  have "0 \<le> MAX_ORDER" by simp
  note sp = alloc_spec [OF A e this assms(2)]
  have fin: "finite (free_set s)" by (rule finite_subset [OF f]) simp
  show ?thesis
  proof (cases "\<exists>ord. 0 \<le> ord \<and> ord \<le> MAX_ORDER \<and> lists (phys s) ord \<noteq> []")
    case True
    then have r: "blk (p, 0) \<subseteq> free_set s" "free_set s' = free_set s - blk (p, 0)" using sp by simp_all
    have b: "blk (p, 0) = {pg p}" by (simp add: blk_def)
    then have "p \<noteq> 0" using r(1) f by (auto simp: pg_div)
    moreover have "card (free_set s) = Suc (card (free_set s - {pg p}))"
      using r(1) b fin by (intro card.remove) auto
    ultimately show ?thesis using r(2) b by simp
  next
    case False
    then have p: "p = 0" using sp by (simp only: False if_False)
    have "ord \<le> MAX_ORDER" if "(a, ord) \<in> free_blocks s" for a ord
      using tiling_blockD [OF pinv_tiling [OF A]] that by blast
    then have "free_blocks s = {}" using False by (fastforce simp: free_blocks_def)
    then show ?thesis using p by (simp add: free_set_def)
  qed
qed

lemma bump_avail:
  assumes "own_bump s P" and "amm_phys_alloc 0 s = (p, s')"
  shows "(unat (bump_end s) - unat (bump_cur s)) div 4096 =
    (if p = 0 then 0 else Suc ((unat (bump_end s') - unat (bump_cur s')) div 4096))"
proof -
  let ?c = "bump_cur s"
  have o: "early_boot s" "unat (bump_end s) < 2 ^ 52" "aligned ?c 0" "?c \<le> bump_end s" "?c \<noteq> 0"
    using assms(1) by (auto simp: own_bump_def)
  have al: "((?c + PAGE_SIZE - 1) AND NOT (PAGE_SIZE - 1)) = ?c" by (rule page_align_aligned [OF o(3)])
  have "unat ?c < 2 ^ 52" using o(2,4) by (simp add: word_le_nat_alt)
  then have sum: "unat (?c + PAGE_SIZE) = unat ?c + 4096"
    by (simp add: unat_word_ariths PAGE_SIZE_def)
  have res: "(p, s') = (if ?c + PAGE_SIZE > bump_end s then (0, s)
      else (?c, zero_mem ?c PAGE_SIZE (s\<lparr>bump_cur := ?c + PAGE_SIZE\<rparr>)))"
    using assms(2) o(1) by (simp add: amm_phys_alloc_def bump_alloc_def Let_def al cong: if_cong)
  have gt: "?c + PAGE_SIZE > bump_end s \<longleftrightarrow> unat (bump_end s) < unat ?c + 4096"
    unfolding word_less_nat_alt sum ..
  show ?thesis
  proof (cases "unat (bump_end s) < unat ?c + 4096")
    case True
    then have "unat (bump_end s) - unat ?c < 4096" by linarith
    then have "(unat (bump_end s) - unat ?c) div 4096 = 0" by (rule div_less)
    moreover have "p = 0" using res gt True by simp
    ultimately show ?thesis by simp
  next
    case False
    then have "unat (bump_end s) - unat ?c = (unat (bump_end s) - (unat ?c + 4096)) + 4096" by linarith
    then have "(unat (bump_end s) - unat ?c) div 4096 = Suc ((unat (bump_end s) - (unat ?c + 4096)) div 4096)"
      by (simp only: div_add_self2 [of "4096 :: nat", simplified] Suc_eq_plus1)
    moreover have "p = ?c" "s' = zero_mem ?c PAGE_SIZE (s\<lparr>bump_cur := ?c + PAGE_SIZE\<rparr>)"
      using res gt False by simp_all
    moreover from this have "bump_end s' = bump_end s" "unat (bump_cur s') = unat ?c + 4096"
      using sum by (simp_all add: zero_mem_def)
    ultimately show ?thesis using o(5) by simp
  qed
qed

interpretation buddy: counted_owner own_buddy "\<lambda>s. card (free_set s)"
proof unfold_locales
  fix s P p s' assume a: "own_buddy s P" "amm_phys_alloc 0 s = (p, s')"
  have e: "pmem s' = pmem s" using alloc_pmem [OF _ a(2)] a(1) by (simp add: own_buddy_def)
  show "own_buddy s' (insert p P) \<and> p \<notin> P \<and> table_page p \<and>
      (\<forall>a. 4096 \<le> unat (a - p) \<longrightarrow> pmem s' a = pmem s a)" if "p \<noteq> 0"
    using own_buddy_alloc [OF a] that e by simp
next
  fix s P s' assume "own_buddy s P" "amm_phys_alloc 0 s = (0, s')"
  then show "own_buddy s' P \<and> pmem s' = pmem s" using own_buddy_alloc [of s P 0 s'] by simp
next
  fix s P m assume "own_buddy s P"
  moreover have "pinv (s\<lparr>pmem := m\<rparr>) A {} \<longleftrightarrow> pinv s A {}" for A
    by (rule pinv_phys_cong) simp_all
  moreover have "free_set (s\<lparr>pmem := m\<rparr>) = free_set s" by (simp add: free_set_def free_blocks_def)
  ultimately show "own_buddy (s\<lparr>pmem := m\<rparr>) P" by (simp add: own_buddy_def)
next
  show "card (free_set s) = (if p = 0 then 0 else Suc (card (free_set s')))"
    if "own_buddy s P" "amm_phys_alloc 0 s = (p, s')" for s P p s' by (rule buddy_avail [OF that])
next
  show "card (free_set (s\<lparr>pmem := m\<rparr>)) = card (free_set s)" for s m
    by (simp add: free_set_def free_blocks_def)
qed

interpretation bump: counted_owner own_bump "\<lambda>s. (unat (bump_end s) - unat (bump_cur s)) div 4096"
proof unfold_locales
  fix s P p s' assume a: "own_bump s P" "amm_phys_alloc 0 s = (p, s')"
  show "own_bump s' (insert p P) \<and> p \<notin> P \<and> table_page p \<and>
      (\<forall>a. 4096 \<le> unat (a - p) \<longrightarrow> pmem s' a = pmem s a)" if "p \<noteq> 0"
    using own_bump_alloc [OF a] that by simp
next
  fix s P s' assume "own_bump s P" "amm_phys_alloc 0 s = (0, s')"
  then show "own_bump s' P \<and> pmem s' = pmem s" using own_bump_alloc [of s P 0 s'] by simp
next
  fix s P m assume "own_bump s P"
  then show "own_bump (s\<lparr>pmem := m\<rparr>) P" by (simp add: own_bump_def)
next
  show "(unat (bump_end s) - unat (bump_cur s)) div 4096 =
      (if p = 0 then 0 else Suc ((unat (bump_end s') - unat (bump_cur s')) div 4096))"
    if "own_bump s P" "amm_phys_alloc 0 s = (p, s')" for s P p s' by (rule bump_avail [OF that])
qed simp

section \<open>Properties\<close>

text \<open>
  C4. Mapping a page. On a well-formed tree of page tables whose pages belong to the
  allocator, \<open>map_page\<close> leaves a well-formed tree; when the tables on the path exist or could
  be allocated, for which three free pages are enough, the page translates to the given frame
  with the given protection; and whether it succeeds or runs out of memory half way, the
  translation of every other page is unchanged.
\<close>

theorem map_page_correct:
  assumes "tree_ok s root I T" and "own_buddy s P" and "dom T \<subseteq> P" and "PML4_IDX va \<in> I"
  shows "(\<exists>T' P'. tree_ok (map_page root va pa pr s) root I T' \<and>
    own_buddy (map_page root va pa pr s) P' \<and> dom T' \<subseteq> P' \<and>
    (\<forall>va'. PML4_IDX va' \<in> I \<longrightarrow> pt_lookup (map_page root va pa pr s) root va' =
       (if fst (pt_walk_alloc root va s) \<noteq> None \<and> same_page va va'
        then Some ((pa AND PTE_ADDR_MASK) OR pte_flags pr) else pt_lookup s root va'))) \<and>
    (3 \<le> card (free_set s) \<longrightarrow>
      pt_lookup (map_page root va pa pr s) root va = Some ((pa AND PTE_ADDR_MASK) OR pte_flags pr))"
proof (rule conjI)
  show "\<exists>T' P'. tree_ok (map_page root va pa pr s) root I T' \<and>
    own_buddy (map_page root va pa pr s) P' \<and> dom T' \<subseteq> P' \<and>
    (\<forall>va'. PML4_IDX va' \<in> I \<longrightarrow> pt_lookup (map_page root va pa pr s) root va' =
       (if fst (pt_walk_alloc root va s) \<noteq> None \<and> same_page va va'
        then Some ((pa AND PTE_ADDR_MASK) OR pte_flags pr) else pt_lookup s root va'))"
    by (rule buddy.map_page_spec [OF assms, of pa pr]) blast
  have "fst (pt_walk_alloc root va s) \<noteq> None" if "3 \<le> card (free_set s)"
    by (rule buddy.pt_walk_avail [OF assms(2) that])
  with assms(4) show "3 \<le> card (free_set s) \<longrightarrow>
      pt_lookup (map_page root va pa pr s) root va = Some ((pa AND PTE_ADDR_MASK) OR pte_flags pr)"
    by - (rule buddy.map_page_spec [OF assms, of pa pr], simp add: same_page_def)
qed

text \<open>A small machine: one page in use as the root of an address space, nine pages free.\<close>

definition room_amm :: amm where
  "room_amm = phys_free_block 0x8000 3 tiny_amm"

lemma room_amm_inv: "pinv room_amm {} {}"
proof -
  have "free_blocks tiny_amm = {(0x2000, 1)}"
    by (auto simp: tiny_amm_def free_blocks_def reset_phys_def phys_free_block_def split: if_splits)
  then have "pinv tiny_amm {} {(0x8000, 3)}"
    by (intro pinv_add [OF tiny_amm_inv]) (simp_all add: MAX_ORDER_def aligned_def blk_def pg_div)
  then show ?thesis unfolding room_amm_def by (intro pinv_free_block) auto
qed

lemma room_amm_free: "free_set room_amm = {2 ..< 4} \<union> {8 ..< 16}"
proof -
  have "free_blocks room_amm = {(0x2000, 1), (0x8000, 3)}"
    by (auto simp: room_amm_def tiny_amm_def free_blocks_def reset_phys_def phys_free_block_def split: if_splits)
  then show ?thesis by (simp add: free_set_def blk_def pg_div)
qed

lemma room_amm_alloc: "\<not> early_boot room_amm" "fst (amm_phys_alloc 0 room_amm) = 0x2000"
  by (simp_all add: room_amm_def tiny_amm_def blank_amm_def reset_phys_def phys_free_block_def
    amm_phys_alloc_def MAX_ORDER_def alloc_loop.simps)

definition demo_root :: amm where
  "demo_root = snd (amm_phys_alloc 0 room_amm)"

lemma demo_root_alloc: "amm_phys_alloc 0 room_amm = (0x2000, demo_root)"
  by (simp add: prod_eq_iff room_amm_alloc(2) demo_root_def)

lemma demo_root_pmem: "pmem demo_root a = 0"
  using alloc_pmem [OF room_amm_alloc(1) demo_root_alloc]
  by (simp add: room_amm_def tiny_amm_def phys_free_block_def reset_phys_def blank_amm_def)

lemma room_amm_own: "own_buddy room_amm {}"
  using room_amm_inv room_amm_alloc(1) room_amm_free by (auto simp: own_buddy_def)

lemma demo_root_own: "own_buddy demo_root {0x2000}"
  using own_buddy_alloc [OF room_amm_own demo_root_alloc] by simp

lemma demo_root_free: "card (free_set demo_root) = 9"
proof -
  have "card (free_set room_amm) = card ({2 ..< 4 :: nat} \<union> {8 ..< 16})" by (simp only: room_amm_free)
  also have "\<dots> = 10" by (subst card_Un_disjoint) auto
  finally show ?thesis using buddy_avail [OF room_amm_own demo_root_alloc] by simp
qed

lemma demo_root_tree: "tree_ok demo_root 0x2000 {..<256} [0x2000 \<mapsto> 4]"
proof (rule tree_okI)
  have n: "child demo_root p i = None" for p i
    by (simp add: child_def demo_root_pmem present_def)
  show "[0x2000 \<mapsto> 4] q = Some l"
    if "in_tree 0x2000 {..<256} [0x2000 \<mapsto> 4] p l i" "child demo_root p i = Some q" for p l i q
    using that n by simp
  show "p = p' \<and> i = i'"
    if "child demo_root p i = Some q" "child demo_root p' i' = Some q" for p i p' i' q
    using that n by simp
  show "1 \<le> l \<and> l \<le> 4 \<and> table_page p" if "[0x2000 \<mapsto> 4] p = Some l" for p and l :: nat
    using that by (auto simp: table_page_def aligned_def PTE_ADDR_MASK_def split: if_splits)
qed simp

theorem map_page_correct_witness:
  "pt_lookup (map_page 0x2000 0x400000 0x5000 3 demo_root) 0x2000 0x400000 = Some (0x5000 OR pte_flags 3)"
proof -
  have "dom [0x2000 \<mapsto> 4 :: nat] \<subseteq> {0x2000 :: u64}" "PML4_IDX 0x400000 \<in> {..<256}"
    by (simp_all add: PML4_IDX_def)
  from map_page_correct [OF demo_root_tree demo_root_own this, of "0x5000" 3] show ?thesis
    by (simp add: demo_root_free PTE_ADDR_MASK_def)
qed

text \<open>
  The protection bits of an entry: always present and accessible from user mode,
  writable exactly when the protection asks for writing, and marked no-execute exactly
  when it does not ask for execution.
\<close>

theorem pte_flags_bits:
  "bit (pte_flags pr) 0 \<and> bit (pte_flags pr) 2 \<and>
   (bit (pte_flags pr) 1 \<longleftrightarrow> bit pr 1) \<and> (bit (pte_flags pr) 63 \<longleftrightarrow> \<not> bit pr 2) \<and>
   (pte_flags pr AND PTE_ADDR_MASK) = 0"
proof -
  have w: "(pr AND PROT_WRITE \<noteq> 0) = bit pr 1"
    using and_exp_eq_0_iff_not_bit [of pr 1] by (simp add: PROT_WRITE_def)
  have x: "(pr AND PROT_EXEC = 0) = (\<not> bit pr 2)"
    using and_exp_eq_0_iff_not_bit [of pr 2] by (simp add: PROT_EXEC_def)
  show ?thesis
    unfolding pte_flags_def Let_def w x
    by (cases "bit pr 1"; cases "bit pr 2")
      (simp_all add: PTE_PRESENT_def PTE_USER_def PTE_WRITE_def PTE_NX_def PTE_ADDR_MASK_def
        bit_numeral_rec push_bit_eq_mult)
qed

end
