(* ===== verification/AddrSpace.thy ===== *)
theory AddrSpace
  imports PageTable
begin

text \<open>
  Address spaces on top of the page tables (\<open>src/kernel/mm/mm.c\<close>): the kernel's own tables,
  creation and teardown of a process's space, named shared memory, and what the fault
  handler and eager population guarantee. \<open>mm_halt\<close> and a loop that does not end are \<open>None\<close>.
\<close>

section \<open>The kernel's page tables\<close>

definition map_large :: "u64 \<Rightarrow> u64 \<Rightarrow> u64 \<Rightarrow> amm \<Rightarrow> amm option" where
  "map_large root va pa s =
     (case next_table root (PML4_IDX va) s of (None, _) \<Rightarrow> None
      | (Some pdpt, s1) \<Rightarrow> (case next_table pdpt (PDPT_IDX va) s1 of (None, _) \<Rightarrow> None
        | (Some pd, s2) \<Rightarrow> Some (write_word (ent pd (PD_IDX va))
            (pa OR PTE_PRESENT OR PTE_WRITE OR PTE_USER OR push_bit 7 1) s2)))"

text \<open>\<open>n\<close> large pages from \<open>pa\<close> on, at the virtual addresses \<open>base + pa\<close>.\<close>

primrec map_large_range :: "u64 \<Rightarrow> u64 \<Rightarrow> nat \<Rightarrow> u64 \<Rightarrow> amm \<Rightarrow> amm option" where
  "map_large_range root vbase 0 pa s = Some s"
| "map_large_range root vbase (Suc n) pa s =
     (case map_large root (vbase + pa) pa s of None \<Rightarrow> None
      | Some s1 \<Rightarrow> map_large_range root vbase n (pa + 0x200000) s1)"

primrec map_page_info :: "nat \<Rightarrow> nat \<Rightarrow> amm \<Rightarrow> amm option" where
  "map_page_info 0 i s = Some s"
| "map_page_info (Suc n) i s =
     (case amm_phys_alloc 0 s of (p, s1) \<Rightarrow>
        if p = 0 then None
        else map_page_info n (Suc i)
          (map_page (kernel_cr3 s1) (PAGE_INFO_BASE + of_nat i * PAGE_SIZE) p
            (PROT_READ OR PROT_WRITE) (zero_mem p PAGE_SIZE s1)))"

definition large_count :: "u64 \<Rightarrow> nat" where
  "large_count lim = (unat lim + (0x200000 - 1)) div 0x200000"

definition amm_kernel_pml4_init :: "amm \<Rightarrow> amm option" where
  "amm_kernel_pml4_init s =
     (case amm_phys_alloc 0 s of (p, s1) \<Rightarrow>
        if p = 0 then None
        else let s2 = (zero_mem p PAGE_SIZE s1)\<lparr>kernel_cr3 := p\<rparr> in
        (case map_large_range p 0 (large_count AMM_IDENTITY_LIMIT) 0 s2 of None \<Rightarrow> None
        | Some s3 \<Rightarrow>
          let n_entries = drop_bit 12 (phys_top (phys s3)) + 1;
              pi_pages = drop_bit 12 (n_entries * 8 + PAGE_SIZE - 1) in
          (case map_page_info (unat pi_pages) 0 s3 of None \<Rightarrow> None
           | Some s4 \<Rightarrow>
              let lim = (if phys_top (phys s4) = 0 then AMM_IDENTITY_LIMIT else phys_top (phys s4)) in
              (case map_large_range p PHYS_MAP_BASE (large_count lim) 0 s4 of None \<Rightarrow> None
               | Some s5 \<Rightarrow> Some (s5\<lparr>early_boot := False\<rparr>)))))"

section \<open>Creation and teardown\<close>

definition MAX_VMAPS :: nat where "MAX_VMAPS = 4096"

definition copy_upper :: "u64 \<Rightarrow> u64 \<Rightarrow> amm \<Rightarrow> amm" where
  "copy_upper src dst s =
     fold (\<lambda>i s. write_word (ent dst i) (pmem s (ent src i)) s) [256..<512] s"

definition amm_vmap_create :: "nat \<Rightarrow> amm \<Rightarrow> vmap option \<times> nat \<times> amm" where
  "amm_vmap_create vmap_next s =
     (if vmap_next \<ge> MAX_VMAPS then (None, vmap_next, s)
      else (case amm_phys_alloc 0 s of (p, s1) \<Rightarrow>
        if p = 0 then (None, Suc vmap_next, s1)
        else (Some \<lparr>regions = [], cr3 = p, region_count = 0\<rparr>, Suc vmap_next,
              copy_upper (kernel_cr3 s1) p (zero_mem p PAGE_SIZE s1))))"

definition destroy_page :: "vmap \<Rightarrow> u64 \<Rightarrow> amm \<Rightarrow> amm" where
  "destroy_page m va s =
     (case pt_lookup s (cr3 m) va of None \<Rightarrow> s
      | Some e \<Rightarrow> amm_phys_free (e AND PTE_ADDR_MASK) 0 s)"

partial_function (option) destroy_pages :: "vmap \<Rightarrow> u64 \<Rightarrow> u64 \<Rightarrow> amm \<Rightarrow> amm option" where
  "destroy_pages m va endp s =
     (if va < endp then destroy_pages m (va + PAGE_SIZE) endp (destroy_page m va s) else Some s)"

fun destroy_regions :: "vmap \<Rightarrow> vregion list \<Rightarrow> amm \<Rightarrow> amm option" where
  "destroy_regions m [] s = Some s"
| "destroy_regions m (r # rs) s =
     (case destroy_pages m (base r) (base r + rsize r) s of None \<Rightarrow> None
      | Some s1 \<Rightarrow> destroy_regions m rs s1)"

definition amm_vmap_destroy :: "vmap \<Rightarrow> amm \<Rightarrow> (vmap \<times> amm) option" where
  "amm_vmap_destroy m s =
     (case destroy_regions m (regions m) s of None \<Rightarrow> None
      | Some s1 \<Rightarrow> Some (m\<lparr>regions := [], region_count := 0\<rparr>,
                         amm_phys_free (cr3 m AND PTE_ADDR_MASK) 0 s1))"

section \<open>Named shared memory\<close>

definition MAX_SHM_ENTRIES :: nat where "MAX_SHM_ENTRIES = 256"
definition SHM_NAME_LEN :: nat where "SHM_NAME_LEN = 64"
definition SHM_CREATE :: int where "SHM_CREATE = 1"
definition SHM_KERNEL_VA_BASE :: u64 where "SHM_KERNEL_VA_BASE = 0xFFFFE80000000000"

text \<open>A free entry has the empty name.\<close>

record shm_entry =
  shm_name :: string
  shm_paddr :: u64
  shm_size :: u64
  shm_va_base :: u64
  shm_refcount :: u32
  shm_flags :: u32

record shm =
  shm_table :: "shm_entry list"
  shm_va_next :: u64

partial_function (option) shm_order :: "u64 \<Rightarrow> nat \<Rightarrow> nat option" where
  "shm_order sz order =
     (if push_bit order 1 * PAGE_SIZE < sz then shm_order sz (Suc order) else Some order)"

definition shm_map_pages :: "u64 \<Rightarrow> u64 \<Rightarrow> u64 \<Rightarrow> amm \<Rightarrow> amm" where
  "shm_map_pages va pa sz s =
     fold (\<lambda>i s. map_page (kernel_cr3 s) (va + of_nat i * PAGE_SIZE) (pa + of_nat i * PAGE_SIZE)
       (PROT_READ OR PROT_WRITE) s) [0..<unat (drop_bit 12 sz)] s"

text \<open>The entry of a name, created if asked for: its index, or the failing result.\<close>

definition shm_get :: "string \<Rightarrow> u64 \<Rightarrow> int \<Rightarrow> shm \<Rightarrow> amm \<Rightarrow> (nat option \<times> shm \<times> amm) option" where
  "shm_get name sz flags h s =
     (case find_index (\<lambda>e. shm_name e \<noteq> [] \<and> shm_name e = name) (shm_table h) of
        Some i \<Rightarrow> Some (Some i, h, s)
      | None \<Rightarrow>
          if (flags AND SHM_CREATE) = 0 then Some (None, h, s)
          else (case find_index (\<lambda>e. shm_name e = []) (shm_table h) of
              None \<Rightarrow> Some (None, h, s)
            | Some i \<Rightarrow> (case shm_order sz 0 of None \<Rightarrow> None
              | Some order \<Rightarrow> (case amm_phys_alloc order s of (p, s1) \<Rightarrow>
                 if p = 0 then Some (None, h, s1)
                 else Some (Some i,
                   h\<lparr>shm_table := (shm_table h)[i := \<lparr>shm_name = take SHM_NAME_LEN name, shm_paddr = p,
                      shm_size = sz, shm_va_base = 0, shm_refcount = 0, shm_flags = of_int flags\<rparr>]\<rparr>,
                   zero_mem p (push_bit order 1 * PAGE_SIZE) s1)))))"

definition amm_shmap :: "string \<Rightarrow> u64 \<Rightarrow> int \<Rightarrow> shm \<Rightarrow> amm \<Rightarrow> (u64 \<times> shm \<times> amm) option" where
  "amm_shmap name size0 flags h s =
     (let sz = PAGE_ALIGN size0 in
      case shm_get name sz flags h s of None \<Rightarrow> None
      | Some (None, h1, s1) \<Rightarrow> Some (0, h1, s1)
      | Some (Some i, h1, s1) \<Rightarrow>
          let e = (shm_table h1 ! i)\<lparr>shm_refcount := shm_refcount (shm_table h1 ! i) + 1\<rparr>;
              va = (if shm_va_base e = 0 then shm_va_next h1 else shm_va_base e);
              va_next = (if shm_va_base e = 0 then shm_va_next h1 + sz else shm_va_next h1) in
          Some (va, h1\<lparr>shm_table := (shm_table h1)[i := e\<lparr>shm_va_base := va\<rparr>], shm_va_next := va_next\<rparr>,
                shm_map_pages va (shm_paddr e) sz s1))"

definition shm_unmap_page :: "u64 \<Rightarrow> amm \<Rightarrow> amm" where
  "shm_unmap_page va s =
     (case pt_walk_alloc (kernel_cr3 s) va s of (None, s1) \<Rightarrow> s1
      | (Some pte, s1) \<Rightarrow> if present (pmem s1 pte) then write_word pte 0 s1 else s1)"

definition amm_shunmap :: "u64 \<Rightarrow> shm \<Rightarrow> amm \<Rightarrow> (int \<times> shm \<times> amm) option" where
  "amm_shunmap addr h s =
     (if addr = 0 then Some (-1, h, s)
      else (case find_index (\<lambda>e. shm_name e \<noteq> [] \<and> addr \<ge> shm_va_base e \<and>
                 addr < shm_va_base e + shm_size e) (shm_table h) of
          None \<Rightarrow> Some (-1, h, s)
        | Some i \<Rightarrow>
            let e = shm_table h ! i;
                s1 = fold (\<lambda>k s. shm_unmap_page (shm_va_base e + of_nat k * PAGE_SIZE) s)
                       [0..<unat (drop_bit 12 (shm_size e))] s;
                rc = shm_refcount e - 1 in
            if rc = 0 then
              (case shm_order (shm_size e) 0 of None \<Rightarrow> None
               | Some order \<Rightarrow> Some (0, h\<lparr>shm_table := (shm_table h)[i :=
                     e\<lparr>shm_refcount := 0, shm_name := [], shm_paddr := 0, shm_size := 0,
                       shm_va_base := 0, shm_flags := 0\<rparr>]\<rparr>, amm_phys_free (shm_paddr e) order s1))
            else Some (0, h\<lparr>shm_table := (shm_table h)[i := e\<lparr>shm_refcount := rc\<rparr>]\<rparr>, s1)))"

section \<open>Faults and population\<close>

text \<open>
  What the fault handler and eager population do to one page: a fresh frame is cleared and mapped,
  and no other page in use changes. With four free pages there is room for the frame and for the
  tables on its path.
\<close>

lemma map_fresh:
  assumes "tree_ok s root I T" and "own_buddy s P" and "dom T \<subseteq> P" and "PML4_IDX va \<in> I"
    and "amm_phys_alloc 0 s = (q, s1)" and "q \<noteq> 0"
  obtains T' P' ok where "tree_ok (map_page root va q pr (zero_mem q PAGE_SIZE s1)) root I T'"
    "own_buddy (map_page root va q pr (zero_mem q PAGE_SIZE s1)) P'" "dom T' \<subseteq> P'"
    "kept s T P (map_page root va q pr (zero_mem q PAGE_SIZE s1)) T' P'"
    "q \<in> P'" "q \<notin> P" "q \<notin> dom T'" "table_page q"
    "\<And>a. unat (a - q) < 4096 \<Longrightarrow> pmem (map_page root va q pr (zero_mem q PAGE_SIZE s1)) a = 0"
    "\<And>va'. PML4_IDX va' \<in> I \<Longrightarrow> pt_lookup (map_page root va q pr (zero_mem q PAGE_SIZE s1)) root va' =
       (if ok \<and> same_page va va' then Some (q OR pte_flags pr) else pt_lookup s root va')"
    "4 \<le> card (free_set s) \<Longrightarrow> ok"
proof -
  let ?z = "zero_mem q PAGE_SIZE s1"
  let ?s' = "map_page root va q pr ?z"
  have z: "grown root I s T ?z T" "own_buddy ?z (insert q P)" "q \<notin> P" "table_page q"
    using buddy.alloc_zero_grown [OF assms(1-3,5,6)] by auto
  have tz: "tree_ok ?z root I T"
    and lz: "\<And>va'. PML4_IDX va' \<in> I \<Longrightarrow> pt_lookup ?z root va' = pt_lookup s root va'"
    using z(1) by (auto simp: grown_def)
  have dz: "dom T \<subseteq> insert q P" using assms(3) by blast
  have qa: "aligned q 0" "q AND PTE_ADDR_MASK = q" using z(4) by (simp_all add: table_page_def)
  have qT: "q \<notin> dom T" using z(3) assms(3) by blast
  obtain T' P' where t': "tree_ok ?s' root I T'" "own_buddy ?s' P'" "dom T' \<subseteq> P'"
    and kz: "kept ?z T (insert q P) ?s' T' P'"
    and l': "\<And>va'. PML4_IDX va' \<in> I \<Longrightarrow> pt_lookup ?s' root va' =
      (if fst (pt_walk_alloc root va ?z) \<noteq> None \<and> same_page va va'
       then Some ((q AND PTE_ADDR_MASK) OR pte_flags pr) else pt_lookup ?z root va')"
    using buddy.map_page_spec [OF tz z(2) dz assms(4), of q pr] by metis
  have k: "kept s T P ?s' T' P'" by (rule kept_trans [OF buddy.alloc_zero_kept [OF assms(2,5,6)] kz])
  have qP: "q \<in> P'" "q \<notin> dom T'" using keptD(1,3) [OF kz] qT by blast+
  have zero: "pmem ?s' a = 0" if "unat (a - q) < 4096" for a
    using keptD(4) [OF kz _ qT qa(1) that] that by (simp add: PAGE_SIZE_def)
  have ok: "fst (pt_walk_alloc root va ?z) \<noteq> None" if "4 \<le> card (free_set s)"
  proof (rule buddy.pt_walk_avail [OF z(2)])
    have "card (free_set s) = Suc (card (free_set s1))" using buddy_avail [OF assms(2,5)] assms(6) by simp
    then show "3 \<le> card (free_set ?z)" using that by (simp add: free_set_def free_blocks_def zero_mem_def)
  qed
  show ?thesis
    using that [of T' P' "fst (pt_walk_alloc root va ?z) \<noteq> None", OF t' k qP(1) z(3) qP(2) z(4) zero]
      l' lz qa(2) ok by simp
qed

text \<open>
  C8. The fault handler. An address outside every region and a write to a region without write
  permission are refused and change nothing. Any other fault is refused only when no page is
  free, again without effect; otherwise the handler reports success, the page tables stay well
  formed and no other page's translation changes. If four pages are free, the faulting page is
  then mapped, with the protection of its region, to a frame that was not in use and that holds
  only zeros; with fewer, its tables may be missing and it may translate as before.
\<close>

theorem page_fault_correct:
  assumes "tree_ok s (cr3 m) I T" and "own_buddy s P" and "dom T \<subseteq> P"
    and "PML4_IDX (a AND NOT (PAGE_SIZE - 1)) \<in> I"
  shows "case amm_region_find m a of None \<Rightarrow> amm_page_fault m a w s = (-1, s)
    | Some r \<Rightarrow>
       if w \<and> (prot r AND PROT_WRITE) = 0 then amm_page_fault m a w s = (-1, s)
       else if free_set s = {} then amm_page_fault m a w s = (-1, s)
       else \<exists>s' T' P' pa. amm_page_fault m a w s = (0, s') \<and>
         tree_ok s' (cr3 m) I T' \<and> own_buddy s' P' \<and> dom T' \<subseteq> P' \<and> P \<subseteq> P' \<and>
         (\<forall>va. PML4_IDX va \<in> I \<and> \<not> same_page (a AND NOT (PAGE_SIZE - 1)) va \<longrightarrow>
            pt_lookup s' (cr3 m) va = pt_lookup s (cr3 m) va) \<and>
         pa \<notin> P \<and> table_page pa \<and> (\<forall>x. unat (x - pa) < 4096 \<longrightarrow> pmem s' x = 0) \<and>
         (if 4 \<le> card (free_set s)
          then pt_lookup s' (cr3 m) (a AND NOT (PAGE_SIZE - 1)) = Some (pa OR pte_flags (prot r))
          else pt_lookup s' (cr3 m) (a AND NOT (PAGE_SIZE - 1)) \<in>
            {Some (pa OR pte_flags (prot r)), pt_lookup s (cr3 m) (a AND NOT (PAGE_SIZE - 1))})"
proof (cases "amm_region_find m a")
  case None
  then show ?thesis by (simp add: amm_page_fault_def)
next
  case (Some r)
  let ?va = "a AND NOT (PAGE_SIZE - 1)"
  obtain q s1 where al: "amm_phys_alloc 0 s = (q, s1)" by fastforce
  have fin: "finite (free_set s)"
    using assms(2) finite_subset [of "free_set s" "{1 ..< 2 ^ 40}"] by (auto simp: own_buddy_def)
  have q0: "q = 0 \<longleftrightarrow> free_set s = {}" using buddy_avail [OF assms(2) al] fin by (auto split: if_splits)
  consider (refused) "w \<and> (prot r AND PROT_WRITE) = 0" | (full) "\<not> (w \<and> (prot r AND PROT_WRITE) = 0)" "q = 0"
    | (mapped) "\<not> (w \<and> (prot r AND PROT_WRITE) = 0)" "q \<noteq> 0" by blast
  then show ?thesis
  proof cases
    case refused
    then show ?thesis using Some by (simp add: amm_page_fault_def)
  next
    case full
    then have "s1 = s" using own_buddy_alloc [OF assms(2) al] by simp
    then have "amm_page_fault m a w s = (-1, s)" using Some full al by (auto simp: amm_page_fault_def)
    then show ?thesis using Some full q0 by auto
  next
    case mapped
    let ?s' = "map_page (cr3 m) ?va q (prot r) (zero_mem q PAGE_SIZE s1)"
    have res: "amm_page_fault m a w s = (0, ?s')" using Some mapped al by (auto simp: amm_page_fault_def)
    obtain T' P' ok where s': "tree_ok ?s' (cr3 m) I T'" "own_buddy ?s' P'" "dom T' \<subseteq> P'"
      "kept s T P ?s' T' P'" "q \<notin> P" "table_page q"
      and z: "\<And>x. unat (x - q) < 4096 \<Longrightarrow> pmem ?s' x = 0"
      and l: "\<And>va. PML4_IDX va \<in> I \<Longrightarrow> pt_lookup ?s' (cr3 m) va =
        (if ok \<and> same_page ?va va then Some (q OR pte_flags (prot r)) else pt_lookup s (cr3 m) va)"
      and ok: "4 \<le> card (free_set s) \<Longrightarrow> ok"
      by (rule map_fresh [OF assms al mapped(2), of "prot r"]) (rule that)
    have "same_page ?va ?va" by (simp add: same_page_def)
    then have "if 4 \<le> card (free_set s) then pt_lookup ?s' (cr3 m) ?va = Some (q OR pte_flags (prot r))
        else pt_lookup ?s' (cr3 m) ?va \<in> {Some (q OR pte_flags (prot r)), pt_lookup s (cr3 m) ?va}"
      using l [OF assms(4)] ok by simp
    moreover have "\<forall>va. PML4_IDX va \<in> I \<and> \<not> same_page ?va va \<longrightarrow> pt_lookup ?s' (cr3 m) va = pt_lookup s (cr3 m) va"
      using l by simp
    moreover have "free_set s \<noteq> {}" using q0 mapped(2) by simp
    ultimately show ?thesis using Some mapped(1) res s' keptD(1) [OF s'(4)] z by (simp only: option.case if_False) blast
  qed
qed

definition demo_space :: vmap where
  "demo_space = \<lparr>regions = [\<lparr>base = 0x400000, rsize = 0x1000, prot = 3, kind = 0, fd = -1\<rparr>],
     cr3 = 0x2000, region_count = 1\<rparr>"

theorem page_fault_correct_witness:
  "\<exists>s' pa. amm_page_fault demo_space 0x400123 True demo_root = (0, s') \<and> pa \<noteq> 0x2000 \<and>
     pt_lookup s' 0x2000 0x400000 = Some (pa OR pte_flags 3)"
proof -
  have t: "tree_ok demo_root (cr3 demo_space) {..<256} [0x2000 \<mapsto> 4]"
    using demo_root_tree by (simp add: demo_space_def)
  have va: "0x400123 AND NOT (PAGE_SIZE - 1) = 0x400000" by (simp add: PAGE_SIZE_def)
  have d: "dom [0x2000 \<mapsto> 4 :: nat] \<subseteq> {0x2000 :: u64}"
    "PML4_IDX (0x400123 AND NOT (PAGE_SIZE - 1)) \<in> {..<256}"
    by (simp_all add: PML4_IDX_def PAGE_SIZE_def)
  have f: "amm_region_find demo_space 0x400123 =
      Some \<lparr>base = 0x400000, rsize = 0x1000, prot = 3, kind = 0, fd = -1\<rparr>"
    by (simp add: demo_space_def amm_region_find_def)
  have n: "free_set demo_root \<noteq> {}" using demo_root_free by auto
  have c: "cr3 demo_space = 0x2000" by (simp add: demo_space_def)
  show ?thesis
    using page_fault_correct [OF t demo_root_own d, of True] n
    unfolding f va c by (auto simp: PROT_WRITE_def demo_root_free)
qed

lemma populate_loop_returns:
  assumes "aligned va 0" and "aligned e 0" and "unat e - unat va = n * 4096"
  shows "\<exists>r. populate_loop m va e pr s = Some r"
  using assms
proof (induction n arbitrary: va s)
  case 0
  then have "\<not> va < e" by (simp add: word_less_nat_alt)
  then have "populate_loop m va e pr s = Some (True, s)" by (subst populate_loop.simps) simp
  then show ?case by blast
next
  case (Suc n)
  have lt: "unat va + 4096 \<le> unat e" using Suc.prems(3) by simp
  have "unat va + 4096 < 2 ^ 64" by (rule le_less_trans [OF lt]) simp
  then have u: "unat (va + PAGE_SIZE) = unat va + 4096"
    by (simp add: unat_word_ariths PAGE_SIZE_def)
  have "aligned (va + PAGE_SIZE) 0" using Suc.prems(1) u by (simp add: aligned_def)
  then have ih: "\<exists>r. populate_loop m (va + PAGE_SIZE) e pr s' = Some r" for s'
    using Suc.IH [of "va + PAGE_SIZE"] Suc.prems(2,3) u by simp
  show ?case
  proof (cases "amm_phys_alloc 0 s")
    case (Pair pa s1)
    have "va < e" using lt by (simp add: word_less_nat_alt)
    then have "populate_loop m va e pr s \<in>
        {Some (False, s1), populate_loop m (va + PAGE_SIZE) e pr s,
         populate_loop m (va + PAGE_SIZE) e pr (map_page (cr3 m) va pa pr (zero_mem pa PAGE_SIZE s1))}"
      by (subst populate_loop.simps) (simp add: Pair)
    then show ?thesis
      using ih [of s] ih [of "map_page (cr3 m) va pa pr (zero_mem pa PAGE_SIZE s1)"] by auto
  qed
qed

text \<open>
  C33. Eager population always ends: for a range whose page-rounded end does not wrap around
  the address space, \<open>amm_region_populate\<close> returns, whatever the tables and the allocator do.
\<close>

theorem populate_returns:
  assumes "unat b + unat sz + 4095 < 2 ^ 64"
  shows "\<exists>r. amm_region_populate (Some m) b sz pr s = Some r"
proof -
  let ?a = "b AND NOT (PAGE_SIZE - 1)" and ?e = "PAGE_ALIGN (b + sz)"
  have al: "aligned ?a 0" "aligned ?e 0"
    using aligned_and_not by (simp_all add: PAGE_SIZE_def PAGE_ALIGN_def)
  obtain k where k: "unat ?a = k * 4096" using alignedE [OF al(1)] by auto
  obtain l where l: "unat ?e = l * 4096" using alignedE [OF al(2)] by auto
  have "unat ?e - unat ?a = (l - k) * 4096" by (simp add: k l diff_mult_distrib)
  then obtain r where "populate_loop m ?a ?e pr s = Some r"
    using populate_loop_returns [OF al] by blast
  then show ?thesis
    by (cases r; cases "fst r") (auto simp: amm_region_populate_def Let_def)
qed

theorem populate_returns_witness:
  "\<exists>r. amm_region_populate (Some demo_space) 0x400000 0x800 3 demo_root = Some r"
  by (rule populate_returns) simp

section \<open>A new address space\<close>

lemma copy_entries:
  assumes "aligned src 0" and "aligned dst 0" and "src \<noteq> dst" and "aligned x 0" and "j < 512"
    and "b \<le> 512"
  shows "pmem (fold (\<lambda>i s. write_word (ent dst i) (pmem s (ent src i)) s) [a..<b] s) (ent x j) =
    (if x = dst \<and> a \<le> j \<and> j < b then pmem s (ent src j) else pmem s (ent x j))"
  using assms(4-6)
proof (induction b arbitrary: x j)
  case (Suc b)
  show ?case
  proof (cases "a \<le> b")
    case True
    let ?f = "fold (\<lambda>i s. write_word (ent dst i) (pmem s (ent src i)) s) [a..<b] s"
    have "ent x j = ent dst b \<longleftrightarrow> x = dst \<and> j = b"
      using ent_inj [OF Suc.prems(1) assms(2) Suc.prems(2), of b] Suc.prems(3) by auto
    then show ?thesis
      using True Suc.IH [OF Suc.prems(1,2)] Suc.IH [OF assms(1), of b] Suc.prems(3) assms(3) by auto
  qed (use Suc in auto)
qed simp

lemma own_write_fold: "own_buddy s P \<Longrightarrow> own_buddy (fold (\<lambda>i s. write_word (f i) (g i s) s) xs s) P"
  by (induction xs arbitrary: s) (simp_all add: buddy.own_write)

text \<open>
  A new address space. When \<open>amm_vmap_create\<close> succeeds, the space has no regions, its root
  table is a page that was not in use, the user half translates nothing, and the kernel
  half holds exactly the kernel's entries, so that the kernel is mapped in every space.
\<close>

theorem vmap_create_correct:
  assumes "own_buddy s P" and "kernel_cr3 s \<in> P" and "aligned (kernel_cr3 s) 0"
    and "amm_vmap_create n s = (Some m, n', s')"
  shows "n' = Suc n \<and> regions m = [] \<and> cr3 m \<notin> P \<and> own_buddy s' (insert (cr3 m) P) \<and>
    tree_ok s' (cr3 m) {..<256} [cr3 m \<mapsto> 4] \<and>
    (\<forall>va. PML4_IDX va < 256 \<longrightarrow> pt_lookup s' (cr3 m) va = None) \<and>
    (\<forall>i \<in> {256..<512}. pmem s' (ent (cr3 m) i) = pmem s (ent (kernel_cr3 s) i))"
proof -
  obtain p s1 where al: "amm_phys_alloc 0 s = (p, s1)" by fastforce
  have p0: "p \<noteq> 0" and m: "n' = Suc n" "m = \<lparr>regions = [], cr3 = p, region_count = 0\<rparr>"
    "s' = copy_upper (kernel_cr3 s1) p (zero_mem p PAGE_SIZE s1)"
    using assms(4) al by (auto simp: amm_vmap_create_def split: if_splits)
  have q: "own_buddy s1 (insert p P)" "p \<notin> P" "table_page p"
    using own_buddy_alloc [OF assms(1) al] p0 by auto
  have pa: "aligned p 0" using q(3) by (simp add: table_page_def)
  have kp: "kernel_cr3 s1 = kernel_cr3 s"
    using alloc_frame [OF _ al] assms(1) by (simp add: own_buddy_def)
  have ne: "kernel_cr3 s \<noteq> p" using assms(2) q(2) by auto
  have ents: "pmem s' (ent p j) = (if 256 \<le> j then pmem s (ent (kernel_cr3 s) j) else 0)"
    if "j < 512" for j
  proof -
    have "pmem (zero_mem p PAGE_SIZE s1) (ent p j) = 0" using zero_mem_ent [OF pa pa that] by simp
    moreover have "pmem (zero_mem p PAGE_SIZE s1) (ent (kernel_cr3 s) j) = pmem s (ent (kernel_cr3 s) j)"
      using buddy.alloc_zero_other [OF assms(1) al p0 assms(2,3) that] .
    ultimately show ?thesis
      unfolding m(3) copy_upper_def kp copy_entries [OF assms(3) pa ne pa that order_refl]
      using that by simp
  qed
  have none: "child s' p i = None" if "i < 256" for i
    using ents [of i] that by (simp add: child_def present_def)
  have tree: "tree_ok s' p {..<256} [p \<mapsto> 4]"
  proof (rule tree_okI)
    have n: False if "in_tree p {..<256} [p \<mapsto> 4] x l i" "child s' x i = Some y" for x l i y
      using that none [of i] by (auto simp: in_tree_def split: if_splits)
    show "[p \<mapsto> 4] y = Some l"
      if "in_tree p {..<256} [p \<mapsto> 4] x l i" "child s' x i = Some y" for x l i y
      using n [OF that] by simp
    show "x = x' \<and> i = i'" if "in_tree p {..<256} [p \<mapsto> 4] x l i" "child s' x i = Some y" for x x' l i i' y
      using n [OF that] by simp
    show "1 \<le> l \<and> l \<le> 4 \<and> table_page x" if "[p \<mapsto> 4] x = Some l" for x and l :: nat
      using that q(3) by (auto split: if_splits)
  qed simp
  have "own_buddy s' (insert p P)"
    unfolding m copy_upper_def by (intro own_write_fold buddy.own_zero q(1))
  moreover have "pt_lookup s' p va = None" if "PML4_IDX va < 256" for va
    using none [OF that] by (simp add: pt_lookup_def leaf_table_def)
  ultimately show ?thesis using m q(2) tree ents by simp
qed

definition demo_kernel :: amm where
  "demo_kernel = demo_root\<lparr>kernel_cr3 := 0x2000\<rparr>"

theorem vmap_create_correct_witness:
  "\<exists>m s'. amm_vmap_create 0 demo_kernel = (Some m, 1, s') \<and> cr3 m \<noteq> 0x2000 \<and>
     (\<forall>va. PML4_IDX va < 256 \<longrightarrow> pt_lookup s' (cr3 m) va = None)"
proof -
  have o: "own_buddy demo_kernel {0x2000}"
  proof -
    have "pinv demo_kernel A {} \<longleftrightarrow> pinv demo_root A {}" for A
      by (rule pinv_phys_cong) (simp_all add: demo_kernel_def)
    moreover have "free_set demo_kernel = free_set demo_root"
      by (simp add: free_set_def free_blocks_def demo_kernel_def)
    ultimately show ?thesis using demo_root_own by (simp add: own_buddy_def demo_kernel_def)
  qed
  have l: "lists (phys demo_kernel) 0 = [0x3000]"
    by (simp add: demo_kernel_def demo_root_def room_amm_def tiny_amm_def blank_amm_def reset_phys_def
      phys_free_block_def amm_phys_alloc_def MAX_ORDER_def alloc_loop.simps take_block_def
      mark_alloc_def PAGE_SIZE_def)
  have "fst (amm_phys_alloc 0 demo_kernel) = 0x3000"
    using l o by (simp add: amm_phys_alloc_def own_buddy_def alloc_loop.simps)
  then obtain m s' where c: "amm_vmap_create 0 demo_kernel = (Some m, 1, s')"
    by (cases "amm_phys_alloc 0 demo_kernel") (simp add: amm_vmap_create_def MAX_VMAPS_def)
  have k: "kernel_cr3 demo_kernel \<in> {0x2000}" "aligned (kernel_cr3 demo_kernel) 0"
    by (simp_all add: demo_kernel_def aligned_def)
  from vmap_create_correct [OF o k c] c show ?thesis by auto
qed

section \<open>Shared memory\<close>

text \<open>
  Sharing by name. After a successful \<open>amm_shmap\<close> of a name that fits the name field, any
  later \<open>amm_shmap\<close> of the same name, with or without the creation flag and whatever size it
  asks for, attaches to the same segment: it returns the same address and only counts one
  more reference.
\<close>

theorem shmap_attach:
  assumes "amm_shmap name sz flags h s = Some (va, h1, s1)" and "va \<noteq> 0"
    and "name \<noteq> []" and "length name \<le> SHM_NAME_LEN"
  shows "\<exists>i h2 s2. i < length (shm_table h1) \<and> shm_name (shm_table h1 ! i) = name \<and>
    amm_shmap name sz2 flags2 h1 s1 = Some (va, h2, s2) \<and>
    shm_table h2 = (shm_table h1)[i := (shm_table h1 ! i)
      \<lparr>shm_refcount := shm_refcount (shm_table h1 ! i) + 1\<rparr>] \<and> shm_va_next h2 = shm_va_next h1"
proof -
  let ?P = "\<lambda>e. shm_name e \<noteq> [] \<and> shm_name e = name"
  obtain i h0 s0 where g: "shm_get name (PAGE_ALIGN sz) flags h s = Some (Some i, h0, s0)"
    using assms(1,2) by (auto simp: amm_shmap_def Let_def split: option.splits)
  have f: "find_index ?P (shm_table h0) = Some i"
  proof (cases "find_index ?P (shm_table h)")
    case None
    then have "i < length (shm_table h)"
      "shm_table h0 ! i = (shm_table h0 ! i)\<lparr>shm_name := take SHM_NAME_LEN name\<rparr>"
      "\<forall>j. j \<noteq> i \<longrightarrow> shm_table h0 ! j = shm_table h ! j" "length (shm_table h0) = length (shm_table h)"
      using g by (auto simp: shm_get_def split: option.splits if_splits prod.splits
        dest: find_index_Some)
    moreover have "shm_name (shm_table h0 ! i) = name"
      using calculation(2) assms(4) by (metis shm_entry.select_convs(1) shm_entry.surjective
        shm_entry.update_convs(1) take_all)
    ultimately show ?thesis
      using None assms(3) by (intro find_index_first) (auto simp: find_index_None)
  next
    case (Some j)
    then show ?thesis using g by (simp add: shm_get_def)
  qed
  let ?e = "shm_table h0 ! i"
  have i: "i < length (shm_table h0)" "shm_name ?e = name" "\<forall>j < i. \<not> ?P (shm_table h0 ! j)"
    using find_index_Some [OF f] by auto
  have h1: "shm_table h1 = (shm_table h0)[i := ?e\<lparr>shm_refcount := shm_refcount ?e + 1, shm_va_base := va\<rparr>]"
    using assms(1) g by (auto simp: amm_shmap_def Let_def)
  have i1: "i < length (shm_table h1)" "shm_name (shm_table h1 ! i) = name"
    "shm_va_base (shm_table h1 ! i) = va"
    using i h1 by simp_all
  have "find_index ?P (shm_table h1) = Some i"
    using i i1 h1 assms(3) by (intro find_index_first) auto
  then have "amm_shmap name sz2 flags2 h1 s1 = Some (va,
      h1\<lparr>shm_table := (shm_table h1)[i := (shm_table h1 ! i)
        \<lparr>shm_refcount := shm_refcount (shm_table h1 ! i) + 1, shm_va_base := va\<rparr>]\<rparr>,
      shm_map_pages va (shm_paddr (shm_table h1 ! i)) (PAGE_ALIGN sz2) s1)"
    using i1 assms(2) by (simp add: amm_shmap_def shm_get_def Let_def)
  moreover have "(shm_table h1 ! i)\<lparr>shm_refcount := n, shm_va_base := va\<rparr> =
      (shm_table h1 ! i)\<lparr>shm_refcount := n\<rparr>" for n
    using i1(3) by (cases "shm_table h1 ! i") simp
  ultimately show ?thesis using i1 by auto
qed

definition demo_shm :: shm where
  "demo_shm = \<lparr>shm_table = [\<lparr>shm_name = ''log'', shm_paddr = 0x3000, shm_size = 0x1000,
     shm_va_base = SHM_KERNEL_VA_BASE, shm_refcount = 1, shm_flags = 1\<rparr>],
     shm_va_next = SHM_KERNEL_VA_BASE + 0x1000\<rparr>"

theorem shmap_attach_witness:
  "\<exists>h1 h2 s2. amm_shmap ''log'' 0 0 demo_shm demo_root = Some (SHM_KERNEL_VA_BASE, h1, demo_root) \<and>
     amm_shmap ''log'' 5 1 h1 demo_root = Some (SHM_KERNEL_VA_BASE, h2, s2) \<and>
     shm_refcount (shm_table h2 ! 0) = 3"
proof -
  have "PAGE_ALIGN 0 = 0" by (simp add: PAGE_ALIGN_def PAGE_SIZE_def)
  then obtain h1 where h1: "amm_shmap ''log'' 0 0 demo_shm demo_root =
      Some (SHM_KERNEL_VA_BASE, h1, demo_root)"
    "length (shm_table h1) = 1" "shm_refcount (shm_table h1 ! 0) = 2"
    by (simp add: amm_shmap_def shm_get_def demo_shm_def shm_map_pages_def SHM_KERNEL_VA_BASE_def)
  have "SHM_KERNEL_VA_BASE \<noteq> 0" "''log'' \<noteq> []" "length ''log'' \<le> SHM_NAME_LEN"
    by (simp_all add: SHM_KERNEL_VA_BASE_def SHM_NAME_LEN_def)
  from shmap_attach [OF h1(1) this, of 5 1] show ?thesis using h1 by auto
qed

end
