(* ===== verification/Sched.thy ===== *)
theory Sched
  imports RunQueue Slab AddrSpace
begin

text \<open>
  The scheduler of \<open>src/kernel/sched/sched.c\<close>: the process table, one run queue per CPU, the
  timer tick, yielding, waking, creating, ending and reaping processes, and work stealing.
  A spin lock is a flag; taking a lock that is held never returns, which is \<open>None\<close>. The context
  switch itself is assembly: \<open>sched_switch_to\<close>, \<open>sched_exit\<close> and the two halves of \<open>sched_reap\<close> end
  where the code leaves for the saved context of a process. Time stamps are arguments.
\<close>

section \<open>State\<close>

definition MAX_PROCS :: nat where "MAX_PROCS = 4096"
definition MAX_CPUS :: nat where "MAX_CPUS = 64"
definition SCHED_STEAL_THRESHOLD :: u32 where "SCHED_STEAL_THRESHOLD = 2"
definition SCHED_QUANTUM_INTR_NS :: u64 where "SCHED_QUANTUM_INTR_NS = 4000000"
definition SCHED_QUANTUM_BATCH_NS :: u64 where "SCHED_QUANTUM_BATCH_NS = 50000000"
definition SCHED_BOOST :: int where "SCHED_BOOST = 20"
definition SCHED_NAME_LEN :: nat where "SCHED_NAME_LEN = 32"
definition SCHED_KSTACK_SIZE :: u64 where "SCHED_KSTACK_SIZE = 64 * 1024"
definition SCHED_BOOTSTRAP_KSTACK_SIZE :: u64 where "SCHED_BOOTSTRAP_KSTACK_SIZE = 2 * 1024 * 1024"

definition SCHED_STATE_MAGIC :: u32 where "SCHED_STATE_MAGIC = 0x5348454D"

definition SCHED_RT :: nat where "SCHED_RT = 0"
definition SCHED_INTR :: nat where "SCHED_INTR = 1"
definition SCHED_BATCH :: nat where "SCHED_BATCH = 2"

datatype proc_state = PROC_NEW | PROC_READY | PROC_RUN | PROC_WAIT | PROC_DEAD

text \<open>A pointer to a process: an entry of the table, the idle process of a CPU, or process 1.\<close>

datatype pref = Proc nat | Idle nat | Boot

record cpu_context =
  rip :: u64
  rflags :: u64
  ctx_cr3 :: u64
  seg_cs :: u64
  seg_ss :: u64

record pcb =
  pid :: u32
  pstate :: proc_state
  sched_class :: nat
  pcpu :: nat
  priority :: int
  base_pri :: int
  cpu_ns :: u64
  wake_ns :: u64
  deadline_ns :: u64
  va_map :: "vmap option"
  exit_code :: int
  pname :: string
  puid :: u16
  pgid :: u16
  kstack :: u64
  kstack_top :: u64
  regs :: cpu_context

record runq =
  rlock :: bool
  rq_cpu_id :: nat
  rt_tree :: "pref rbt"
  intr_tree :: "pref rbt"
  batch_tree :: "pref rbt"
  rt_count :: u32
  intr_count :: u32
  batch_count :: u32
  rq_current :: "pref option"
  idle_pcb :: "pref option"
  steal_ns :: u64
  total_ns :: u64
  idle_ns :: u64

record cpu_load =
  l_rt :: u32
  l_intr :: u32
  l_batch :: u32
  l_current_pid :: u32
  l_idle_ns :: u64
  l_busy_ns :: u64

text \<open>
  The jump buffer \<open>g_reap_jmp\<close> is what a jump resumes: the call of \<open>sched_reap\<close> that saved it, by
  the child it waits for and the class and priority of the child that it keeps.
\<close>

record sched =
  runqs :: "nat \<Rightarrow> runq"
  cpu_count :: nat
  pcbs :: "pref \<Rightarrow> pcb"
  next_pid :: u32
  proc_count :: u32
  g_current :: "nat \<Rightarrow> pref option"
  reap_waiter :: "pref option"
  reap_jmp_active :: bool
  reap_jmp :: "(pref \<times> nat \<times> int) option"
  heap :: kheap
  vmap_next :: nat
  boot_kstack :: u64
  kernel_rsp :: u64
  tss_rsp0 :: u64
  cr3_reg :: u64
  st_magic :: u32
  st_cpu_count :: nat
  st_seq :: u32
  st_total :: u32
  st_cpus :: "nat \<Rightarrow> cpu_load"

definition this_cpu_id :: nat where "this_cpu_id = 0"

definition zero_context :: cpu_context where
  "zero_context = \<lparr>rip = 0, rflags = 0, ctx_cr3 = 0, seg_cs = 0, seg_ss = 0\<rparr>"

definition zero_pcb :: pcb where
  "zero_pcb = \<lparr>pid = 0, pstate = PROC_NEW, sched_class = 0, pcpu = 0, priority = 0, base_pri = 0,
     cpu_ns = 0, wake_ns = 0, deadline_ns = 0, va_map = None, exit_code = 0, pname = [],
     puid = 0, pgid = 0, kstack = 0, kstack_top = 0, regs = zero_context\<rparr>"

text \<open>Conversion of an \<open>int\<close> to \<open>int16_t\<close>, and division truncating towards zero.\<close>

definition to_i16 :: "int \<Rightarrow> int" where "to_i16 n = signed_take_bit 15 n"

definition cdiv :: "int \<Rightarrow> int \<Rightarrow> int" where
  "cdiv a b = (if a \<ge> 0 then a div b else - ((- a) div b))"

definition upd_pcb :: "pref \<Rightarrow> (pcb \<Rightarrow> pcb) \<Rightarrow> sched \<Rightarrow> sched" where
  "upd_pcb p f s = s\<lparr>pcbs := (pcbs s)(p := f (pcbs s p))\<rparr>"

definition upd_rq :: "nat \<Rightarrow> (runq \<Rightarrow> runq) \<Rightarrow> sched \<Rightarrow> sched" where
  "upd_rq c f s = s\<lparr>runqs := (runqs s)(c := f (runqs s c))\<rparr>"

definition prio_of :: "sched \<Rightarrow> pref \<Rightarrow> int" where "prio_of s p = priority (pcbs s p)"

definition spin_lock :: "nat \<Rightarrow> sched \<Rightarrow> sched option" where
  "spin_lock c s = (if rlock (runqs s c) then None else Some (upd_rq c (\<lambda>q. q\<lparr>rlock := True\<rparr>) s))"

definition spin_unlock :: "nat \<Rightarrow> sched \<Rightarrow> sched" where
  "spin_unlock c s = upd_rq c (\<lambda>q. q\<lparr>rlock := False\<rparr>) s"

section \<open>Start-up\<close>

definition sched_kstack_alloc :: "pref \<Rightarrow> sched \<Rightarrow> (int \<times> sched) option" where
  "sched_kstack_alloc p s =
     (if kstack (pcbs s p) \<noteq> 0 \<and> kstack_top (pcbs s p) \<noteq> 0 then Some (0, s)
      else case kmalloc SCHED_KSTACK_SIZE (heap s) of None \<Rightarrow> None
        | Some (ks, h) \<Rightarrow>
            if ks = 0 then Some (-1, s\<lparr>heap := h\<rparr>)
            else Some (0, upd_pcb p (\<lambda>c. c\<lparr>kstack := ks, kstack_top := ks + SCHED_KSTACK_SIZE\<rparr>) (s\<lparr>heap := h\<rparr>)))"

text \<open>\<open>idle_fn\<close> is the address of the idle loop.\<close>

definition init_cpu :: "u64 \<Rightarrow> nat \<Rightarrow> sched \<Rightarrow> sched option" where
  "init_cpu idle_fn i s =
     (let s = upd_rq i (\<lambda>q. q\<lparr>rlock := False, rq_cpu_id := i, rt_tree := Leaf, intr_tree := Leaf, batch_tree := Leaf,
                 rt_count := 0, intr_count := 0, batch_count := 0, steal_ns := 0, total_ns := 0, idle_ns := 0\<rparr>) s;
          s = upd_pcb (Idle i) (\<lambda>c. zero_pcb\<lparr>pstate := PROC_RUN, sched_class := SCHED_BATCH, pcpu := i,
                 priority := 127, base_pri := 127, deadline_ns := -1, pname := ''idle'',
                 regs := \<lparr>rip = idle_fn, rflags = 0x202, ctx_cr3 = kernel_cr3 (mm (heap s)),
                          seg_cs = 0x08, seg_ss = 0x10\<rparr>\<rparr>) s in
      case sched_kstack_alloc (Idle i) s of None \<Rightarrow> None
      | Some (rc, s) \<Rightarrow>
          let s = (if rc \<noteq> 0 then upd_pcb (Idle i) (\<lambda>c. c\<lparr>kstack := boot_kstack s,
                     kstack_top := boot_kstack s + SCHED_BOOTSTRAP_KSTACK_SIZE\<rparr>) s else s) in
          Some (upd_rq i (\<lambda>q. q\<lparr>idle_pcb := Some (Idle i), rq_current := Some (Idle i)\<rparr>)
                  (s\<lparr>g_current := (g_current s)(i := Some (Idle i))\<rparr>)))"

primrec init_cpus :: "u64 \<Rightarrow> nat \<Rightarrow> sched \<Rightarrow> sched option" where
  "init_cpus idle_fn 0 s = Some s"
| "init_cpus idle_fn (Suc n) s =
     (case init_cpus idle_fn n s of None \<Rightarrow> None | Some s \<Rightarrow> init_cpu idle_fn n s)"

definition sched_init :: "u64 \<Rightarrow> nat \<Rightarrow> sched \<Rightarrow> sched option" where
  "sched_init idle_fn n s =
     (let k = (if n > MAX_CPUS then MAX_CPUS else n) in
      map_option (\<lambda>s. s\<lparr>st_magic := SCHED_STATE_MAGIC, st_cpu_count := k\<rparr>)
        (init_cpus idle_fn k (s\<lparr>cpu_count := k, next_pid := 1, proc_count := 0\<rparr>)))"

definition syscall_on_thread_switch :: "pref \<Rightarrow> sched \<Rightarrow> sched" where
  "syscall_on_thread_switch p s =
     (if kstack_top (pcbs s p) = 0 then s else s\<lparr>kernel_rsp := kstack_top (pcbs s p), tss_rsp0 := kstack_top (pcbs s p)\<rparr>)"

definition sched_load_cr3 :: "u64 \<Rightarrow> sched \<Rightarrow> sched" where
  "sched_load_cr3 c s = s\<lparr>cr3_reg := (if c = 0 then kernel_cr3 (mm (heap s)) else c)\<rparr>"

definition sched_bootstrap_init_thread :: "sched \<Rightarrow> sched" where
  "sched_bootstrap_init_thread s =
     (let s = upd_pcb Boot (\<lambda>c. zero_pcb\<lparr>pid := 1, pstate := PROC_RUN, sched_class := SCHED_BATCH,
                 deadline_ns := -1, pname := ''asdinit'', kstack := boot_kstack s,
                 kstack_top := boot_kstack s + SCHED_BOOTSTRAP_KSTACK_SIZE,
                 regs := \<lparr>rip = 0, rflags = 0x202, ctx_cr3 = kernel_cr3 (mm (heap s)),
                          seg_cs = 0x08, seg_ss = 0x10\<rparr>\<rparr>) s;
          s = upd_rq 0 (\<lambda>q. q\<lparr>rq_current := Some Boot\<rparr>) (s\<lparr>g_current := (g_current s)(0 := Some Boot)\<rparr>) in
      syscall_on_thread_switch Boot s)"

definition sched_cpu_init :: "nat \<Rightarrow> sched \<Rightarrow> sched" where
  "sched_cpu_init c s = s\<lparr>g_current := (g_current s)(c := Some (Idle c))\<rparr>"

section \<open>Run queues\<close>

definition load_of :: "runq \<Rightarrow> u32" where
  "load_of q = rt_count q + intr_count q + batch_count q"

fun least_loaded :: "sched \<Rightarrow> nat list \<Rightarrow> u32 \<Rightarrow> nat \<Rightarrow> nat" where
  "least_loaded s [] min_load cpu = cpu"
| "least_loaded s (i # is) min_load cpu =
     (if load_of (runqs s i) < min_load then least_loaded s is (load_of (runqs s i)) i
      else least_loaded s is min_load cpu)"

definition pick_cpu :: "pref \<Rightarrow> sched \<Rightarrow> nat" where
  "pick_cpu p s =
     (if pcpu (pcbs s p) \<ge> cpu_count s then least_loaded s [0..<cpu_count s] 0xFFFFFFFF 0
      else pcpu (pcbs s p))"

definition rq_insert :: "(pref \<Rightarrow> int) \<Rightarrow> nat \<Rightarrow> pref \<Rightarrow> runq \<Rightarrow> runq" where
  "rq_insert prio cls p q =
     (if cls = SCHED_RT then q\<lparr>rt_tree := rb_insert prio p (prio p) (rt_tree q), rt_count := rt_count q + 1\<rparr>
      else if cls = SCHED_INTR
      then q\<lparr>intr_tree := rb_insert prio p (prio p) (intr_tree q), intr_count := intr_count q + 1\<rparr>
      else q\<lparr>batch_tree := rb_insert prio p (prio p) (batch_tree q), batch_count := batch_count q + 1\<rparr>)"

definition sched_enqueue :: "pref \<Rightarrow> sched \<Rightarrow> sched option" where
  "sched_enqueue p s =
     (let cpu = pick_cpu p s;
          s = upd_pcb p (\<lambda>c. c\<lparr>pcpu := cpu, pstate := PROC_READY\<rparr>) s in
      case spin_lock cpu s of None \<Rightarrow> None
      | Some s \<Rightarrow>
          Some (spin_unlock cpu (upd_rq cpu (rq_insert (prio_of s) (sched_class (pcbs s p)) p) s)))"

definition class_tree :: "nat \<Rightarrow> runq \<Rightarrow> pref rbt" where
  "class_tree cls q = (if cls = SCHED_RT then rt_tree q else if cls = SCHED_INTR then intr_tree q else batch_tree q)"

definition class_count :: "nat \<Rightarrow> runq \<Rightarrow> u32" where
  "class_count cls q = (if cls = SCHED_RT then rt_count q else if cls = SCHED_INTR then intr_count q else batch_count q)"

definition rq_remove :: "nat \<Rightarrow> pref \<Rightarrow> runq \<Rightarrow> runq" where
  "rq_remove cls p q =
     (if cls = SCHED_RT then q\<lparr>rt_tree := rb_remove_node p (rt_tree q), rt_count := rt_count q - 1\<rparr>
      else if cls = SCHED_INTR
      then q\<lparr>intr_tree := rb_remove_node p (intr_tree q), intr_count := intr_count q - 1\<rparr>
      else q\<lparr>batch_tree := rb_remove_node p (batch_tree q), batch_count := batch_count q - 1\<rparr>)"

text \<open>A node is linked below another one: in some tree, but not its root.\<close>

fun below_root :: "pref \<Rightarrow> pref rbt \<Rightarrow> bool" where
  "below_root p Leaf = False"
| "below_root p (Node c l a r) \<longleftrightarrow> p \<in> set (inorder l) \<or> p \<in> set (inorder r)"

definition linked_below :: "pref \<Rightarrow> sched \<Rightarrow> bool" where
  "linked_below p s \<longleftrightarrow> (\<exists>c \<in> {..<cpu_count s}. below_root p (rt_tree (runqs s c)) \<or>
     below_root p (intr_tree (runqs s c)) \<or> below_root p (batch_tree (runqs s c)))"

text \<open>
  Taking a ready process off its queue. The code tells a queued process by its parent link, which
  a removal clears, or by its being the root; a process linked into another tree than that of its
  class would be unlinked there, with the wrong count lowered, which is \<open>None\<close> here.
\<close>

definition sched_takeoff_runq_locked :: "nat \<Rightarrow> pref \<Rightarrow> sched \<Rightarrow> sched option" where
  "sched_takeoff_runq_locked cpu p s =
     (let q = runqs s cpu; cls = sched_class (pcbs s p); t = class_tree cls q in
      if pstate (pcbs s p) \<noteq> PROC_READY then Some s
      else if class_count cls q = 0 \<or> t = Leaf then Some s
      else if p \<in> set (inorder t) then Some (upd_rq cpu (rq_remove cls p) s)
      else if linked_below p s then None
      else Some s)"

definition rq_first :: "nat \<Rightarrow> runq \<Rightarrow> pref option \<times> runq" where
  "rq_first cls q =
     (case rb_leftmost (class_tree cls q) of None \<Rightarrow> (None, q) | Some n \<Rightarrow> (Some n, rq_remove cls n q))"

definition sched_dequeue :: "runq \<Rightarrow> pref option \<times> runq" where
  "sched_dequeue q =
     (let (n, q') = (if rt_count q > 0 then rq_first SCHED_RT q
                     else if intr_count q > 0 then rq_first SCHED_INTR q
                     else if batch_count q > 0 then rq_first SCHED_BATCH q
                     else (None, q)) in
      (case n of None \<Rightarrow> idle_pcb q' | Some p \<Rightarrow> Some p, q'))"

definition dequeue_on :: "nat \<Rightarrow> sched \<Rightarrow> pref option \<times> sched" where
  "dequeue_on cpu s = (case sched_dequeue (runqs s cpu) of (n, q) \<Rightarrow> (n, upd_rq cpu (\<lambda>_. q) s))"

section \<open>Switching\<close>

definition sched_state_update :: "sched \<Rightarrow> sched" where
  "sched_state_update s =
     s\<lparr>st_seq := st_seq s + 1 + 1, st_total := proc_count s,
       st_cpus := (\<lambda>i. if i < cpu_count s then
          \<lparr>l_rt = rt_count (runqs s i), l_intr = intr_count (runqs s i), l_batch = batch_count (runqs s i),
           l_current_pid = (case g_current s i of None \<Rightarrow> 0 | Some p \<Rightarrow> pid (pcbs s p)),
           l_idle_ns = idle_ns (runqs s i), l_busy_ns = total_ns (runqs s i)\<rparr>
        else st_cpus s i)\<rparr>"

definition quantum_of :: "nat \<Rightarrow> u64" where
  "quantum_of cls = (if cls = SCHED_RT then 0 else if cls = SCHED_INTR then SCHED_QUANTUM_INTR_NS
     else SCHED_QUANTUM_BATCH_NS)"

text \<open>\<open>None\<close> is a switch on a CPU that has no current process, where the code reads a null pointer.\<close>

definition sched_switch_to :: "u64 \<Rightarrow> pref option \<Rightarrow> sched \<Rightarrow> sched option" where
  "sched_switch_to now nx s =
     (case nx of None \<Rightarrow> Some s
      | Some n \<Rightarrow>
          if rip (regs (pcbs s n)) = 0 then Some s
          else if g_current s this_cpu_id = Some n then Some s
          else (case g_current s this_cpu_id of None \<Rightarrow> None
          | Some cur \<Rightarrow>
            let quantum = quantum_of (sched_class (pcbs s n));
                s = (if quantum > 0 then upd_pcb n (\<lambda>c. c\<lparr>deadline_ns := now + quantum\<rparr>) s else s);
                s = (if Some cur \<noteq> reap_waiter s \<and> pstate (pcbs s cur) = PROC_RUN
                     then upd_pcb cur (\<lambda>c. c\<lparr>pstate := PROC_READY\<rparr>) s else s);
                s = upd_pcb n (\<lambda>c. c\<lparr>pstate := PROC_RUN\<rparr>) s;
                s = upd_rq this_cpu_id (\<lambda>q. q\<lparr>rq_current := Some n\<rparr>)
                      (s\<lparr>g_current := (g_current s)(this_cpu_id := Some n)\<rparr>);
                s = sched_state_update s;
                s = syscall_on_thread_switch n s in
            Some (sched_load_cr3 (ctx_cr3 (regs (pcbs s n))) s)))"

text \<open>The part of \<open>sched_tick\<close> and \<open>sched_yield\<close> under the lock of the run queue: the current process
  goes back to its queue, if it may, and the next one is chosen.\<close>

definition requeue_and_pick :: "nat \<Rightarrow> pref option \<Rightarrow> sched \<Rightarrow> (pref option \<times> sched) option" where
  "requeue_and_pick cpu back s =
     (case spin_lock cpu s of None \<Rightarrow> None
      | Some s \<Rightarrow>
          (case (case back of None \<Rightarrow> Some s | Some p \<Rightarrow> sched_enqueue p s) of None \<Rightarrow> None
           | Some s \<Rightarrow> (case dequeue_on cpu s of (n, s) \<Rightarrow> Some (n, spin_unlock cpu s))))"

definition sched_tick :: "u64 \<Rightarrow> u64 \<Rightarrow> sched \<Rightarrow> sched option" where
  "sched_tick now now_ns s =
     (let cpu = this_cpu_id in
      if cpu \<ge> cpu_count s then Some s
      else case (g_current s cpu, idle_pcb (runqs s cpu)) of
        (Some cur, Some idle) \<Rightarrow>
          if reap_waiter s \<noteq> None then Some s
          else if cur = Boot then Some s
          else
            let s = (if sched_class (pcbs s cur) = SCHED_INTR
                     then upd_pcb cur (\<lambda>c. c\<lparr>priority := to_i16 (priority c + cdiv (to_i16 (base_pri c - priority c)) 10)\<rparr>) s
                     else s) in
            if cur \<noteq> idle \<and> now_ns \<ge> deadline_ns (pcbs s cur) \<and> pstate (pcbs s cur) = PROC_RUN
            then (case requeue_and_pick cpu (Some cur) s of None \<Rightarrow> None
                  | Some (n, s) \<Rightarrow> sched_switch_to now n s)
            else Some s
      | _ \<Rightarrow> Some s)"

definition sched_yield :: "u64 \<Rightarrow> sched \<Rightarrow> sched option" where
  "sched_yield now s =
     (let cpu = this_cpu_id; cur = g_current s cpu in
      let back = (cur \<noteq> idle_pcb (runqs s cpu) \<and> cur \<noteq> reap_waiter s) in
      if back \<and> cur = None then None
      else case requeue_and_pick cpu (if back then cur else None) s of
        None \<Rightarrow> None
      | Some (n, s) \<Rightarrow> sched_switch_to now n s)"

definition sched_wake :: "u64 \<Rightarrow> pref \<Rightarrow> sched \<Rightarrow> sched option" where
  "sched_wake now p s =
     (if pstate (pcbs s p) \<noteq> PROC_WAIT then Some s
      else
        let s = upd_pcb p (\<lambda>c. c\<lparr>wake_ns := now\<rparr>) s;
            boosted = to_i16 (base_pri (pcbs s p) - SCHED_BOOST);
            s = (if sched_class (pcbs s p) = SCHED_INTR
                 then upd_pcb p (\<lambda>c. c\<lparr>priority := (if boosted < 0 then 0 else boosted)\<rparr>) s else s) in
        sched_enqueue p s)"

section \<open>Processes\<close>

definition slot_of :: "u32 \<Rightarrow> pref" where "slot_of n = Proc (unat n mod MAX_PROCS)"

definition slot_free :: "sched \<Rightarrow> u32 \<Rightarrow> bool" where
  "slot_free s n \<longleftrightarrow> pstate (pcbs s (slot_of n)) = PROC_DEAD \<or> pid (pcbs s (slot_of n)) = 0"

function scan_pid :: "sched \<Rightarrow> u32 \<Rightarrow> u32 \<Rightarrow> u32 option" where
  "scan_pid s start n =
     (if slot_free s n then Some n
      else if n + 1 = start then None
      else scan_pid s start (n + 1))"
  by pat_completeness auto
termination
proof (relation "measure (\<lambda>(s, start, n). unat (start - n - 1))", simp)
  fix s :: sched and start n :: u32
  assume ne: "n + 1 \<noteq> start"
  let ?d = "start - n - 1"
  have "?d \<noteq> 0" using ne by (metis diff_diff_eq right_minus_eq)
  then have "unat (?d - 1) < unat ?d" unfolding unat_minus_one [OF \<open>?d \<noteq> 0\<close>] by (simp add: unat_gt_0)
  moreover have "start - (n + 1) - 1 = ?d - 1" by (simp add: algebra_simps)
  ultimately show "((s, start, n + 1), s, start, n) \<in> measure (\<lambda>(s, start, n). unat (start - n - 1))" by simp
qed

declare scan_pid.simps [simp del]

text \<open>The part of a path after its last slash, as the loop over the characters finds it.\<close>

fun last_component :: "string \<Rightarrow> string \<Rightarrow> string" where
  "last_component [] n = n"
| "last_component (c # p) n = last_component p (if c = CHR ''/'' then p else n)"

record spawn_args =
  sa_binary :: string
  sa_class :: nat
  sa_priority :: int
  sa_affinity :: nat
  sa_va_map :: "vmap option"

definition new_pcb :: "spawn_args \<Rightarrow> u32 \<Rightarrow> nat \<Rightarrow> pcb" where
  "new_pcb a n ncpu = zero_pcb\<lparr>pid := n, pstate := PROC_NEW, sched_class := sa_class a,
     priority := to_i16 (sa_priority a), base_pri := to_i16 (sa_priority a),
     pcpu := (if sa_affinity a = 0xFF then ncpu else sa_affinity a),
     pname := take (SCHED_NAME_LEN - 1) (last_component (sa_binary a) (sa_binary a))\<rparr>"

definition spawn_map :: "spawn_args \<Rightarrow> sched \<Rightarrow> vmap option \<times> sched" where
  "spawn_map a s =
     (case sa_va_map a of Some m \<Rightarrow> (Some m, s)
      | None \<Rightarrow> (case amm_vmap_create (vmap_next s) (mm (heap s)) of (m, k, ms) \<Rightarrow>
          (m, s\<lparr>vmap_next := k, heap := (heap s)\<lparr>mm := ms\<rparr>\<rparr>)))"

definition spawn_finish :: "spawn_args \<Rightarrow> u32 \<Rightarrow> sched \<Rightarrow> sched" where
  "spawn_finish a n s =
     (case spawn_map a (s\<lparr>proc_count := proc_count s + 1\<rparr>) of (vm, s) \<Rightarrow>
        upd_pcb (slot_of n) (\<lambda>c. c\<lparr>va_map := vm, pstate := PROC_NEW, deadline_ns := -1,
          regs := (regs c)\<lparr>rflags := 0x202, seg_cs := 0x08, seg_ss := 0x10\<rparr>\<rparr>) s)"

definition spawn_at :: "spawn_args \<Rightarrow> u32 \<Rightarrow> sched \<Rightarrow> (u32 \<times> sched) option" where
  "spawn_at a n s =
     (let nx = of_nat (unat (n + 1) mod MAX_PROCS);
          s = s\<lparr>next_pid := (if nx = 0 then 1 else nx)\<rparr>;
          s = upd_pcb (slot_of n) (\<lambda>c. new_pcb a n (cpu_count s)) s in
      case sched_kstack_alloc (slot_of n) s of None \<Rightarrow> None
      | Some (rc, s) \<Rightarrow> if rc \<noteq> 0 then Some (0, s) else Some (n, spawn_finish a n s))"

definition sched_spawn :: "spawn_args \<Rightarrow> sched \<Rightarrow> (u32 \<times> sched) option" where
  "sched_spawn a s =
     (if unat (proc_count s) \<ge> MAX_PROCS then Some (0, s)
      else case scan_pid s (next_pid s) (next_pid s) of None \<Rightarrow> Some (0, s)
        | Some n \<Rightarrow> spawn_at a n s)"

definition destroy_map :: "vmap option \<Rightarrow> sched \<Rightarrow> sched option" where
  "destroy_map m s =
     (case m of None \<Rightarrow> Some s
      | Some m \<Rightarrow> (case amm_vmap_destroy m (mm (heap s)) of None \<Rightarrow> None
          | Some (m', ms) \<Rightarrow> Some (s\<lparr>heap := (heap s)\<lparr>mm := ms\<rparr>\<rparr>)))"

definition free_kstack :: "pref \<Rightarrow> sched \<Rightarrow> sched option" where
  "free_kstack p s =
     (let c = pcbs s p in
      if kstack c \<noteq> 0 \<and> kstack c \<noteq> boot_kstack s \<and> pid c \<noteq> 0
      then (case kfree (kstack c) (heap s) of None \<Rightarrow> None
            | Some h \<Rightarrow> Some (upd_pcb p (\<lambda>c. c\<lparr>kstack := 0, kstack_top := 0\<rparr>) (s\<lparr>heap := h\<rparr>)))
      else Some s)"

definition mark_dead :: "int \<Rightarrow> pref \<Rightarrow> sched \<Rightarrow> sched" where
  "mark_dead code p s =
     (upd_pcb p (\<lambda>c. c\<lparr>exit_code := code, pstate := PROC_DEAD, va_map := None\<rparr>) s)
       \<lparr>proc_count := proc_count s - 1\<rparr>"

text \<open>The end of a process: either the jump to \<open>reap_jmp\<close>, or the switch to another process. The flag
  tells which.\<close>

definition exit_to_reaper :: "int \<Rightarrow> pref \<Rightarrow> pref \<Rightarrow> sched \<Rightarrow> sched option" where
  "exit_to_reaper code cur w s =
     (let dead_map = va_map (pcbs s cur);
          s = mark_dead code cur s;
          s = sched_load_cr3 (ctx_cr3 (regs (pcbs s w))) s in
      case destroy_map dead_map s of None \<Rightarrow> None
      | Some s \<Rightarrow> (case free_kstack cur s of None \<Rightarrow> None
          | Some s \<Rightarrow> Some (s\<lparr>reap_jmp_active := False\<rparr>)))"

definition pick_after_exit :: "sched \<Rightarrow> (pref option \<times> sched) option" where
  "pick_after_exit s =
     (case reap_waiter s of
        Some w \<Rightarrow> if pstate (pcbs s w) \<noteq> PROC_DEAD then Some (Some w, s\<lparr>reap_waiter := None\<rparr>)
                  else requeue_and_pick this_cpu_id None s
      | None \<Rightarrow> requeue_and_pick this_cpu_id None s)"

definition enter_process :: "pref \<Rightarrow> sched \<Rightarrow> sched" where
  "enter_process n s =
     (let s = upd_rq this_cpu_id (\<lambda>q. q\<lparr>rq_current := Some n\<rparr>)
                (s\<lparr>g_current := (g_current s)(this_cpu_id := Some n)\<rparr>);
          s = upd_pcb n (\<lambda>c. c\<lparr>pstate := PROC_RUN\<rparr>) s;
          s = syscall_on_thread_switch n (sched_state_update s) in
      sched_load_cr3 (ctx_cr3 (regs (pcbs s n))) s)"

definition exit_to_next :: "int \<Rightarrow> pref \<Rightarrow> sched \<Rightarrow> sched option" where
  "exit_to_next code cur s =
     (let dead_map = va_map (pcbs s cur) in
      case pick_after_exit (mark_dead code cur s) of None \<Rightarrow> None
      | Some (nx, s) \<Rightarrow>
          let nx = (case nx of Some n \<Rightarrow> if pstate (pcbs s n) = PROC_DEAD then idle_pcb (runqs s this_cpu_id) else nx
                    | None \<Rightarrow> idle_pcb (runqs s this_cpu_id)) in
          (case nx of None \<Rightarrow> None | Some n \<Rightarrow> destroy_map dead_map (enter_process n s)))"

definition sched_exit :: "int \<Rightarrow> sched \<Rightarrow> (bool \<times> sched) option" where
  "sched_exit code s =
     (case g_current s this_cpu_id of None \<Rightarrow> None
      | Some cur \<Rightarrow>
          (case (reap_jmp_active s, reap_waiter s) of
             (True, Some w) \<Rightarrow> map_option (Pair True) (exit_to_reaper code cur w s)
           | _ \<Rightarrow> map_option (Pair False) (exit_to_next code cur s)))"

definition sched_find :: "u32 \<Rightarrow> sched \<Rightarrow> pref option" where
  "sched_find n s =
     (if n = 0 \<or> unat n \<ge> MAX_PROCS then None
      else if pid (pcbs s (slot_of n)) = n \<and> pstate (pcbs s (slot_of n)) \<noteq> PROC_DEAD
      then Some (slot_of n) else None)"

definition sched_runq :: "nat \<Rightarrow> sched \<Rightarrow> runq option" where
  "sched_runq c s = (if c < cpu_count s then Some (runqs s c) else None)"

definition sched_current :: "sched \<Rightarrow> pref option" where
  "sched_current s = g_current s this_cpu_id"

text \<open>
  \<open>sched_reap\<close> up to the point where the child runs (the flag is set) or where the parent goes on
  at once, with the child, its class and its priority as the parent keeps them; and the rest,
  which runs when the child has jumped back.
\<close>

definition reap_begin :: "u32 \<Rightarrow> sched \<Rightarrow> ((bool \<times> pref \<times> nat \<times> int) option \<times> sched) option" where
  "reap_begin n s =
     (case sched_find n s of None \<Rightarrow> Some (None, s)
      | Some p \<Rightarrow>
          let saved = (p, sched_class (pcbs s p), priority (pcbs s p));
              s = s\<lparr>reap_waiter := sched_current s, reap_jmp_active := True\<rparr>;
              s = upd_pcb p (\<lambda>c. c\<lparr>sched_class := SCHED_RT, priority := 0\<rparr>) s;
              s = s\<lparr>reap_jmp := Some saved\<rparr> in
          if pstate (pcbs s p) = PROC_READY \<and> rip (regs (pcbs s p)) \<noteq> 0 then
            (case spin_lock this_cpu_id s of None \<Rightarrow> None
             | Some s \<Rightarrow> (case sched_takeoff_runq_locked this_cpu_id p s of None \<Rightarrow> None
                 | Some s \<Rightarrow>
                     let s = spin_unlock this_cpu_id s;
                         s = upd_rq this_cpu_id (\<lambda>q. q\<lparr>rq_current := Some p\<rparr>)
                               (s\<lparr>g_current := (g_current s)(this_cpu_id := Some p)\<rparr>);
                         s = upd_pcb p (\<lambda>c. c\<lparr>pstate := PROC_RUN\<rparr>) s;
                         s = syscall_on_thread_switch p s in
                     Some (Some (True, saved), sched_load_cr3 (ctx_cr3 (regs (pcbs s p))) s)))
          else Some (Some (False, saved), s))"

definition reap_end :: "pref \<Rightarrow> nat \<Rightarrow> int \<Rightarrow> sched \<Rightarrow> ((int \<times> u64 \<times> u64) \<times> sched) option" where
  "reap_end p cls pri s =
     (let s = upd_pcb p (\<lambda>c. c\<lparr>sched_class := cls, priority := pri\<rparr>) s;
          s = s\<lparr>reap_jmp_active := False\<rparr>;
          s = (if pstate (pcbs s p) \<noteq> PROC_DEAD
               then upd_pcb p (\<lambda>c. c\<lparr>pstate := PROC_DEAD, exit_code := -1\<rparr>) s else s);
          s = s\<lparr>reap_waiter := None\<rparr>;
          result = (exit_code (pcbs s p), cpu_ns (pcbs s p), 0) in
      case free_kstack p s of None \<Rightarrow> None
      | Some s \<Rightarrow> Some (result, upd_pcb p (\<lambda>c. c\<lparr>pid := 0, pstate := PROC_DEAD\<rparr>) s))"

definition sched_set :: "u32 \<Rightarrow> nat \<Rightarrow> int \<Rightarrow> sched \<Rightarrow> int \<times> sched" where
  "sched_set n cls pri s =
     (case sched_find n s of None \<Rightarrow> (-1, s)
      | Some p \<Rightarrow> (0, upd_pcb p (\<lambda>c. c\<lparr>sched_class := cls, base_pri := to_i16 pri, priority := to_i16 pri\<rparr>) s))"

section \<open>Work stealing\<close>

fun busiest :: "sched \<Rightarrow> nat \<Rightarrow> nat list \<Rightarrow> u32 \<Rightarrow> nat \<Rightarrow> u32 \<times> nat" where
  "busiest s me [] max_load victim = (max_load, victim)"
| "busiest s me (i # is) max_load victim =
     (let load = intr_count (runqs s i) + batch_count (runqs s i) in
      if i = me then busiest s me is max_load victim
      else if load > max_load then busiest s me is load i
      else busiest s me is max_load victim)"

definition steal_pick :: "runq \<Rightarrow> pref option" where
  "steal_pick q =
     (if batch_count q > 0 then rb_leftmost (batch_tree q)
      else if intr_count q > 0 then rb_leftmost (intr_tree q) else None)"

text \<open>One round of the loop moves one process. A process whose class has changed since it was queued
  is unlinked from a tree that does not hold it, which is \<open>None\<close>.\<close>

definition steal_move :: "nat \<Rightarrow> nat \<Rightarrow> pref \<Rightarrow> sched \<Rightarrow> sched option" where
  "steal_move me victim p s =
     (let cls = (if sched_class (pcbs s p) = SCHED_BATCH then SCHED_BATCH else SCHED_INTR) in
      if p \<notin> set (inorder (class_tree cls (runqs s victim))) then None
      else
        let s = upd_rq victim (rq_remove cls p) s;
            s = upd_pcb p (\<lambda>c. c\<lparr>pcpu := me\<rparr>) s in
        Some (upd_rq me (rq_insert (prio_of s) cls p) s))"

primrec steal_loop :: "nat \<Rightarrow> nat \<Rightarrow> nat \<Rightarrow> sched \<Rightarrow> sched option" where
  "steal_loop me victim 0 s = Some s"
| "steal_loop me victim (Suc n) s =
     (case steal_pick (runqs s victim) of None \<Rightarrow> Some s
      | Some p \<Rightarrow> (case steal_move me victim p s of None \<Rightarrow> None | Some s \<Rightarrow> steal_loop me victim n s))"

definition sched_steal :: "nat \<Rightarrow> sched \<Rightarrow> sched option" where
  "sched_steal me s =
     (case busiest s me [0..<cpu_count s] 0 0 of (max_load, victim) \<Rightarrow>
      let my_load = intr_count (runqs s me) + batch_count (runqs s me) in
      if max_load \<le> my_load + SCHED_STEAL_THRESHOLD then Some s
      else
        let fst_cpu = (if me < victim then me else victim);
            snd_cpu = (if me < victim then victim else me) in
        (case spin_lock fst_cpu s of None \<Rightarrow> None
        | Some s \<Rightarrow> (case spin_lock snd_cpu s of None \<Rightarrow> None
            | Some s \<Rightarrow>
                let to_move = (intr_count (runqs s victim) + batch_count (runqs s victim)) div 2 in
                map_option (\<lambda>s. spin_unlock fst_cpu (spin_unlock snd_cpu s))
                  (steal_loop me victim (unat to_move) s))))"

end
