(* ===== verification/SchedInv.thy ===== *)
theory SchedInv
  imports Sched
begin

text \<open>
  What the run queues of the scheduler guarantee: the order in which ready processes are chosen,
  and the invariant that every queued process stands once, in the tree of its own class on its
  own CPU, with exact counters. The operations of \<open>sched.c\<close> keep it as long as nobody reaps and
  nobody changes the class of a queued process.
\<close>

section \<open>One run queue\<close>

text \<open>The three classes. The trees are ordered and the counters count them.\<close>

definition CLASSES :: "nat set" where "CLASSES = {SCHED_RT, SCHED_INTR, SCHED_BATCH}"

definition rq_ok :: "(pref \<Rightarrow> int) \<Rightarrow> runq \<Rightarrow> bool" where
  "rq_ok p q \<longleftrightarrow> (\<forall>c \<in> CLASSES.
     tree_wf p (class_tree c q) \<and> unat (class_count c q) = length (inorder (class_tree c q)))"

text \<open>The ready processes of a queue in the order in which they are served.\<close>

definition ready :: "runq \<Rightarrow> pref list" where
  "ready q = inorder (rt_tree q) @ inorder (intr_tree q) @ inorder (batch_tree q)"

lemmas classes = CLASSES_def SCHED_RT_def SCHED_INTR_def SCHED_BATCH_def class_tree_def class_count_def

lemma rq_ok_iff:
  "rq_ok p q \<longleftrightarrow> tree_wf p (rt_tree q) \<and> unat (rt_count q) = length (inorder (rt_tree q)) \<and>
     tree_wf p (intr_tree q) \<and> unat (intr_count q) = length (inorder (intr_tree q)) \<and>
     tree_wf p (batch_tree q) \<and> unat (batch_count q) = length (inorder (batch_tree q))"
  by (auto simp: rq_ok_def classes)

lemma unat_pred: "unat (x :: u32) = n \<Longrightarrow> 0 < n \<Longrightarrow> unat (x - 1) = n - 1"
  by (metis gr_implies_not0 unat_0 unat_minus_one)

lemma unat_succ: "unat (x :: u32) = n \<Longrightarrow> Suc n < 2 ^ 32 \<Longrightarrow> unat (x + 1) = Suc n"
  by (simp add: unat_word_ariths)

lemma count_remove: "unat (x :: u32) = length xs \<Longrightarrow> z \<in> set xs \<Longrightarrow> unat (x - 1) = length xs - Suc 0"
  using unat_pred [of x "length xs"] length_pos_if_in_set [of z xs] by simp

lemma count_pos: "unat (x :: u32) = length xs \<Longrightarrow> 0 < x \<longleftrightarrow> xs \<noteq> []"
  by (metis length_0_conv unat_eq_zero word_neq_0_conv)

lemma rq_remove_fields [simp]:
  "idle_pcb (rq_remove c z q) = idle_pcb q" "rq_current (rq_remove c z q) = rq_current q" "rlock (rq_remove c z q) = rlock q"
  by (simp_all add: rq_remove_def)

lemma rq_insert_fields [simp]:
  "idle_pcb (rq_insert p c z q) = idle_pcb q" "rq_current (rq_insert p c z q) = rq_current q" "rlock (rq_insert p c z q) = rlock q"
  by (simp_all add: rq_insert_def)

lemma rq_remove_ok:
  assumes ok: "rq_ok p q" and z: "z \<in> set (inorder (class_tree c q))" 
  shows "rq_ok p (rq_remove c z q)"
  using assms
  by (auto simp: rq_ok_iff rq_remove_def class_tree_def rbq.del_wf rbq.del_content [where p = p] length_remove1
      intro: count_remove split: if_splits)

lemma rq_insert_ok:
  assumes ok: "rq_ok p q" and z: "z \<notin> set (inorder (class_tree c q))"
    and room: "Suc (length (inorder (class_tree c q))) < 2 ^ 32"
  shows "rq_ok p (rq_insert p c z q)"
  using assms
  by (auto simp: rq_ok_iff rq_insert_def class_tree_def rbq.enq_wf rbq.enq_content
      intro!: unat_succ split: if_splits)

lemma rq_first_spec:
  assumes "rq_ok p q" "inorder (class_tree c q) = x # xs"
  shows "rq_first c q = (Some x, rq_remove c x q)"
  using assms(2) leftmost_hd [of "class_tree c q"] by (simp add: rq_first_def)

lemma dequeue_spec:
  assumes ok: "rq_ok p q"
  shows "case ready q of
     [] \<Rightarrow> sched_dequeue q = (idle_pcb q, q)
   | x # xs \<Rightarrow> \<exists>q'. sched_dequeue q = (Some x, q') \<and> ready q' = xs \<and> rq_ok p q' \<and> idle_pcb q' = idle_pcb q"
proof -
  have n: "0 < rt_count q \<longleftrightarrow> inorder (rt_tree q) \<noteq> []" "0 < intr_count q \<longleftrightarrow> inorder (intr_tree q) \<noteq> []"
    "0 < batch_count q \<longleftrightarrow> inorder (batch_tree q) \<noteq> []"
    using ok count_pos unfolding rq_ok_iff by blast+
  have w: "tree_wf p (rt_tree q)" "tree_wf p (intr_tree q)" "tree_wf p (batch_tree q)" using ok by (simp_all add: rq_ok_iff)
  consider (rt) x xs where "inorder (rt_tree q) = x # xs"
    | (intr) x xs where "inorder (rt_tree q) = []" "inorder (intr_tree q) = x # xs"
    | (batch) x xs where "inorder (rt_tree q) = []" "inorder (intr_tree q) = []" "inorder (batch_tree q) = x # xs"
    | (none) "inorder (rt_tree q) = []" "inorder (intr_tree q) = []" "inorder (batch_tree q) = []"
    by (meson neq_Nil_conv)
  then show ?thesis
  proof cases
    case rt
    then show ?thesis using n rq_first_spec [OF ok, of SCHED_RT x xs] rq_remove_ok [OF ok, of x SCHED_RT] rbq.del_content [OF w(1), of x]
      by (simp add: sched_dequeue_def ready_def class_tree_def rq_remove_def)
  next
    case intr
    then show ?thesis using n rq_first_spec [OF ok, of SCHED_INTR x xs] rq_remove_ok [OF ok, of x SCHED_INTR] rbq.del_content [OF w(2), of x]
      by (simp add: sched_dequeue_def ready_def class_tree_def rq_remove_def SCHED_RT_def SCHED_INTR_def)
  next
    case batch
    then show ?thesis using n rq_first_spec [OF ok, of SCHED_BATCH x xs] rq_remove_ok [OF ok, of x SCHED_BATCH] rbq.del_content [OF w(3), of x]
      by (simp add: sched_dequeue_def ready_def class_tree_def rq_remove_def SCHED_RT_def SCHED_INTR_def SCHED_BATCH_def)
  next
    case none
    then show ?thesis using n by (simp add: sched_dequeue_def ready_def)
  qed
qed

text \<open>Choosing a process again and again.\<close>

primrec dequeues :: "nat \<Rightarrow> runq \<Rightarrow> pref option list \<times> runq" where
  "dequeues 0 q = ([], q)"
| "dequeues (Suc n) q = (case sched_dequeue q of (x, q') \<Rightarrow> case dequeues n q' of (xs, q'') \<Rightarrow> (x # xs, q''))"

lemma dequeues_spec:
  "rq_ok p q \<Longrightarrow> fst (dequeues n q) = map Some (take n (ready q)) @ replicate (n - length (ready q)) (idle_pcb q) \<and>
     ready (snd (dequeues n q)) = drop n (ready q) \<and> rq_ok p (snd (dequeues n q))"
proof (induction n arbitrary: q)
  case (Suc n)
  show ?case
  proof (cases "ready q")
    case Nil
    then have "sched_dequeue q = (idle_pcb q, q)" using dequeue_spec [OF Suc.prems] by simp
    then show ?thesis using Suc.IH [OF Suc.prems] Nil by (auto split: prod.splits)
  next
    case (Cons x xs)
    then obtain q' where q': "sched_dequeue q = (Some x, q')" "ready q' = xs" "rq_ok p q'" "idle_pcb q' = idle_pcb q"
      using dequeue_spec [OF Suc.prems] by auto
    then show ?thesis using Suc.IH [OF q'(3)] Cons by (auto split: prod.splits)
  qed
qed simp

section \<open>All run queues\<close>

text \<open>The processes that may be queued: those of the table and process 1.\<close>

fun user_proc :: "pref \<Rightarrow> bool" where
  "user_proc (Proc n) = (n < MAX_PROCS)"
| "user_proc Boot = True"
| "user_proc (Idle i) = False"

text \<open>A process that stands in the tree of class \<open>k\<close> on CPU \<open>c\<close> says so itself, is ready, and can run.\<close>

definition member_ok :: "(pref \<Rightarrow> pcb) \<Rightarrow> nat \<Rightarrow> nat \<Rightarrow> pref \<Rightarrow> bool" where
  "member_ok P c k p \<longleftrightarrow> user_proc p \<and> pcpu (P p) = c \<and> sched_class (P p) = k \<and> pstate (P p) = PROC_READY \<and>
     pid (P p) \<noteq> 0 \<and> rip (regs (P p)) \<noteq> 0"

definition rq_inv :: "(pref \<Rightarrow> pcb) \<Rightarrow> nat \<Rightarrow> runq \<Rightarrow> bool" where
  "rq_inv P c q \<longleftrightarrow> rq_ok (\<lambda>p. priority (P p)) q \<and> idle_pcb q = Some (Idle c) \<and>
     (\<forall>k \<in> CLASSES. \<forall>p \<in> set (inorder (class_tree k q)). member_ok P c k p)"

lemma set_ready: "set (ready q) = (\<Union>k \<in> CLASSES. set (inorder (class_tree k q)))"
  by (auto simp: ready_def classes)

lemma rq_inv_fields [simp]:
  "rq_inv P c (q\<lparr>rlock := b\<rparr>) = rq_inv P c q" "rq_inv P c (q\<lparr>rq_current := x\<rparr>) = rq_inv P c q"
  "ready (q\<lparr>rlock := b\<rparr>) = ready q" "ready (q\<lparr>rq_current := x\<rparr>) = ready q"
  by (simp_all add: rq_inv_def rq_ok_iff class_tree_def ready_def)

lemma tree_wf_cong: "(\<And>x. x \<in> set (inorder t) \<Longrightarrow> p x = p' x) \<Longrightarrow> tree_wf p t = tree_wf p' t"
  unfolding tree_wf_def by (simp cong: map_cong)

lemma rq_inv_cong:
  assumes "rq_inv P c q" and "\<And>p. p \<in> set (ready q) \<Longrightarrow> P' p = P p"
  shows "rq_inv P' c q"
proof -
  have e: "P' p = P p" if "k \<in> CLASSES" "p \<in> set (inorder (class_tree k q))" for k p
    using assms(2) that unfolding set_ready by blast
  have "tree_wf (\<lambda>p. priority (P' p)) (class_tree k q) = tree_wf (\<lambda>p. priority (P p)) (class_tree k q)"
    if "k \<in> CLASSES" for k
    by (rule tree_wf_cong) (simp add: e [OF that])
  then show ?thesis using assms(1) e unfolding rq_inv_def rq_ok_def member_ok_def by simp
qed

lemma ready_member: "rq_inv P c q \<Longrightarrow> p \<in> set (ready q) \<Longrightarrow> member_ok P c (sched_class (P p)) p"
  unfolding set_ready rq_inv_def member_ok_def by auto

lemma ready_tree:
  "rq_inv P c q \<Longrightarrow> p \<in> set (ready q) \<Longrightarrow>
   sched_class (P p) \<in> CLASSES \<and> p \<in> set (inorder (class_tree (sched_class (P p)) q))"
  unfolding set_ready rq_inv_def member_ok_def by auto

lemma finite_user: "finite {p. user_proc p} \<and> card {p. user_proc p} \<le> 4097"
proof -
  have "{p. user_proc p} = insert Boot (Proc ` {..<4096})"
    by (rule set_eqI, case_tac x) (auto simp: MAX_PROCS_def)
  moreover have "card (Proc ` {..<4096::nat}) \<le> 4096" using card_image_le [of "{..<4096::nat}" Proc] by simp
  ultimately show ?thesis using card_insert_le_m1 [of 4097 "Proc ` {..<4096}" Boot] by simp
qed

lemma tree_room:
  assumes "rq_inv P c q" "k \<in> CLASSES"
  shows "length (inorder (class_tree k q)) \<le> 4097"
proof -
  have "tree_wf (\<lambda>p. priority (P p)) (class_tree k q)" "\<forall>p \<in> set (inorder (class_tree k q)). member_ok P c k p"
    using assms unfolding rq_inv_def rq_ok_def by blast+
  then have d: "distinct (inorder (class_tree k q))" and s: "set (inorder (class_tree k q)) \<subseteq> {p. user_proc p}"
    by (auto simp: member_ok_def tree_wf_def)
  have "length (inorder (class_tree k q)) = card (set (inorder (class_tree k q)))" using d by (simp add: distinct_card)
  also have "\<dots> \<le> card {p. user_proc p}" using finite_user by (intro card_mono [OF _ s]) blast
  also have "\<dots> \<le> 4097" using finite_user by blast
  finally show ?thesis .
qed

lemma class_tree_insert:
  "k \<in> CLASSES \<Longrightarrow> k' \<in> CLASSES \<Longrightarrow>
   class_tree k' (rq_insert p k z q) = (if k' = k then rb_insert p z (p z) (class_tree k q) else class_tree k' q)"
  by (auto simp: rq_insert_def classes)

lemma class_tree_remove:
  "k \<in> CLASSES \<Longrightarrow> k' \<in> CLASSES \<Longrightarrow>
   class_tree k' (rq_remove k z q) = (if k' = k then rb_remove_node z (class_tree k q) else class_tree k' q)"
  by (auto simp: rq_remove_def classes)

lemma rq_inv_insert:
  assumes q: "rq_inv P c q" and z: "z \<notin> set (ready q)" and k: "k \<in> CLASSES"
    and m: "member_ok P c k z"
  shows "rq_inv P c (rq_insert (\<lambda>p. priority (P p)) k z q) \<and>
     set (ready (rq_insert (\<lambda>p. priority (P p)) k z q)) = insert z (set (ready q))"
proof -
  let ?p = "\<lambda>p. priority (P p)"
  have ok: "rq_ok ?p q" and w: "tree_wf ?p (class_tree k q)" using q k by (auto simp: rq_inv_def rq_ok_def)
  have zk: "z \<notin> set (inorder (class_tree k q))" using z k unfolding set_ready by blast
  have okq: "rq_ok ?p (rq_insert ?p k z q)" using tree_room [OF q k] by (intro rq_insert_ok [OF ok zk]) simp
  have s: "set (inorder (class_tree k' (rq_insert ?p k z q))) =
      (if k' = k then insert z (set (inorder (class_tree k q))) else set (inorder (class_tree k' q)))"
    if "k' \<in> CLASSES" for k'
    using rbq.enq_content [OF w zk] by (simp add: class_tree_insert [OF k that])
  have "member_ok P c k' x" if k': "k' \<in> CLASSES"
    and x: "x \<in> set (inorder (class_tree k' (rq_insert ?p k z q)))" for k' x
    using x q k' m unfolding s [OF k'] rq_inv_def by (cases "k' = k") auto
  then have i: "rq_inv P c (rq_insert ?p k z q)" using okq q by (simp add: rq_inv_def)
  have "set (ready (rq_insert ?p k z q)) = (\<Union>k' \<in> CLASSES.
      if k' = k then insert z (set (inorder (class_tree k q))) else set (inorder (class_tree k' q)))"
    unfolding set_ready by (rule SUP_cong [OF refl s])
  also have "\<dots> = insert z (set (ready q))" using k unfolding set_ready by (auto split: if_splits)
  finally show ?thesis using i by blast
qed

lemma rq_inv_remove:
  assumes q: "rq_inv P c q" and z: "z \<in> set (ready q)"
  shows "rq_inv P c (rq_remove (sched_class (P z)) z q) \<and>
     set (ready (rq_remove (sched_class (P z)) z q)) = set (ready q) - {z}"
proof -
  let ?p = "\<lambda>p. priority (P p)" and ?k = "sched_class (P z)"
  have k: "?k \<in> CLASSES" and zk: "z \<in> set (inorder (class_tree ?k q))"
    using ready_tree [OF q z] by auto
  have ok: "rq_ok ?p q" and w: "tree_wf ?p (class_tree ?k q)" using q k by (auto simp: rq_inv_def rq_ok_def)
  have okq: "rq_ok ?p (rq_remove ?k z q)" by (rule rq_remove_ok [OF ok zk])
  have s: "set (inorder (class_tree k' (rq_remove ?k z q))) = set (inorder (class_tree k' q)) - {z}"
    if k': "k' \<in> CLASSES" for k'
  proof (cases "k' = ?k")
    case True
    then show ?thesis using rbq.del_content [OF w, of z] w unfolding class_tree_remove [OF k k'] by (simp add: tree_wf_def)
  next
    case False
    then have "z \<notin> set (inorder (class_tree k' q))" using q k' by (auto simp: rq_inv_def member_ok_def)
    then show ?thesis using False unfolding class_tree_remove [OF k k'] by simp
  qed
  have "member_ok P c k' x" if k': "k' \<in> CLASSES"
    and x: "x \<in> set (inorder (class_tree k' (rq_remove ?k z q)))" for k' x
    using x q k' unfolding s [OF k'] rq_inv_def by auto
  then have i: "rq_inv P c (rq_remove ?k z q)" using okq q by (simp add: rq_inv_def)
  have "set (ready (rq_remove ?k z q)) = (\<Union>k' \<in> CLASSES. set (inorder (class_tree k' q)) - {z})"
    unfolding set_ready by (rule SUP_cong [OF refl s])
  also have "\<dots> = set (ready q) - {z}" unfolding set_ready by blast
  finally show ?thesis using i by blast
qed

lemma dequeue_inv:
  assumes q: "rq_inv P c q"
  shows "(ready q = [] \<and> sched_dequeue q = (Some (Idle c), q)) \<or>
    (\<exists>x. x \<in> set (ready q) \<and> sched_dequeue q = (Some x, rq_remove (sched_class (P x)) x q))"
proof (cases "ready q")
  case Nil
  then show ?thesis using dequeue_spec [of "\<lambda>p. priority (P p)" q] q by (simp add: rq_inv_def)
next
  case (Cons x xs)
  then obtain q' where d: "sched_dequeue q = (Some x, q')"
    using dequeue_spec [of "\<lambda>p. priority (P p)" q] q by (auto simp: rq_inv_def)
  have x: "x \<in> set (ready q)" using Cons by simp
  have ne: "idle_pcb q \<noteq> Some x" using ready_member [OF q x] q by (cases x) (simp_all add: rq_inv_def member_ok_def)
  have fn: "q'' = q" if "rq_first k q = (None, q'')" for k q''
    using that by (auto simp: rq_first_def split: option.splits)
  obtain k where k: "k \<in> CLASSES" "rq_first k q = (Some x, q')"
    using d ne by (auto simp: sched_dequeue_def CLASSES_def dest: fn split: prod.splits if_splits option.splits)
  then have "x \<in> set (inorder (class_tree k q))" "q' = rq_remove k x q"
    by (auto simp: rq_first_def leftmost_hd split: option.splits list.splits)
  moreover have "sched_class (P x) = k" using q k(1) calculation(1) by (auto simp: rq_inv_def member_ok_def)
  ultimately show ?thesis using d x by auto
qed

section \<open>Operations\<close>

lemma upd_rq_fields [simp]:
  "runqs (upd_rq c f s) = (runqs s)(c := f (runqs s c))" "pcbs (upd_rq c f s) = pcbs s"
  "cpu_count (upd_rq c f s) = cpu_count s" "g_current (upd_rq c f s) = g_current s"
  "reap_waiter (upd_rq c f s) = reap_waiter s" "reap_jmp_active (upd_rq c f s) = reap_jmp_active s" "reap_jmp (upd_rq c f s) = reap_jmp s"
  "heap (upd_rq c f s) = heap s" "proc_count (upd_rq c f s) = proc_count s" "next_pid (upd_rq c f s) = next_pid s"
  "boot_kstack (upd_rq c f s) = boot_kstack s"
  by (simp_all add: upd_rq_def)

lemma upd_pcb_fields [simp]:
  "runqs (upd_pcb p f s) = runqs s" "pcbs (upd_pcb p f s) = (pcbs s)(p := f (pcbs s p))"
  "cpu_count (upd_pcb p f s) = cpu_count s" "g_current (upd_pcb p f s) = g_current s"
  "reap_waiter (upd_pcb p f s) = reap_waiter s" "reap_jmp_active (upd_pcb p f s) = reap_jmp_active s" "reap_jmp (upd_pcb p f s) = reap_jmp s"
  "heap (upd_pcb p f s) = heap s" "proc_count (upd_pcb p f s) = proc_count s" "next_pid (upd_pcb p f s) = next_pid s"
  "boot_kstack (upd_pcb p f s) = boot_kstack s"
  by (simp_all add: upd_pcb_def)

lemma spin_lock_Some: "spin_lock c s = Some s' \<longleftrightarrow> \<not> rlock (runqs s c) \<and> s' = upd_rq c (\<lambda>q. q\<lparr>rlock := True\<rparr>) s"
  by (auto simp: spin_lock_def)

definition queued :: "sched \<Rightarrow> pref set" where
  "queued s = (\<Union>c \<in> {..<cpu_count s}. set (ready (runqs s c)))"

lemma queued_iff: "p \<in> queued s \<longleftrightarrow> (\<exists>c < cpu_count s. p \<in> set (ready (runqs s c)))"
  by (auto simp: queued_def)

definition queues_inv :: "sched \<Rightarrow> bool" where
  "queues_inv s \<longleftrightarrow> 0 < cpu_count s \<and> (\<forall>c < cpu_count s. rq_inv (pcbs s) c (runqs s c))"

lemma queues_inv_cong:
  assumes "queues_inv s" "cpu_count s' = cpu_count s"
    and "\<And>c. c < cpu_count s \<Longrightarrow> ready (runqs s' c) = ready (runqs s c) \<and>
            rq_inv (pcbs s) c (runqs s' c) = rq_inv (pcbs s) c (runqs s c)"
    and "\<And>p. p \<in> queued s \<Longrightarrow> pcbs s' p = pcbs s p"
  shows "queues_inv s' \<and> queued s' = queued s"
proof -
  have "rq_inv (pcbs s') c (runqs s' c)" if "c < cpu_count s" for c
  proof (rule rq_inv_cong)
    show "rq_inv (pcbs s) c (runqs s' c)" using assms(1,3) that by (simp add: queues_inv_def)
    show "\<And>p. p \<in> set (ready (runqs s' c)) \<Longrightarrow> pcbs s' p = pcbs s p"
      using assms(3) [OF that] assms(4) that by (auto simp: queued_def)
  qed
  then show ?thesis using assms by (auto simp: queues_inv_def queued_def)
qed

lemma queued_home:
  "queues_inv s \<Longrightarrow> p \<in> queued s \<Longrightarrow> pcpu (pcbs s p) < cpu_count s \<and>
     member_ok (pcbs s) (pcpu (pcbs s p)) (sched_class (pcbs s p)) p \<and> p \<in> set (ready (runqs s (pcpu (pcbs s p))))"
  unfolding queues_inv_def queued_def using ready_member by (fastforce simp: member_ok_def)

lemma queued_elsewhere:
  "queues_inv s \<Longrightarrow> p \<in> set (ready (runqs s c)) \<Longrightarrow> c < cpu_count s \<Longrightarrow> pcpu (pcbs s p) = c"
  unfolding queues_inv_def using ready_member by (fastforce simp: member_ok_def)

lemma least_loaded_bound:
  "(\<forall>i \<in> set is. i < n) \<Longrightarrow> cpu < n \<Longrightarrow> least_loaded s is m cpu < n"
  by (induction "is" arbitrary: m cpu) simp_all

lemma pick_cpu_bound: "0 < cpu_count s \<Longrightarrow> pick_cpu p s < cpu_count s"
  by (simp add: pick_cpu_def least_loaded_bound)

definition runnable :: "sched \<Rightarrow> pref \<Rightarrow> bool" where
  "runnable s p \<longleftrightarrow> user_proc p \<and> sched_class (pcbs s p) \<in> CLASSES \<and> pid (pcbs s p) \<noteq> 0 \<and> rip (regs (pcbs s p)) \<noteq> 0"

lemma prio_fun: "prio_of s = (\<lambda>p. priority (pcbs s p))"
  by (rule ext) (simp add: prio_of_def)

lemma enqueue_Some:
  "sched_enqueue p s = Some s' \<longleftrightarrow> \<not> rlock (runqs s (pick_cpu p s)) \<and>
     s' = (let P = (pcbs s)(p := (pcbs s p)\<lparr>pcpu := pick_cpu p s, pstate := PROC_READY\<rparr>) in
       s\<lparr>pcbs := P, runqs := (runqs s)(pick_cpu p s :=
           (rq_insert (\<lambda>p. priority (P p)) (sched_class (pcbs s p)) p ((runqs s (pick_cpu p s))\<lparr>rlock := True\<rparr>))\<lparr>rlock := False\<rparr>)\<rparr>)"
  by (auto simp: sched_enqueue_def spin_lock_def spin_unlock_def upd_rq_def upd_pcb_def Let_def prio_fun)

lemma enqueue_inv:
  assumes i: "queues_inv s" and p: "p \<notin> queued s" "runnable s p" and e: "sched_enqueue p s = Some s'"
  shows "queues_inv s' \<and> queued s' = insert p (queued s)"
proof -
  let ?c = "pick_cpu p s" and ?P = "(pcbs s)(p := (pcbs s p)\<lparr>pcpu := pick_cpu p s, pstate := PROC_READY\<rparr>)"
  let ?q = "rq_insert (\<lambda>p. priority (?P p)) (sched_class (pcbs s p)) p ((runqs s ?c)\<lparr>rlock := True\<rparr>)"
  have c: "?c < cpu_count s" using i pick_cpu_bound by (simp add: queues_inv_def)
  have P: "rq_inv ?P d (runqs s d)" if "d < cpu_count s" for d
    by (rule rq_inv_cong [of "pcbs s"]) (use i p that in \<open>auto simp: queues_inv_def queued_def\<close>)
  have "rq_inv ?P ?c ?q \<and> set (ready ?q) = insert p (set (ready ((runqs s ?c)\<lparr>rlock := True\<rparr>)))"
    by (rule rq_inv_insert) (use p c P [OF c] in \<open>auto simp: queued_def runnable_def member_ok_def\<close>)
  moreover have "s' = s\<lparr>pcbs := ?P, runqs := (runqs s)(?c := ?q\<lparr>rlock := False\<rparr>)\<rparr>"
    using e by (simp add: enqueue_Some Let_def)
  ultimately show ?thesis using P i c by (auto simp: queues_inv_def queued_def split: if_splits)
qed

lemma enqueue_frame:
  "sched_enqueue p s = Some s' \<Longrightarrow> cpu_count s' = cpu_count s \<and> g_current s' = g_current s \<and> reap_waiter s' = reap_waiter s \<and>
     (\<forall>c. rlock (runqs s' c) = rlock (runqs s c) \<and> idle_pcb (runqs s' c) = idle_pcb (runqs s c)) \<and>
     (\<forall>r. r \<noteq> p \<longrightarrow> pcbs s' r = pcbs s r) \<and> pcbs s' p = (pcbs s p)\<lparr>pcpu := pick_cpu p s, pstate := PROC_READY\<rparr>"
  by (simp add: enqueue_Some Let_def)

lemma dequeue_on_inv:
  assumes i: "queues_inv s" and c: "c < cpu_count s" and d: "dequeue_on c s = (n, s')"
  shows "queues_inv s' \<and> (\<exists>x. n = Some x \<and> (x = Idle c \<and> queued s' = queued s \<or>
      x \<in> set (ready (runqs s c)) \<and> queued s' = queued s - {x}))"
proof -
  have q: "rq_inv (pcbs s) c (runqs s c)" using i c by (simp add: queues_inv_def)
  consider "sched_dequeue (runqs s c) = (Some (Idle c), runqs s c)"
    | x where "x \<in> set (ready (runqs s c))" "sched_dequeue (runqs s c) = (Some x, rq_remove (sched_class (pcbs s x)) x (runqs s c))"
    using dequeue_inv [OF q] by blast
  then show ?thesis
  proof cases
    case 1
    then have "n = Some (Idle c)" "s' = upd_rq c (\<lambda>_. runqs s c) s" using d by (auto simp: dequeue_on_def)
    then show ?thesis using queues_inv_cong [OF i, of s'] by simp
  next
    case 2
    let ?q = "rq_remove (sched_class (pcbs s x)) x (runqs s c)"
    have s': "n = Some x" "s' = upd_rq c (\<lambda>_. ?q) s" using d 2 by (auto simp: dequeue_on_def)
    have r: "rq_inv (pcbs s) c ?q" "set (ready ?q) = set (ready (runqs s c)) - {x}" using rq_inv_remove [OF q 2(1)] by auto
    have x: "x \<notin> set (ready (runqs s d))" if "d < cpu_count s" "d \<noteq> c" for d
      using queued_elsewhere [OF i] 2(1) c that by blast
    have "queued s' = queued s - {x}" using x r(2) c unfolding queued_def s' by (auto split: if_splits)
    moreover have "queues_inv s'" using i r(1) unfolding queues_inv_def s' by simp
    ultimately show ?thesis using s'(1) 2(1) c by (auto simp: queued_def)
  qed
qed

lemma dequeue_on_frame:
  "dequeue_on c s = (n, s') \<Longrightarrow> cpu_count s' = cpu_count s \<and> g_current s' = g_current s \<and> reap_waiter s' = reap_waiter s \<and>
     pcbs s' = pcbs s \<and> (\<forall>d. rlock (runqs s' d) = rlock (runqs s d) \<and> idle_pcb (runqs s' d) = idle_pcb (runqs s d))"
proof -
  have "idle_pcb q' = idle_pcb q \<and> rlock q' = rlock q" if "sched_dequeue q = (n, q')" for n q q'
    using that by (auto simp: sched_dequeue_def rq_first_def split: prod.splits if_splits option.splits)
  then show "dequeue_on c s = (n, s') \<Longrightarrow> ?thesis" by (fastforce simp: dequeue_on_def split: prod.splits if_splits)
qed

text \<open>The state in which the scheduler is left between two operations.\<close>

definition sched_inv :: "sched \<Rightarrow> bool" where
  "sched_inv s \<longleftrightarrow> queues_inv s \<and> (\<forall>c < cpu_count s. \<not> rlock (runqs s c)) \<and> reap_waiter s = None \<and>
     rip (regs (pcbs s (Idle 0))) \<noteq> 0 \<and>
     (\<exists>cur. g_current s 0 = Some cur \<and> cur \<notin> queued s \<and>
        (cur = Idle 0 \<or> pstate (pcbs s cur) \<noteq> PROC_DEAD \<and> (cur = Boot \<and> pcpu (pcbs s Boot) = 0 \<or> runnable s cur)))"

lemma lock_inv: "queues_inv s \<Longrightarrow> queues_inv (upd_rq c (\<lambda>q. q\<lparr>rlock := b\<rparr>) s) \<and> queued (upd_rq c (\<lambda>q. q\<lparr>rlock := b\<rparr>) s) = queued s"
  by (rule queues_inv_cong) simp_all

lemma requeue_inv:
  assumes i: "queues_inv s" and r: "requeue_and_pick 0 bk s = Some (n, s')"
    and b: "\<And>p. bk = Some p \<Longrightarrow> p \<notin> queued s \<and> (p = Boot \<and> pcpu (pcbs s Boot) = 0 \<or> runnable s p)"
  shows "queues_inv s' \<and> cpu_count s' = cpu_count s \<and> g_current s' = g_current s \<and> reap_waiter s' = reap_waiter s \<and>
     (\<forall>c. rlock (runqs s' c) = rlock (runqs s c)) \<and> (\<forall>q. regs (pcbs s' q) = regs (pcbs s q)) \<and>
     (\<exists>x. n = Some x \<and> bk \<noteq> Some x \<and> x \<notin> queued s' \<and> (x = Idle 0 \<or> pstate (pcbs s' x) = PROC_READY \<and> runnable s' x))"
proof -
  let ?s1 = "upd_rq 0 (\<lambda>q. q\<lparr>rlock := True\<rparr>) s"
  have c: "0 < cpu_count s" using i by (simp add: queues_inv_def)
  have l: "\<not> rlock (runqs s 0)" using r by (auto simp: requeue_and_pick_def spin_lock_def)
  then obtain s2 s3 where e: "(case bk of None \<Rightarrow> Some ?s1 | Some p \<Rightarrow> sched_enqueue p ?s1) = Some s2"
    and d: "dequeue_on 0 s2 = (n, s3)" and s': "s' = spin_unlock 0 s3"
    using r by (auto simp: requeue_and_pick_def spin_lock_def split: option.splits prod.splits)
  have i1: "queues_inv ?s1" "queued ?s1 = queued s" using lock_inv [OF i] by auto
  have s2: "queues_inv s2 \<and> cpu_count s2 = cpu_count s \<and> g_current s2 = g_current s \<and> reap_waiter s2 = reap_waiter s \<and>
      (\<forall>c. rlock (runqs s2 c) = rlock (runqs ?s1 c)) \<and> (\<forall>q. regs (pcbs s2 q) = regs (pcbs s q)) \<and>
      (\<forall>p. bk = Some p \<longrightarrow> p \<noteq> Idle 0 \<and> p \<notin> set (ready (runqs s2 0)))"
  proof (cases bk)
    case None
    then show ?thesis using e i1 by auto
  next
    case (Some p)
    then have en: "sched_enqueue p ?s1 = Some s2" using e by simp
    have "\<not> rlock (runqs ?s1 (pick_cpu p ?s1))" using en unfolding enqueue_Some by blast
    then have pk: "pick_cpu p ?s1 \<noteq> 0" by (auto split: if_splits)
    have "\<not> (p = Boot \<and> pcpu (pcbs s Boot) = 0)" using pk c by (auto simp: pick_cpu_def split: if_splits)
    then have rn: "runnable ?s1 p" and nq: "p \<notin> queued s" using b [OF Some] by (auto simp: runnable_def)
    have i2: "queues_inv s2" using enqueue_inv [OF i1(1) _ rn en] i1(2) nq by blast
    note fr = enqueue_frame [OF en]
    have "p \<notin> set (ready (runqs s2 0))" using queued_elsewhere [OF i2, of p 0] fr c pk by auto
    moreover have "\<forall>q. regs (pcbs s2 q) = regs (pcbs s q)" proof
      show "regs (pcbs s2 q) = regs (pcbs s q)" for q using fr by (cases "q = p") simp_all
    qed
    ultimately show ?thesis using i2 fr Some rn by (auto simp: runnable_def)
  qed
  have c2: "0 < cpu_count s2" using s2 c by simp
  note d2 = dequeue_on_inv [OF _ c2 d] dequeue_on_frame [OF d]
  have i3: "queues_inv s'" "queued s' = queued s3" using d2(1) s2 lock_inv [of s3 0 False] by (auto simp: s' spin_unlock_def)
  obtain x where x: "n = Some x" "x = Idle 0 \<and> queued s3 = queued s2 \<or> x \<in> set (ready (runqs s2 0)) \<and> queued s3 = queued s2 - {x}"
    using d2(1) s2 by blast
  have nq: "x \<notin> queued s'" using x(2) i3 queued_home [of s2 "Idle 0"] s2 by (auto simp: member_ok_def)
  have "x = Idle 0 \<or> pstate (pcbs s' x) = PROC_READY \<and> runnable s' x"
  proof (cases "x \<in> set (ready (runqs s2 0))")
    case True
    have "rq_inv (pcbs s2) 0 (runqs s2 0)" using s2 c2 by (simp add: queues_inv_def)
    then show ?thesis using ready_member [OF _ True] ready_tree [OF _ True] d2(2)
      by (auto simp: s' spin_unlock_def runnable_def member_ok_def CLASSES_def)
  qed (use x in auto)
  then show ?thesis using i3(1) nq x s2 d2(2) l by (auto simp: s' spin_unlock_def)
qed

text \<open>What a switch leaves of a process: all but its state and its deadline.\<close>

definition like :: "pcb \<Rightarrow> pcb \<Rightarrow> bool" where
  "like c d \<longleftrightarrow> pid c = pid d \<and> sched_class c = sched_class d \<and> pcpu c = pcpu d \<and> priority c = priority d \<and> regs c = regs d"

lemma environment_fields [simp]:
  "runqs (sched_state_update s) = runqs s" "pcbs (sched_state_update s) = pcbs s"
  "cpu_count (sched_state_update s) = cpu_count s" "g_current (sched_state_update s) = g_current s"
  "reap_waiter (sched_state_update s) = reap_waiter s"
  "runqs (syscall_on_thread_switch p s) = runqs s" "pcbs (syscall_on_thread_switch p s) = pcbs s"
  "cpu_count (syscall_on_thread_switch p s) = cpu_count s" "g_current (syscall_on_thread_switch p s) = g_current s"
  "reap_waiter (syscall_on_thread_switch p s) = reap_waiter s"
  "runqs (sched_load_cr3 v s) = runqs s" "pcbs (sched_load_cr3 v s) = pcbs s"
  "cpu_count (sched_load_cr3 v s) = cpu_count s" "g_current (sched_load_cr3 v s) = g_current s"
  "reap_waiter (sched_load_cr3 v s) = reap_waiter s"
  by (simp_all add: sched_state_update_def syscall_on_thread_switch_def sched_load_cr3_def)

text \<open>The bookkeeping of a switch, with the state in which both processes have been marked.\<close>

lemma switch_form:
  assumes "sched_switch_to now (Some n) s = Some s'" "rip (regs (pcbs s n)) \<noteq> 0" "g_current s 0 = Some cur" "cur \<noteq> n"
  obtains t v where "s' = sched_load_cr3 v (syscall_on_thread_switch n (sched_state_update
      (upd_rq 0 (\<lambda>q. q\<lparr>rq_current := Some n\<rparr>) (t\<lparr>g_current := (g_current t)(0 := Some n)\<rparr>))))"
    and "t = s\<lparr>pcbs := pcbs t\<rparr>" and "pstate (pcbs t n) = PROC_RUN" and "\<And>r. like (pcbs t r) (pcbs s r)"
    and "\<And>r. r \<noteq> n \<Longrightarrow> pstate (pcbs s r) \<noteq> PROC_RUN \<Longrightarrow> pcbs t r = pcbs s r"
proof -
  let ?t1 = "if quantum_of (sched_class (pcbs s n)) > 0
    then upd_pcb n (\<lambda>c. c\<lparr>deadline_ns := now + quantum_of (sched_class (pcbs s n))\<rparr>) s else s"
  let ?t2 = "if Some cur \<noteq> reap_waiter ?t1 \<and> pstate (pcbs ?t1 cur) = PROC_RUN
    then upd_pcb cur (\<lambda>c. c\<lparr>pstate := PROC_READY\<rparr>) ?t1 else ?t1"
  let ?t = "upd_pcb n (\<lambda>c. c\<lparr>pstate := PROC_RUN\<rparr>) ?t2"
  let ?u = "syscall_on_thread_switch n (sched_state_update
      (upd_rq 0 (\<lambda>q. q\<lparr>rq_current := Some n\<rparr>) (?t\<lparr>g_current := (g_current ?t)(0 := Some n)\<rparr>)))"
  have "sched_switch_to now (Some n) s = Some (sched_load_cr3 (ctx_cr3 (regs (pcbs ?u n))) ?u)"
    using assms(2-4) unfolding sched_switch_to_def this_cpu_id_def Let_def by (simp only: option.case option.inject if_False simp_thms)
  then have 1: "s' = sched_load_cr3 (ctx_cr3 (regs (pcbs ?u n))) ?u" using assms(1) by (simp only: option.inject)
  have 2: "?t = s\<lparr>pcbs := pcbs ?t\<rparr>" by (simp add: upd_pcb_def)
  have 3: "pstate (pcbs ?t n) = PROC_RUN" by simp
  have 4: "like (pcbs ?t r) (pcbs s r)" for r by (simp add: like_def)
  have 5: "pcbs ?t r = pcbs s r" if "r \<noteq> n" "pstate (pcbs s r) \<noteq> PROC_RUN" for r using that assms(4) by auto
  show thesis by (rule that [OF 1 2 3 4 5])
qed

lemma switch_Some:
  assumes "sched_switch_to now (Some n) s = Some s'" "rip (regs (pcbs s n)) \<noteq> 0" "g_current s 0 = Some cur" "cur \<noteq> n"
  shows "cpu_count s' = cpu_count s" "g_current s' = (g_current s)(0 := Some n)" "reap_waiter s' = reap_waiter s"
    "runqs s' = (runqs s)(0 := (runqs s 0)\<lparr>rq_current := Some n\<rparr>)"
    "\<And>r. r \<noteq> n \<Longrightarrow> pstate (pcbs s r) \<noteq> PROC_RUN \<Longrightarrow> pcbs s' r = pcbs s r"
    "\<And>r. like (pcbs s' r) (pcbs s r)" "pstate (pcbs s' n) = PROC_RUN"
proof -
  obtain t v where s': "s' = sched_load_cr3 v (syscall_on_thread_switch n (sched_state_update
      (upd_rq 0 (\<lambda>q. q\<lparr>rq_current := Some n\<rparr>) (t\<lparr>g_current := (g_current t)(0 := Some n)\<rparr>))))"
    and t: "t = s\<lparr>pcbs := pcbs t\<rparr>" and p: "pstate (pcbs t n) = PROC_RUN" "\<And>r. like (pcbs t r) (pcbs s r)"
      "\<And>r. r \<noteq> n \<Longrightarrow> pstate (pcbs s r) \<noteq> PROC_RUN \<Longrightarrow> pcbs t r = pcbs s r"
    using switch_form [OF assms] by metis
  have e: "cpu_count t = cpu_count s" "g_current t = g_current s" "reap_waiter t = reap_waiter s" "runqs t = runqs s"
    by (subst t, simp)+
  show "cpu_count s' = cpu_count s" "g_current s' = (g_current s)(0 := Some n)" "reap_waiter s' = reap_waiter s"
    "runqs s' = (runqs s)(0 := (runqs s 0)\<lparr>rq_current := Some n\<rparr>)" unfolding s' by (simp_all add: e)
  show "\<And>r. r \<noteq> n \<Longrightarrow> pstate (pcbs s r) \<noteq> PROC_RUN \<Longrightarrow> pcbs s' r = pcbs s r"
    "\<And>r. like (pcbs s' r) (pcbs s r)" "pstate (pcbs s' n) = PROC_RUN" unfolding s' by (simp_all add: p)
qed

lemma runnable_like: "like (pcbs s' p) (pcbs s p) \<Longrightarrow> runnable s' p = runnable s p"
  by (simp add: runnable_def like_def)

lemma queued_READY: "queues_inv s \<Longrightarrow> p \<in> queued s \<Longrightarrow> pstate (pcbs s p) = PROC_READY"
  using queued_home by (simp add: member_ok_def)

text \<open>A switch to a process that has just been taken from the queue.\<close>

lemma switch_inv:
  assumes i: "queues_inv s" and l: "\<forall>c < cpu_count s. \<not> rlock (runqs s c)" and w: "reap_waiter s = None"
    and idle: "rip (regs (pcbs s (Idle 0))) \<noteq> 0" and cur: "g_current s 0 = Some cur"
    and n: "n \<notin> queued s" "n = Idle 0 \<or> runnable s n"
    and ne: "cur = n \<Longrightarrow> n = Idle 0"
    and sw: "sched_switch_to now (Some n) s = Some s'"
  shows "sched_inv s'"
proof (cases "cur = n")
  case True
  then have "s' = s" using sw cur by (simp add: sched_switch_to_def this_cpu_id_def split: if_splits)
  then show ?thesis using assms True by (simp add: sched_inv_def)
next
  case False
  have r: "rip (regs (pcbs s n)) \<noteq> 0" using n(2) idle by (auto simp: runnable_def)
  note f = switch_Some [OF sw r cur False]
  have q: "queues_inv s' \<and> queued s' = queued s"
  proof (rule queues_inv_cong [OF i f(1)])
    show "p \<in> queued s \<Longrightarrow> pcbs s' p = pcbs s p" for p using f(5) n(1) queued_READY [OF i] by fastforce
  qed (simp_all add: f(4))
  moreover have "n = Idle 0 \<or> runnable s' n" using n(2) runnable_like [OF f(6)] by blast
  moreover have "rip (regs (pcbs s' (Idle 0))) \<noteq> 0" using idle f(6) [of "Idle 0"] by (simp add: like_def)
  ultimately show ?thesis using f(1-4,7) l w n(1) by (auto simp: sched_inv_def)
qed

lemma pick_and_switch_inv:
  assumes i: "queues_inv s" and l: "\<forall>c < cpu_count s. \<not> rlock (runqs s c)" and w: "reap_waiter s = None"
    and idle: "rip (regs (pcbs s (Idle 0))) \<noteq> 0" and cur: "g_current s 0 = Some cur"
    and b: "bk = Some cur \<and> cur \<notin> queued s \<and> (cur = Boot \<and> pcpu (pcbs s Boot) = 0 \<or> runnable s cur) \<or>
            bk = None \<and> cur = Idle 0"
    and r: "requeue_and_pick 0 bk s = Some (n, s1)" and sw: "sched_switch_to now n s1 = Some s'"
  shows "sched_inv s'"
proof -
  have "p \<notin> queued s \<and> (p = Boot \<and> pcpu (pcbs s Boot) = 0 \<or> runnable s p)" if "bk = Some p" for p
    using b that by auto
  note q = requeue_inv [OF i r this]
  then obtain x where x: "n = Some x" "bk \<noteq> Some x" "x \<notin> queued s1" "x = Idle 0 \<or> runnable s1 x" by blast
  show ?thesis
  proof (rule switch_inv)
    show "sched_switch_to now (Some x) s1 = Some s'" using sw x by simp
    show "x = Idle 0" if "cur = x" using b x(2) that by auto
  qed (use q x l w idle cur in auto)
qed

lemma yield_inv: "sched_inv s \<Longrightarrow> sched_yield now s = Some s' \<Longrightarrow> sched_inv s'"
proof -
  assume i: "sched_inv s" and y: "sched_yield now s = Some s'"
  obtain cur where cur: "g_current s 0 = Some cur" "cur \<notin> queued s"
      "cur = Idle 0 \<or> (cur = Boot \<and> pcpu (pcbs s Boot) = 0 \<or> runnable s cur)"
    using i by (auto simp: sched_inv_def)
  have id: "idle_pcb (runqs s 0) = Some (Idle 0)" using i by (simp add: sched_inv_def queues_inv_def rq_inv_def)
  have w: "reap_waiter s = None" using i by (simp add: sched_inv_def)
  let ?bk = "if cur \<noteq> Idle 0 then Some cur else None"
  obtain n s1 where r: "requeue_and_pick 0 ?bk s = Some (n, s1)" "sched_switch_to now n s1 = Some s'"
    using y by (auto simp: sched_yield_def this_cpu_id_def cur(1) id w Let_def split: option.splits if_splits)
  show ?thesis
    by (rule pick_and_switch_inv [OF _ _ w _ cur(1) _ r]) (use i cur in \<open>auto simp: sched_inv_def\<close>)
qed

text \<open>Changing a process that is neither queued nor running.\<close>

lemma upd_pcb_inv:
  assumes i: "queues_inv s" and p: "p \<notin> queued s"
  shows "queues_inv (upd_pcb p f s) \<and> queued (upd_pcb p f s) = queued s"
  by (rule queues_inv_cong [OF i]) (use p in auto)

lemma tick_inv: "sched_inv s \<Longrightarrow> sched_tick now now_ns s = Some s' \<Longrightarrow> sched_inv s'"
proof -
  assume i: "sched_inv s" and y: "sched_tick now now_ns s = Some s'"
  obtain cur where cur: "g_current s 0 = Some cur" "cur \<notin> queued s"
      "cur = Idle 0 \<or> pstate (pcbs s cur) \<noteq> PROC_DEAD \<and> (cur = Boot \<and> pcpu (pcbs s Boot) = 0 \<or> runnable s cur)"
    using i by (auto simp: sched_inv_def)
  have id: "idle_pcb (runqs s 0) = Some (Idle 0)" using i by (simp add: sched_inv_def queues_inv_def rq_inv_def)
  have w: "reap_waiter s = None" and c: "0 < cpu_count s" using i by (simp_all add: sched_inv_def queues_inv_def)
  define s1 where "s1 = (if sched_class (pcbs s cur) = SCHED_INTR
    then upd_pcb cur (\<lambda>c. c\<lparr>priority := to_i16 (priority c + cdiv (to_i16 (base_pri c - priority c)) 10)\<rparr>) s else s)"
  have q1: "queues_inv s1" "queued s1 = queued s"
    using i cur(2) upd_pcb_inv [of s cur] by (auto simp: s1_def sched_inv_def)
  have r1: "runnable s1 p = runnable s p" "pcpu (pcbs s1 p) = pcpu (pcbs s p)" "regs (pcbs s1 p) = regs (pcbs s p)"
      "pstate (pcbs s1 p) = pstate (pcbs s p)" for p
    by (simp_all add: s1_def runnable_def)
  have f1: "cpu_count s1 = cpu_count s" "g_current s1 = g_current s" "reap_waiter s1 = None" "runqs s1 = runqs s"
    using w by (simp_all add: s1_def)
  have i1: "sched_inv s1" using i cur q1 r1 f1 by (simp add: sched_inv_def)
  show ?thesis
  proof (cases "cur = Boot \<or> cur = Idle 0 \<or> \<not> now_ns \<ge> deadline_ns (pcbs s1 cur) \<or> pstate (pcbs s1 cur) \<noteq> PROC_RUN")
    case True
    then have "s' = s \<or> s' = s1" using y c unfolding sched_tick_def Let_def s1_def [symmetric]
      by (auto simp: this_cpu_id_def cur(1) id w s1_def [symmetric] split: if_splits)
    then show ?thesis using i i1 by blast
  next
    case False
    then obtain n s2 where r: "requeue_and_pick 0 (Some cur) s1 = Some (n, s2)" "sched_switch_to now n s2 = Some s'"
      using y c by (auto simp: sched_tick_def this_cpu_id_def cur(1) id w Let_def s1_def [symmetric] split: option.splits)
    show ?thesis
      by (rule pick_and_switch_inv [OF q1(1) _ f1(3) _ _ _ r]) (use i1 cur f1 r1 q1 False in \<open>auto simp: sched_inv_def\<close>)
  qed
qed

lemma wake_inv:
  assumes i: "sched_inv s" and p: "runnable s p" "g_current s 0 \<noteq> Some p" and e: "sched_wake now p s = Some s'"
  shows "sched_inv s'"
proof (cases "pstate (pcbs s p) = PROC_WAIT")
  case False
  then show ?thesis using e i by (simp add: sched_wake_def)
next
  case True
  define s1 where "s1 = (let t = upd_pcb p (\<lambda>c. c\<lparr>wake_ns := now\<rparr>) s; b = to_i16 (base_pri (pcbs t p) - SCHED_BOOST) in
    if sched_class (pcbs t p) = SCHED_INTR then upd_pcb p (\<lambda>c. c\<lparr>priority := (if b < 0 then 0 else b)\<rparr>) t else t)"
  have e: "sched_enqueue p s1 = Some s'" using e True unfolding sched_wake_def s1_def Let_def by simp
  have q: "queues_inv s" "p \<notin> queued s" using i queued_READY True by (auto simp: sched_inv_def)
  have q1: "queues_inv s1 \<and> queued s1 = queued s"
    by (rule queues_inv_cong [OF q(1)]) (use q(2) in \<open>auto simp: s1_def Let_def\<close>)
  have f1: "cpu_count s1 = cpu_count s" "g_current s1 = g_current s" "reap_waiter s1 = reap_waiter s" "runqs s1 = runqs s"
    by (simp_all add: s1_def Let_def)
  have p1: "r \<noteq> p \<Longrightarrow> pcbs s1 r = pcbs s r" "runnable s1 r = runnable s r" for r
    by (auto simp: s1_def Let_def runnable_def)
  have q2: "queues_inv s' \<and> queued s' = insert p (queued s)"
    using enqueue_inv [OF _ _ _ e] q1 p(1) p1(2) q(2) by blast
  have f2: "cpu_count s' = cpu_count s" "g_current s' = g_current s" "reap_waiter s' = reap_waiter s"
      "\<And>c. rlock (runqs s' c) = rlock (runqs s c)" "\<And>r. r \<noteq> p \<Longrightarrow> pcbs s' r = pcbs s r"
    using enqueue_frame [OF e] f1 p1(1) by auto
  have "p \<noteq> Idle 0" using p(1) by (auto simp: runnable_def)
  then show ?thesis using i p(2) q2 f2 by (auto simp: sched_inv_def runnable_def)
qed

lemma enqueue_step_inv:
  assumes i: "sched_inv s" and p: "runnable s p" "p \<notin> queued s" "g_current s 0 \<noteq> Some p" and e: "sched_enqueue p s = Some s'"
  shows "sched_inv s'"
proof -
  have "queues_inv s' \<and> queued s' = insert p (queued s)" using enqueue_inv [OF _ p(2,1) e] i by (simp add: sched_inv_def)
  moreover have "p \<noteq> Idle 0" using p(1) by (auto simp: runnable_def)
  ultimately show ?thesis using i p(3) enqueue_frame [OF e] by (auto simp: sched_inv_def runnable_def)
qed

lemma destroy_map_frame:
  "destroy_map m s = Some s' \<Longrightarrow> runqs s' = runqs s \<and> pcbs s' = pcbs s \<and> cpu_count s' = cpu_count s \<and>
     g_current s' = g_current s \<and> reap_waiter s' = reap_waiter s"
  by (auto simp: destroy_map_def split: option.splits)

lemma sched_inv_cong:
  "sched_inv s \<Longrightarrow> runqs s' = runqs s \<Longrightarrow> pcbs s' = pcbs s \<Longrightarrow> cpu_count s' = cpu_count s \<Longrightarrow>
     g_current s' = g_current s \<Longrightarrow> reap_waiter s' = reap_waiter s \<Longrightarrow> sched_inv s'"
  by (simp add: sched_inv_def queues_inv_def queued_def runnable_def)

lemma exit_inv:
  assumes i: "sched_inv s" and e: "sched_exit code s = Some (b, s')"
  shows "sched_inv s'"
proof -
  obtain cur where cur: "g_current s 0 = Some cur" "cur \<notin> queued s" using i by (auto simp: sched_inv_def)
  let ?d = "mark_dead code cur s"
  have w: "reap_waiter s = None" and q: "queues_inv s" and id: "rip (regs (pcbs s (Idle 0))) \<noteq> 0" using i by (auto simp: sched_inv_def)
  have d: "runqs ?d = runqs s" "cpu_count ?d = cpu_count s" "g_current ?d = g_current s" "reap_waiter ?d = None"
      "\<And>r. r \<noteq> cur \<Longrightarrow> pcbs ?d r = pcbs s r" "\<And>r. regs (pcbs ?d r) = regs (pcbs s r)"
    using w by (auto simp: mark_dead_def)
  have qd: "queues_inv ?d \<and> queued ?d = queued s"
  proof (rule queues_inv_cong [OF q])
    show "p \<in> queued s \<Longrightarrow> pcbs ?d p = pcbs s p" for p using d(5) cur(2) by metis
  qed (use d in auto)
  have "exit_to_next code cur s = Some s'"
    using e by (auto simp: sched_exit_def this_cpu_id_def cur(1) w split: bool.splits)
  then obtain n s1 where r: "requeue_and_pick 0 None ?d = Some (n, s1)" and e1: "(case (case n of
        Some n' \<Rightarrow> if pstate (pcbs s1 n') = PROC_DEAD then idle_pcb (runqs s1 0) else n
      | None \<Rightarrow> idle_pcb (runqs s1 0)) of None \<Rightarrow> None
      | Some n \<Rightarrow> destroy_map (va_map (pcbs s cur)) (enter_process n s1)) = Some s'"
    unfolding exit_to_next_def pick_after_exit_def this_cpu_id_def Let_def d(4)
    by (cases "requeue_and_pick 0 None ?d") auto
  have r1: "queues_inv s1" "cpu_count s1 = cpu_count s" "reap_waiter s1 = None" "\<forall>c < cpu_count s. \<not> rlock (runqs s1 c)"
      "\<And>q. regs (pcbs s1 q) = regs (pcbs s q)"
    using requeue_inv [OF _ r] qd d(1-4,6) i by (auto simp: sched_inv_def)
  obtain x where x: "n = Some x" "x \<notin> queued s1" "x = Idle 0 \<or> pstate (pcbs s1 x) = PROC_READY \<and> runnable s1 x"
    using requeue_inv [OF _ r] qd by auto
  have "idle_pcb (runqs s1 0) = Some (Idle 0)" using r1(1) by (simp add: queues_inv_def rq_inv_def)
  then have e2: "destroy_map (va_map (pcbs s cur)) (enter_process x s1) = Some s'"
    using e1 x by (auto split: if_splits)
  let ?u = "enter_process x s1"
  have u: "runqs ?u = (runqs s1)(0 := (runqs s1 0)\<lparr>rq_current := Some x\<rparr>)" "pcbs ?u = (pcbs s1)(x := (pcbs s1 x)\<lparr>pstate := PROC_RUN\<rparr>)"
      "cpu_count ?u = cpu_count s1" "reap_waiter ?u = reap_waiter s1" "g_current ?u 0 = Some x"
    by (simp_all add: enter_process_def this_cpu_id_def Let_def)
  have qu: "queues_inv ?u \<and> queued ?u = queued s1"
    by (rule queues_inv_cong [OF r1(1)]) (use u x(2) in auto)
  have "runnable ?u x = runnable s1 x" using u by (simp add: runnable_def)
  moreover have "rip (regs (pcbs ?u (Idle 0))) \<noteq> 0" using u r1(5) id by auto
  ultimately have "sched_inv ?u" using qu u r1 x by (auto simp: sched_inv_def)
  then show ?thesis using destroy_map_frame [OF e2] sched_inv_cong by blast
qed

lemma kstack_frame:
  "sched_kstack_alloc p s = Some (rc, s') \<Longrightarrow> runqs s' = runqs s \<and> cpu_count s' = cpu_count s \<and>
     g_current s' = g_current s \<and> reap_waiter s' = reap_waiter s \<and> (\<forall>r. r \<noteq> p \<longrightarrow> pcbs s' r = pcbs s r)"
  by (auto simp: sched_kstack_alloc_def split: if_splits option.splits prod.splits)

lemma scan_pid_free: "scan_pid s start n = Some m \<Longrightarrow> slot_free s m"
proof (induction s start n rule: scan_pid.induct)
  case (1 s start n)
  show ?case using 1 unfolding scan_pid.simps [of s start n] by (auto split: if_splits)
qed

lemma spawn_map_frame:
  "spawn_map a s = (vm, s') \<Longrightarrow> runqs s' = runqs s \<and> cpu_count s' = cpu_count s \<and> g_current s' = g_current s \<and>
     reap_waiter s' = reap_waiter s \<and> pcbs s' = pcbs s \<and> proc_count s' = proc_count s \<and> next_pid s' = next_pid s"
  by (auto simp: spawn_map_def split: option.splits prod.splits)

lemma spawn_finish_frame:
  "runqs (spawn_finish a n s) = runqs s" "cpu_count (spawn_finish a n s) = cpu_count s"
  "g_current (spawn_finish a n s) = g_current s" "reap_waiter (spawn_finish a n s) = reap_waiter s"
  "proc_count (spawn_finish a n s) = proc_count s + 1" "next_pid (spawn_finish a n s) = next_pid s"
  "r \<noteq> slot_of n \<Longrightarrow> pcbs (spawn_finish a n s) r = pcbs s r"
proof -
  obtain vm t where m: "spawn_map a (s\<lparr>proc_count := proc_count s + 1\<rparr>) = (vm, t)" by fastforce
  note f = spawn_map_frame [OF m]
  show "runqs (spawn_finish a n s) = runqs s" "cpu_count (spawn_finish a n s) = cpu_count s"
    "g_current (spawn_finish a n s) = g_current s" "reap_waiter (spawn_finish a n s) = reap_waiter s"
    "proc_count (spawn_finish a n s) = proc_count s + 1" "next_pid (spawn_finish a n s) = next_pid s"
    "r \<noteq> slot_of n \<Longrightarrow> pcbs (spawn_finish a n s) r = pcbs s r"
    using f by (simp_all add: spawn_finish_def m)
qed

lemma spawn_at_frame:
  assumes "spawn_at a n s = Some (m, s')"
  shows "runqs s' = runqs s \<and> cpu_count s' = cpu_count s \<and> g_current s' = g_current s \<and> reap_waiter s' = reap_waiter s \<and>
    (\<forall>r. r \<noteq> slot_of n \<longrightarrow> pcbs s' r = pcbs s r)"
proof -
  let ?nx = "of_nat (unat (n + 1) mod MAX_PROCS) :: u32"
  let ?s1 = "upd_pcb (slot_of n) (\<lambda>c. new_pcb a n (cpu_count s)) (s\<lparr>next_pid := (if ?nx = 0 then 1 else ?nx)\<rparr>)"
  obtain rc s2 where k: "sched_kstack_alloc (slot_of n) ?s1 = Some (rc, s2)" and s': "s' = (if rc \<noteq> 0 then s2 else spawn_finish a n s2)"
    using assms by (auto simp: spawn_at_def Let_def split: option.splits prod.splits if_splits)
  show ?thesis using kstack_frame [OF k] by (auto simp: s' spawn_finish_frame)
qed

lemma spawn_inv:
  assumes i: "sched_inv s" and e: "sched_spawn a s = Some (n, s')"
  shows "sched_inv s'"
proof (cases "s' = s")
  case False
  then obtain m where m: "scan_pid s (next_pid s) (next_pid s) = Some m" and a: "spawn_at a m s = Some (n, s')"
    using e unfolding sched_spawn_def by (cases "scan_pid s (next_pid s) (next_pid s)") (auto split: if_splits)
  note fr = spawn_at_frame [OF a]
  have q: "queues_inv s" using i by (simp add: sched_inv_def)
  have nq: "slot_of m \<notin> queued s" using queued_home [OF q, of "slot_of m"] scan_pid_free [OF m]
    by (auto simp: slot_free_def member_ok_def)
  have q': "queues_inv s' \<and> queued s' = queued s"
  proof (rule queues_inv_cong [OF q])
    show "p \<in> queued s \<Longrightarrow> pcbs s' p = pcbs s p" for p using fr nq by metis
  qed (use fr in auto)
  obtain cur where cur: "g_current s 0 = Some cur" "cur \<notin> queued s"
      "cur = Idle 0 \<or> pstate (pcbs s cur) \<noteq> PROC_DEAD \<and> (cur = Boot \<and> pcpu (pcbs s Boot) = 0 \<or> runnable s cur)"
    using i by (auto simp: sched_inv_def)
  have "cur \<noteq> slot_of m" using cur(3) scan_pid_free [OF m] by (auto simp: slot_free_def runnable_def slot_of_def)
  moreover have "Idle 0 \<noteq> slot_of m" by (simp add: slot_of_def)
  ultimately have "pcbs s' cur = pcbs s cur" "pcbs s' (Idle 0) = pcbs s (Idle 0)" using fr by auto
  then show ?thesis using i q' fr cur by (auto simp: sched_inv_def runnable_def)
qed (use i in simp)

lemma steal_pick_Some:
  assumes q: "rq_inv P c q" and p: "steal_pick q = Some p"
  shows "p \<in> set (ready q) \<and> sched_class (P p) \<in> {SCHED_INTR, SCHED_BATCH}"
proof -
  obtain k where k: "k \<in> {SCHED_INTR, SCHED_BATCH}" "rb_leftmost (class_tree k q) = Some p"
  proof -
    have "rb_leftmost (class_tree SCHED_BATCH q) = Some p \<or> rb_leftmost (class_tree SCHED_INTR q) = Some p"
      using p by (simp add: steal_pick_def classes split: if_splits)
    then show thesis using that by blast
  qed
  then have m: "p \<in> set (inorder (class_tree k q))" "k \<in> CLASSES" by (auto simp: leftmost_hd CLASSES_def split: list.splits)
  then have "sched_class (P p) = k" using q by (auto simp: rq_inv_def member_ok_def)
  then show ?thesis using m k(1) unfolding set_ready by blast
qed

lemma steal_move_inv:
  assumes i: "queues_inv s" and c: "victim < cpu_count s" "me < cpu_count s" "me \<noteq> victim"
    and p: "p \<in> set (ready (runqs s victim))" "sched_class (pcbs s p) \<in> {SCHED_INTR, SCHED_BATCH}"
  shows "\<exists>s'. steal_move me victim p s = Some s' \<and> queues_inv s' \<and> queued s' = queued s \<and> cpu_count s' = cpu_count s \<and>
    g_current s' = g_current s \<and> reap_waiter s' = reap_waiter s \<and> (\<forall>d. rlock (runqs s' d) = rlock (runqs s d)) \<and>
    pcbs s' = (pcbs s)(p := (pcbs s p)\<lparr>pcpu := me\<rparr>)"
proof -
  let ?k = "sched_class (pcbs s p)" and ?P = "(pcbs s)(p := (pcbs s p)\<lparr>pcpu := me\<rparr>)"
  let ?qv = "rq_remove ?k p (runqs s victim)" and ?qm = "rq_insert (\<lambda>p. priority (?P p)) ?k p (runqs s me)"
  have v: "rq_inv (pcbs s) victim (runqs s victim)" and m: "rq_inv (pcbs s) me (runqs s me)"
    using i c by (simp_all add: queues_inv_def)
  have k: "?k \<in> CLASSES" using p(2) by (auto simp: CLASSES_def)
  have np: "p \<notin> set (ready (runqs s d))" if "d < cpu_count s" "d \<noteq> victim" for d
    using queued_elsewhere [OF i, of p] p(1) c(1) that by blast
  have rv: "rq_inv (pcbs s) victim ?qv" "set (ready ?qv) = set (ready (runqs s victim)) - {p}" using rq_inv_remove [OF v p(1)] by auto
  have rv': "rq_inv ?P victim ?qv" by (rule rq_inv_cong [OF rv(1)]) (use rv(2) in auto)
  have oth: "rq_inv ?P d (runqs s d)" if "d < cpu_count s" "d \<noteq> victim" for d
    by (rule rq_inv_cong [of "pcbs s"]) (use i np [OF that] that in \<open>auto simp: queues_inv_def\<close>)
  have mp: "member_ok ?P me ?k p" using ready_member [OF v p(1)] by (simp add: member_ok_def)
  have rm: "rq_inv ?P me ?qm" "set (ready ?qm) = insert p (set (ready (runqs s me)))"
    using rq_inv_insert [OF oth [OF c(2,3)] np [OF c(2,3)] k mp] by auto
  let ?t = "upd_pcb p (\<lambda>c. c\<lparr>pcpu := me\<rparr>) (upd_rq victim (rq_remove ?k p) s)"
  let ?s = "upd_rq me (rq_insert (prio_of ?t) ?k p) ?t"
  have cls: "(if ?k = SCHED_BATCH then SCHED_BATCH else SCHED_INTR) = ?k" using p(2) by auto
  have e: "steal_move me victim p s = Some ?s"
    using ready_tree [OF v p(1)] unfolding steal_move_def cls Let_def by simp
  have f: "runqs ?s = (runqs s)(victim := ?qv, me := ?qm)" "pcbs ?s = ?P" "cpu_count ?s = cpu_count s"
    using c(3) by (simp_all add: prio_fun)
  have "queues_inv ?s" using i rv' rm(1) oth unfolding queues_inv_def f by simp
  moreover have "queued ?s = queued s"
  proof
    show "queued ?s \<subseteq> queued s" using rv(2) rm(2) p(1) c unfolding queued_def f by (auto split: if_splits)
    show "queued s \<subseteq> queued ?s"
    proof
      fix x assume "x \<in> queued s"
      then obtain d where d: "d < cpu_count s" "x \<in> set (ready (runqs s d))" by (auto simp: queued_def)
      have "x = p \<or> d \<noteq> me \<and> x \<in> set (ready (runqs ?s d)) \<or> d = me \<and> x \<in> set (ready ?qm)"
        using d rv(2) rm(2) c unfolding f by auto
      moreover have "runqs ?s me = ?qm" unfolding f by simp
      ultimately show "x \<in> queued ?s"
        using d(1) c(2) rm(2) queued_iff [of x ?s] unfolding f(3) by (metis insertI1)
    qed
  qed
  moreover have "rlock (runqs ?s d) = rlock (runqs s d)" for d unfolding f by simp
  ultimately show ?thesis using e f by simp
qed

lemma steal_loop_inv:
  assumes "queues_inv s" "victim < cpu_count s" "me < cpu_count s" "me \<noteq> victim"
  shows "\<exists>s'. steal_loop me victim n s = Some s' \<and> queues_inv s' \<and> queued s' = queued s \<and> cpu_count s' = cpu_count s \<and>
    g_current s' = g_current s \<and> reap_waiter s' = reap_waiter s \<and> (\<forall>d. rlock (runqs s' d) = rlock (runqs s d)) \<and>
    (\<forall>r. r \<notin> queued s \<longrightarrow> pcbs s' r = pcbs s r)"
  using assms
proof (induction n arbitrary: s)
  case (Suc n)
  show ?case
  proof (cases "steal_pick (runqs s victim)")
    case None
    then show ?thesis using Suc.prems by simp
  next
    case (Some p)
    have p: "p \<in> set (ready (runqs s victim)) \<and> sched_class (pcbs s p) \<in> {SCHED_INTR, SCHED_BATCH}"
      by (rule steal_pick_Some [OF _ Some, of _ victim]) (use Suc.prems in \<open>simp add: queues_inv_def\<close>)
    then obtain s1 where s1: "steal_move me victim p s = Some s1" "queues_inv s1" "queued s1 = queued s" "cpu_count s1 = cpu_count s"
        "g_current s1 = g_current s" "reap_waiter s1 = reap_waiter s" "\<forall>d. rlock (runqs s1 d) = rlock (runqs s d)"
        "pcbs s1 = (pcbs s)(p := (pcbs s p)\<lparr>pcpu := me\<rparr>)"
      using steal_move_inv [OF Suc.prems] by blast
    have "p \<in> queued s" using p Suc.prems(2) by (auto simp: queued_def)
    then have "\<forall>r. r \<notin> queued s \<longrightarrow> pcbs s1 r = pcbs s r" using s1(8) by auto
    then show ?thesis using Suc.IH [OF s1(2)] Suc.prems s1 Some by auto
  qed
qed simp

lemma busiest_bound:
  "busiest s me is m v = (m', v') \<Longrightarrow> (\<forall>i \<in> set is. i < n) \<Longrightarrow> (m \<noteq> 0 \<longrightarrow> v < n \<and> v \<noteq> me) \<Longrightarrow>
   m' \<noteq> 0 \<longrightarrow> v' < n \<and> v' \<noteq> me"
proof (induction "is" arbitrary: m v)
  case (Cons i "is")
  then show ?case by (auto simp: Let_def split: if_splits)
qed simp

text \<open>Stealing always returns: both locks are free, and every process is where it says it is.\<close>

lemma steal_inv:
  assumes i: "sched_inv s" and me: "me < cpu_count s"
  shows "\<exists>s'. sched_steal me s = Some s' \<and> sched_inv s' \<and> queued s' = queued s"
proof -
  obtain m v where b: "busiest s me [0..<cpu_count s] 0 0 = (m, v)" by fastforce
  let ?my = "intr_count (runqs s me) + batch_count (runqs s me)"
  show ?thesis
  proof (cases "m \<le> ?my + SCHED_STEAL_THRESHOLD")
    case True
    then show ?thesis using i b by (simp add: sched_steal_def Let_def)
  next
    case False
    then have "m \<noteq> 0" by auto
    then have v: "v < cpu_count s" "v \<noteq> me" using busiest_bound [OF b, of "cpu_count s"] by auto
    define f g where "f = (if me < v then me else v)" and "g = (if me < v then v else me)"
    have fg: "f < cpu_count s" "g < cpu_count s" "f \<noteq> g" using v me by (auto simp: f_def g_def)
    let ?s1 = "upd_rq g (\<lambda>q. q\<lparr>rlock := True\<rparr>) (upd_rq f (\<lambda>q. q\<lparr>rlock := True\<rparr>) s)"
    let ?n = "unat ((intr_count (runqs ?s1 v) + batch_count (runqs ?s1 v)) div 2)"
    have q: "queues_inv s" and l: "\<forall>c < cpu_count s. \<not> rlock (runqs s c)" using i by (auto simp: sched_inv_def)
    have q1: "queues_inv ?s1" "queued ?s1 = queued s" using lock_inv [OF q] lock_inv by metis+
    have f1: "cpu_count ?s1 = cpu_count s" "g_current ?s1 = g_current s" "reap_waiter ?s1 = reap_waiter s" "pcbs ?s1 = pcbs s" by simp_all
    obtain s2 where s2: "steal_loop me v ?n ?s1 = Some s2"
        "queues_inv s2" "queued s2 = queued s" "cpu_count s2 = cpu_count s" "g_current s2 = g_current s" "reap_waiter s2 = reap_waiter s"
        "\<forall>d. rlock (runqs s2 d) = rlock (runqs ?s1 d)" "\<forall>r. r \<notin> queued s \<longrightarrow> pcbs s2 r = pcbs s r"
      using steal_loop_inv [OF q1(1), of v me ?n] v me unfolding f1 q1(2) by blast
    let ?s3 = "spin_unlock f (spin_unlock g s2)"
    have e: "sched_steal me s = Some ?s3"
      using False b s2(1) l fg unfolding sched_steal_def b prod.case Let_def f_def [symmetric] g_def [symmetric]
      by (simp add: spin_lock_def)
    have q3: "queues_inv ?s3 \<and> queued ?s3 = queued s" using lock_inv [OF s2(2)] lock_inv s2(3) unfolding spin_unlock_def by metis
    have f3: "pcbs ?s3 = pcbs s2" "cpu_count ?s3 = cpu_count s" "g_current ?s3 = g_current s" "reap_waiter ?s3 = reap_waiter s"
      using s2 by (simp_all add: spin_unlock_def)
    have l3: "\<forall>c < cpu_count s. \<not> rlock (runqs ?s3 c)" using l s2(7) by (auto simp: spin_unlock_def)
    have "Idle 0 \<notin> queued s" using queued_home [OF q, of "Idle 0"] by (auto simp: member_ok_def)
    then have "sched_inv ?s3" using i q3 f3 l3 s2(8) by (auto simp: sched_inv_def runnable_def)
    then show ?thesis using e q3 by blast
  qed
qed

section \<open>Reachable states\<close>

lemma kstack_returns: "\<exists>rc s'. sched_kstack_alloc p s = Some (rc, s')"
proof -
  obtain r where "kmalloc SCHED_KSTACK_SIZE (heap s) = Some r"
    using kmalloc_returns [of SCHED_KSTACK_SIZE "heap s"] by (auto simp: SCHED_KSTACK_SIZE_def word_le_nat_alt)
  then show ?thesis by (cases r) (auto simp: sched_kstack_alloc_def)
qed

lemma kstack_regs: "sched_kstack_alloc p s = Some (rc, s') \<Longrightarrow> regs (pcbs s' r) = regs (pcbs s r)"
  by (auto simp: sched_kstack_alloc_def split: if_splits option.splits prod.splits)

definition empty_rq :: "nat \<Rightarrow> runq \<Rightarrow> bool" where
  "empty_rq c q \<longleftrightarrow> rt_tree q = Leaf \<and> intr_tree q = Leaf \<and> batch_tree q = Leaf \<and> rt_count q = 0 \<and> intr_count q = 0 \<and>
     batch_count q = 0 \<and> \<not> rlock q \<and> idle_pcb q = Some (Idle c)"

lemma empty_rq_inv: "empty_rq c q \<Longrightarrow> rq_inv P c q \<and> ready q = []"
  by (simp add: empty_rq_def rq_inv_def rq_ok_def ready_def classes tree_wf_def)

lemma init_cpu_spec:
  "\<exists>s'. init_cpu fn i s = Some s' \<and> empty_rq i (runqs s' i) \<and> (\<forall>c. c \<noteq> i \<longrightarrow> runqs s' c = runqs s c) \<and>
     rip (regs (pcbs s' (Idle i))) = fn \<and> (\<forall>p. p \<noteq> Idle i \<longrightarrow> pcbs s' p = pcbs s p) \<and>
     cpu_count s' = cpu_count s \<and> reap_waiter s' = reap_waiter s"
proof -
  let ?s1 = "upd_rq i (\<lambda>q. q\<lparr>rlock := False, rq_cpu_id := i, rt_tree := Leaf, intr_tree := Leaf, batch_tree := Leaf,
      rt_count := 0, intr_count := 0, batch_count := 0, steal_ns := 0, total_ns := 0, idle_ns := 0\<rparr>) s"
  let ?s2 = "upd_pcb (Idle i) (\<lambda>c. zero_pcb\<lparr>pstate := PROC_RUN, sched_class := SCHED_BATCH, pcpu := i,
      priority := 127, base_pri := 127, deadline_ns := -1, pname := ''idle'',
      regs := \<lparr>rip = fn, rflags = 0x202, ctx_cr3 = kernel_cr3 (mm (heap ?s1)), seg_cs = 0x08, seg_ss = 0x10\<rparr>\<rparr>) ?s1"
  obtain rc s3 where k: "sched_kstack_alloc (Idle i) ?s2 = Some (rc, s3)" using kstack_returns by blast
  let ?s4 = "if rc \<noteq> 0 then upd_pcb (Idle i) (\<lambda>c. c\<lparr>kstack := boot_kstack s3,
      kstack_top := boot_kstack s3 + SCHED_BOOTSTRAP_KSTACK_SIZE\<rparr>) s3 else s3"
  let ?s' = "upd_rq i (\<lambda>q. q\<lparr>idle_pcb := Some (Idle i), rq_current := Some (Idle i)\<rparr>)
      (?s4\<lparr>g_current := (g_current ?s4)(i := Some (Idle i))\<rparr>)"
  have "init_cpu fn i s = Some ?s'" using k by (simp add: init_cpu_def Let_def)
  moreover have "empty_rq i (runqs ?s' i)" "\<forall>c. c \<noteq> i \<longrightarrow> runqs ?s' c = runqs s c" "rip (regs (pcbs ?s' (Idle i))) = fn"
      "\<forall>p. p \<noteq> Idle i \<longrightarrow> pcbs ?s' p = pcbs s p" "cpu_count ?s' = cpu_count s" "reap_waiter ?s' = reap_waiter s"
    using kstack_frame [OF k] kstack_regs [OF k, of "Idle i"] by (simp_all add: empty_rq_def)
  ultimately show ?thesis by blast
qed

lemma init_cpus_spec:
  "\<exists>s'. init_cpus fn k s = Some s' \<and> (\<forall>c < k. empty_rq c (runqs s' c) \<and> rip (regs (pcbs s' (Idle c))) = fn) \<and>
     cpu_count s' = cpu_count s \<and> reap_waiter s' = reap_waiter s"
proof (induction k)
  case (Suc k)
  then obtain s1 where s1: "init_cpus fn k s = Some s1" "\<forall>c < k. empty_rq c (runqs s1 c) \<and> rip (regs (pcbs s1 (Idle c))) = fn"
    "cpu_count s1 = cpu_count s" "reap_waiter s1 = reap_waiter s" by blast
  obtain s2 where "init_cpu fn k s1 = Some s2" "empty_rq k (runqs s2 k)" "\<forall>c. c \<noteq> k \<longrightarrow> runqs s2 c = runqs s1 c"
    "rip (regs (pcbs s2 (Idle k))) = fn" "\<forall>p. p \<noteq> Idle k \<longrightarrow> pcbs s2 p = pcbs s1 p"
    "cpu_count s2 = cpu_count s1" "reap_waiter s2 = reap_waiter s1"
    using init_cpu_spec [of fn k s1] by blast
  then show ?case using s1 by (auto simp: less_Suc_eq)
qed simp

lemma sched_init_count:
  assumes "sched_init fn n s = Some s1"
  shows "cpu_count s1 = (if n > MAX_CPUS then MAX_CPUS else n)"
proof -
  define k where "k = (if n > MAX_CPUS then MAX_CPUS else n)"
  obtain s2 where "init_cpus fn k (s\<lparr>cpu_count := k, next_pid := 1, proc_count := 0\<rparr>) = Some s2" "cpu_count s2 = k"
    using init_cpus_spec [of fn k "s\<lparr>cpu_count := k, next_pid := 1, proc_count := 0\<rparr>"] by auto
  then show ?thesis using assms by (auto simp: sched_init_def Let_def k_def [symmetric])
qed

lemma boot_inv:
  assumes "0 < n" "idle_fn \<noteq> 0" "reap_waiter s = None"
  shows "\<exists>s1. sched_init idle_fn n s = Some s1 \<and> sched_inv (sched_bootstrap_init_thread s1)"
proof -
  define k where "k = (if n > MAX_CPUS then MAX_CPUS else n)"
  obtain s1 where s1: "init_cpus idle_fn k (s\<lparr>cpu_count := k, next_pid := 1, proc_count := 0\<rparr>) = Some s1"
    and c: "\<forall>c < k. empty_rq c (runqs s1 c) \<and> rip (regs (pcbs s1 (Idle c))) = idle_fn"
    and f: "cpu_count s1 = k" "reap_waiter s1 = None"
    using init_cpus_spec [of idle_fn k "s\<lparr>cpu_count := k, next_pid := 1, proc_count := 0\<rparr>"] assms(3) by auto
  let ?s2 = "s1\<lparr>st_magic := SCHED_STATE_MAGIC, st_cpu_count := k\<rparr>"
  let ?b = "sched_bootstrap_init_thread ?s2"
  have k: "0 < k" using assms(1) by (simp add: k_def MAX_CPUS_def)
  have b: "cpu_count ?b = k" "reap_waiter ?b = None" "g_current ?b 0 = Some Boot" "pcpu (pcbs ?b Boot) = 0"
      "pstate (pcbs ?b Boot) = PROC_RUN" "pcbs ?b (Idle 0) = pcbs s1 (Idle 0)"
    using f by (simp_all add: sched_bootstrap_init_thread_def Let_def zero_pcb_def)
  have r: "empty_rq c (runqs ?b c)" if "c < k" for c
    using c that by (simp add: sched_bootstrap_init_thread_def Let_def empty_rq_def)
  have "queues_inv ?b" using b(1) k r empty_rq_inv by (simp add: queues_inv_def)
  moreover have "queued ?b = {}" using b(1) r empty_rq_inv by (fastforce simp: queued_def)
  moreover have "\<forall>c < k. \<not> rlock (runqs ?b c)" using r by (simp add: empty_rq_def)
  ultimately have "sched_inv ?b" using b c k assms(2) by (simp add: sched_inv_def)
  moreover have "sched_init idle_fn n s = Some ?s2" using s1 by (simp add: sched_init_def Let_def k_def [symmetric])
  ultimately show ?thesis by blast
qed

text \<open>
  The operations that processes and interrupts perform while nobody reaps. Loading a program
  prepares a process that is neither queued nor running. A class or priority is set only for a
  process that is not queued.
\<close>

inductive sched_step :: "sched \<Rightarrow> sched \<Rightarrow> bool" where
  prepare: "p \<notin> queued s \<Longrightarrow> g_current s 0 \<noteq> Some p \<Longrightarrow> p \<noteq> Idle 0 \<Longrightarrow> sched_step s (upd_pcb p f s)"
| enqueue: "runnable s p \<Longrightarrow> p \<notin> queued s \<Longrightarrow> g_current s 0 \<noteq> Some p \<Longrightarrow> sched_enqueue p s = Some s' \<Longrightarrow> sched_step s s'"
| wake: "runnable s p \<Longrightarrow> g_current s 0 \<noteq> Some p \<Longrightarrow> sched_wake now p s = Some s' \<Longrightarrow> sched_step s s'"
| yield: "sched_yield now s = Some s' \<Longrightarrow> sched_step s s'"
| tick: "sched_tick now now_ns s = Some s' \<Longrightarrow> sched_step s s'"
| spawn: "sched_spawn a s = Some (n, s') \<Longrightarrow> sched_step s s'"
| exit: "sched_exit code s = Some (b, s') \<Longrightarrow> sched_step s s'"
| steal: "me < cpu_count s \<Longrightarrow> sched_steal me s = Some s' \<Longrightarrow> sched_step s s'"
| set: "slot_of n \<notin> queued s \<Longrightarrow> cls \<in> CLASSES \<Longrightarrow> sched_set n cls pri s = (rc, s') \<Longrightarrow> sched_step s s'"

lemma prepare_inv:
  assumes i: "sched_inv s" and p: "p \<notin> queued s" "g_current s 0 \<noteq> Some p" "p \<noteq> Idle 0"
  shows "sched_inv (upd_pcb p f s)"
proof -
  have "queues_inv (upd_pcb p f s) \<and> queued (upd_pcb p f s) = queued s" using i p(1) by (intro upd_pcb_inv) (auto simp: sched_inv_def)
  then show ?thesis using i p by (auto simp: sched_inv_def runnable_def)
qed

lemma set_inv:
  assumes i: "sched_inv s" and q: "slot_of n \<notin> queued s" and c: "cls \<in> CLASSES" and e: "sched_set n cls pri s = (rc, s')"
  shows "sched_inv s'"
proof (cases "sched_find n s")
  case None
  then show ?thesis using e i by (simp add: sched_set_def)
next
  case (Some p)
  then have p: "p = slot_of n" "p \<noteq> Idle 0" "p \<noteq> Boot" by (auto simp: sched_find_def slot_of_def split: if_splits)
  have s': "s' = upd_pcb p (\<lambda>c. c\<lparr>sched_class := cls, base_pri := to_i16 pri, priority := to_i16 pri\<rparr>) s"
    using e Some by (simp add: sched_set_def)
  have "queues_inv s' \<and> queued s' = queued s" unfolding s' using i p(1) q by (intro upd_pcb_inv) (auto simp: sched_inv_def)
  moreover obtain cur where "g_current s 0 = Some cur" "cur \<notin> queued s"
      "cur = Idle 0 \<or> pstate (pcbs s cur) \<noteq> PROC_DEAD \<and> (cur = Boot \<and> pcpu (pcbs s Boot) = 0 \<or> runnable s cur)"
    using i by (auto simp: sched_inv_def)
  ultimately show ?thesis using i p c unfolding s' sched_inv_def
    by (intro conjI exI [of _ cur]) (auto simp: sched_inv_def runnable_def)
qed

text \<open>Changing the class of a queued process leaves it in the tree of its old class.\<close>

lemma set_queued_breaks:
  assumes i: "sched_inv s" and f: "sched_find n s = Some p" "p \<in> queued s" "cls \<noteq> sched_class (pcbs s p)"
  shows "\<not> sched_inv (snd (sched_set n cls pri s))"
proof
  let ?s = "snd (sched_set n cls pri s)"
  assume "sched_inv ?s"
  then have i': "queues_inv ?s" by (simp add: sched_inv_def)
  have r: "runqs ?s = runqs s" "cpu_count ?s = cpu_count s" "sched_class (pcbs ?s p) = cls" using f(1) by (simp_all add: sched_set_def)
  obtain c where c: "c < cpu_count s" "p \<in> set (ready (runqs s c))" using f(2) by (auto simp: queued_iff)
  then obtain k where k: "k \<in> CLASSES" "p \<in> set (inorder (class_tree k (runqs s c)))" by (auto simp: set_ready)
  have "rq_inv (pcbs s) c (runqs s c)" "rq_inv (pcbs ?s) c (runqs s c)" using i i' c(1) r by (auto simp: sched_inv_def queues_inv_def)
  then have "sched_class (pcbs s p) = k" "sched_class (pcbs ?s p) = k" using k by (auto simp: rq_inv_def member_ok_def)
  then show False using f(3) r(3) by simp
qed

lemma step_inv: "sched_step s s' \<Longrightarrow> sched_inv s \<Longrightarrow> sched_inv s'"
proof (induction rule: sched_step.induct)
  case (steal me s s')
  then show ?case using steal_inv by fastforce
qed (blast intro: prepare_inv enqueue_step_inv wake_inv yield_inv tick_inv spawn_inv exit_inv set_inv)+

lemma queues_distinct:
  assumes i: "queues_inv s" and n: "n \<le> cpu_count s"
  shows "distinct (concat (map (\<lambda>c. ready (runqs s c)) [0..<n]))"
  using n
proof (induction n)
  case (Suc n)
  have q: "rq_inv (pcbs s) n (runqs s n)" using i Suc.prems by (simp add: queues_inv_def)
  have d: "distinct (inorder (class_tree k (runqs s n)))" if "k \<in> CLASSES" for k
    using q that by (auto simp: rq_inv_def rq_ok_def tree_wf_def)
  have h: "sched_class (pcbs s p) = k" if "k \<in> CLASSES" "p \<in> set (inorder (class_tree k (runqs s n)))" for k p
    using q that by (auto simp: rq_inv_def member_ok_def)
  have x: "set (inorder (class_tree k (runqs s n))) \<inter> set (inorder (class_tree k' (runqs s n))) = {}"
    if "k \<in> CLASSES" "k' \<in> CLASSES" "k \<noteq> k'" for k k'
    using h [OF that(1)] h [OF that(2)] that(3) by (metis disjoint_iff)
  have "distinct (ready (runqs s n))"
    using d [of SCHED_RT] d [of SCHED_INTR] d [of SCHED_BATCH] x [of SCHED_RT SCHED_INTR] x [of SCHED_RT SCHED_BATCH] x [of SCHED_INTR SCHED_BATCH]
    by (simp add: ready_def classes Int_Un_distrib)
  moreover have "p \<notin> set (ready (runqs s c))" if "p \<in> set (ready (runqs s n))" "c < n" for p c
    using queued_elsewhere [OF i, of p c] queued_elsewhere [OF i that(1)] that(2) Suc.prems by auto
  ultimately show ?case using Suc by auto
qed simp

text \<open>A scheduler before its initialisation.\<close>

definition blank_rq :: runq where
  "blank_rq = \<lparr>rlock = False, rq_cpu_id = 0, rt_tree = Leaf, intr_tree = Leaf, batch_tree = Leaf, rt_count = 0, intr_count = 0,
     batch_count = 0, rq_current = None, idle_pcb = None, steal_ns = 0, total_ns = 0, idle_ns = 0\<rparr>"

definition blank_sched :: sched where
  "blank_sched = \<lparr>runqs = (\<lambda>_. blank_rq), cpu_count = 0, pcbs = (\<lambda>_. zero_pcb), next_pid = 0, proc_count = 0,
     g_current = (\<lambda>_. None), reap_waiter = None, reap_jmp_active = False, reap_jmp = None, heap = tiny_heap, vmap_next = 0,
     boot_kstack = 0x100000, kernel_rsp = 0, tss_rsp0 = 0, cr3_reg = 0, st_magic = 0, st_cpu_count = 0, st_seq = 0, st_total = 0,
     st_cpus = (\<lambda>_. \<lparr>l_rt = 0, l_intr = 0, l_batch = 0, l_current_pid = 0, l_idle_ns = 0, l_busy_ns = 0\<rparr>)\<rparr>"

section \<open>Creating and reaping\<close>

lemma kstack_fresh:
  assumes "sched_kstack_alloc p s = Some (0, s')" "kstack (pcbs s p) = 0"
  shows "\<exists>ks. ks \<noteq> 0 \<and> pcbs s' = (pcbs s)(p := (pcbs s p)\<lparr>kstack := ks, kstack_top := ks + SCHED_KSTACK_SIZE\<rparr>) \<and>
    proc_count s' = proc_count s"
  using assms by (auto simp: sched_kstack_alloc_def split: if_splits option.splits prod.splits)

lemma spawn_finish_pcb:
  "\<exists>vm. pcbs (spawn_finish a n s) (slot_of n) = (pcbs s (slot_of n))\<lparr>va_map := vm, pstate := PROC_NEW, deadline_ns := -1,
     regs := (regs (pcbs s (slot_of n)))\<lparr>rflags := 0x202, seg_cs := 0x08, seg_ss := 0x10\<rparr>\<rparr>"
proof -
  obtain vm t where m: "spawn_map a (s\<lparr>proc_count := proc_count s + 1\<rparr>) = (vm, t)" by fastforce
  then show ?thesis using spawn_map_frame [OF m] by (auto simp: spawn_finish_def m)
qed

lemma spawn_spec:
  assumes e: "sched_spawn a s = Some (n, s')" and n: "n \<noteq> 0"
  shows "slot_free s n \<and> (\<forall>r. r \<noteq> slot_of n \<longrightarrow> pcbs s' r = pcbs s r) \<and> runqs s' = runqs s \<and>
    proc_count s' = proc_count s + 1 \<and>
    (let c = pcbs s' (slot_of n) in pid c = n \<and> pstate c = PROC_NEW \<and> sched_class c = sa_class a \<and>
       priority c = to_i16 (sa_priority a) \<and> base_pri c = to_i16 (sa_priority a) \<and> kstack c \<noteq> 0)"
proof -
  obtain m where m: "scan_pid s (next_pid s) (next_pid s) = Some m" and a: "spawn_at a m s = Some (n, s')"
    using e n unfolding sched_spawn_def by (cases "scan_pid s (next_pid s) (next_pid s)") (auto split: if_splits)
  let ?nx = "of_nat (unat (m + 1) mod MAX_PROCS) :: u32"
  let ?s1 = "upd_pcb (slot_of m) (\<lambda>c. new_pcb a m (cpu_count s)) (s\<lparr>next_pid := (if ?nx = 0 then 1 else ?nx)\<rparr>)"
  obtain rc s2 where k: "sched_kstack_alloc (slot_of m) ?s1 = Some (rc, s2)"
    and r: "Some (n, s') = (if rc \<noteq> 0 then Some (0, s2) else Some (m, spawn_finish a m s2))"
    using a by (auto simp: spawn_at_def Let_def split: option.splits prod.splits)
  have rc: "rc = 0" "n = m" "s' = spawn_finish a m s2" using r n by (auto split: if_splits)
  obtain ks where ks: "ks \<noteq> 0" "pcbs s2 = (pcbs ?s1)(slot_of m := (pcbs ?s1 (slot_of m))\<lparr>kstack := ks, kstack_top := ks + SCHED_KSTACK_SIZE\<rparr>)"
      "proc_count s2 = proc_count s"
    using kstack_fresh [of "slot_of m" ?s1 s2] k rc by (auto simp: new_pcb_def zero_pcb_def)
  obtain vm where vm: "pcbs s' (slot_of n) = (pcbs s2 (slot_of n))\<lparr>va_map := vm, pstate := PROC_NEW, deadline_ns := -1,
      regs := (regs (pcbs s2 (slot_of n)))\<lparr>rflags := 0x202, seg_cs := 0x08, seg_ss := 0x10\<rparr>\<rparr>"
    using spawn_finish_pcb [of a n s2] rc by auto
  have "\<forall>r. r \<noteq> slot_of n \<longrightarrow> pcbs s' r = pcbs s r" "runqs s' = runqs s" using spawn_at_frame [OF a] rc by auto
  moreover have "proc_count s' = proc_count s + 1" using rc ks spawn_finish_frame(5) by simp
  moreover have "slot_free s n" using scan_pid_free [OF m] rc by simp
  ultimately show ?thesis using vm ks rc by (simp add: new_pcb_def zero_pcb_def Let_def)
qed

lemma takeoff_frame:
  "sched_takeoff_runq_locked c p s = Some s' \<Longrightarrow> \<exists>q. s' = s\<lparr>runqs := q\<rparr>"
  by (auto simp: sched_takeoff_runq_locked_def Let_def upd_rq_def split: if_splits intro: exI [of _ "runqs s"])

lemma free_kstack_spec:
  assumes "free_kstack p s = Some s'"
  shows "\<exists>h ks kt. s' = s\<lparr>heap := h, pcbs := (pcbs s)(p := (pcbs s p)\<lparr>kstack := ks, kstack_top := kt\<rparr>)\<rparr> \<and>
    (ks = 0 \<or> ks = boot_kstack s \<or> pid (pcbs s p) = 0)"
proof (cases "kstack (pcbs s p) \<noteq> 0 \<and> kstack (pcbs s p) \<noteq> boot_kstack s \<and> pid (pcbs s p) \<noteq> 0")
  case True
  then obtain h where "kfree (kstack (pcbs s p)) (heap s) = Some h" "s' = upd_pcb p (\<lambda>c. c\<lparr>kstack := 0, kstack_top := 0\<rparr>) (s\<lparr>heap := h\<rparr>)"
    using assms by (auto simp: free_kstack_def Let_def split: option.splits)
  then show ?thesis by (auto simp: upd_pcb_def intro!: exI [of _ h] exI [of _ 0])
next
  case False
  then have "s' = s" using assms by (auto simp: free_kstack_def Let_def)
  then show ?thesis using False
    by (intro exI [of _ "heap s"] exI [of _ "kstack (pcbs s p)"] exI [of _ "kstack_top (pcbs s p)"]) auto
qed

lemma free_kstack_again:
  "kstack (pcbs s p) = 0 \<or> kstack (pcbs s p) = boot_kstack s \<or> pid (pcbs s p) = 0 \<Longrightarrow> free_kstack p s = Some s"
  by (auto simp: free_kstack_def Let_def)

lemma reap_begin_spec:
  assumes "reap_begin n s = Some (Some (True, p, cls, pri), s1)"
  shows "sched_find n s = Some p" "pcbs s1 = (pcbs s)(p := (pcbs s p)\<lparr>sched_class := SCHED_RT, priority := 0, pstate := PROC_RUN\<rparr>)"
    "reap_waiter s1 = sched_current s" "reap_jmp_active s1" "g_current s1 this_cpu_id = Some p"
    "proc_count s1 = proc_count s" "boot_kstack s1 = boot_kstack s" "reap_jmp s1 = Some (p, cls, pri)"
proof -
  let ?s0 = "(upd_pcb p (\<lambda>c. c\<lparr>sched_class := SCHED_RT, priority := 0\<rparr>) (s\<lparr>reap_waiter := sched_current s, reap_jmp_active := True\<rparr>))
    \<lparr>reap_jmp := Some (p, sched_class (pcbs s p), priority (pcbs s p))\<rparr>"
  let ?l = "upd_rq this_cpu_id (\<lambda>q. q\<lparr>rlock := True\<rparr>) ?s0"
  show f: "sched_find n s = Some p" using assms
    by (cases "sched_find n s") (auto simp: reap_begin_def Let_def split: if_splits option.splits)
  obtain s2 where t: "sched_takeoff_runq_locked this_cpu_id p ?l = Some s2"
    and sv: "cls = sched_class (pcbs s p)" "pri = priority (pcbs s p)"
    and s1: "s1 = (let s = spin_unlock this_cpu_id s2;
         s = upd_rq this_cpu_id (\<lambda>q. q\<lparr>rq_current := Some p\<rparr>) (s\<lparr>g_current := (g_current s)(this_cpu_id := Some p)\<rparr>);
         s = upd_pcb p (\<lambda>c. c\<lparr>pstate := PROC_RUN\<rparr>) s;
         s = syscall_on_thread_switch p s in sched_load_cr3 (ctx_cr3 (regs (pcbs s p))) s)"
    using assms unfolding reap_begin_def f by (auto simp: Let_def spin_lock_def split: if_splits option.splits)
  obtain q where q: "s2 = ?l\<lparr>runqs := q\<rparr>" using takeoff_frame [OF t] by blast
  have e: "proc_count (sched_load_cr3 v s) = proc_count s" "boot_kstack (sched_load_cr3 v s) = boot_kstack s"
    "reap_jmp_active (sched_load_cr3 v s) = reap_jmp_active s" "reap_jmp (sched_load_cr3 v s) = reap_jmp s"
    "reap_jmp (syscall_on_thread_switch p s) = reap_jmp s"
    "proc_count (syscall_on_thread_switch p s) = proc_count s" "boot_kstack (syscall_on_thread_switch p s) = boot_kstack s"
    "reap_jmp_active (syscall_on_thread_switch p s) = reap_jmp_active s" for v s
    by (simp_all add: sched_load_cr3_def syscall_on_thread_switch_def)
  show "pcbs s1 = (pcbs s)(p := (pcbs s p)\<lparr>sched_class := SCHED_RT, priority := 0, pstate := PROC_RUN\<rparr>)"
    "reap_waiter s1 = sched_current s" "reap_jmp_active s1" "g_current s1 this_cpu_id = Some p"
    "proc_count s1 = proc_count s" "boot_kstack s1 = boot_kstack s" "reap_jmp s1 = Some (p, cls, pri)"
    by (simp_all add: s1 q sv Let_def e spin_unlock_def)
qed

lemma destroy_map_heap:
  assumes "destroy_map m s = Some s'"
  shows "\<exists>h. s' = s\<lparr>heap := h\<rparr>"
proof (cases m)
  case None
  then show ?thesis using assms by (intro exI [of _ "heap s"]) (simp add: destroy_map_def)
next
  case (Some v)
  then show ?thesis using assms by (auto simp: destroy_map_def split: option.splits)
qed

lemma exit_to_reaper_spec:
  assumes "exit_to_reaper code p w s = Some s'"
  shows "\<exists>ks kt. pcbs s' = (pcbs s)(p := (pcbs s p)\<lparr>exit_code := code, pstate := PROC_DEAD, va_map := None, kstack := ks, kstack_top := kt\<rparr>) \<and>
    (ks = 0 \<or> ks = boot_kstack s \<or> pid (pcbs s p) = 0)"
    "g_current s' = g_current s" "proc_count s' = proc_count s - 1" "boot_kstack s' = boot_kstack s"
    "reap_jmp s' = reap_jmp s"
proof -
  let ?m = "mark_dead code p s"
  let ?l = "sched_load_cr3 (ctx_cr3 (regs (pcbs ?m w))) ?m"
  obtain t1 t2 where t1: "destroy_map (va_map (pcbs s p)) ?l = Some t1" and t2: "free_kstack p t1 = Some t2"
    and s': "s' = t2\<lparr>reap_jmp_active := False\<rparr>"
    using assms by (auto simp: exit_to_reaper_def Let_def split: option.splits)
  obtain h1 where h1: "t1 = ?l\<lparr>heap := h1\<rparr>" using destroy_map_heap [OF t1] by blast
  obtain h ks kt where f: "t2 = t1\<lparr>heap := h, pcbs := (pcbs t1)(p := (pcbs t1 p)\<lparr>kstack := ks, kstack_top := kt\<rparr>)\<rparr>"
    "ks = 0 \<or> ks = boot_kstack t1 \<or> pid (pcbs t1 p) = 0"
    using free_kstack_spec [OF t2] by blast
  have l: "proc_count (sched_load_cr3 v s) = proc_count s" "boot_kstack (sched_load_cr3 v s) = boot_kstack s"
      "reap_jmp (sched_load_cr3 v s) = reap_jmp s" for v s
    by (simp_all add: sched_load_cr3_def)
  show "\<exists>ks kt. pcbs s' = (pcbs s)(p := (pcbs s p)\<lparr>exit_code := code, pstate := PROC_DEAD, va_map := None, kstack := ks, kstack_top := kt\<rparr>) \<and>
    (ks = 0 \<or> ks = boot_kstack s \<or> pid (pcbs s p) = 0)"
    using f(2) by (intro exI [of _ ks] exI [of _ kt]) (simp add: s' f(1) h1 l mark_dead_def)
  show "g_current s' = g_current s" "proc_count s' = proc_count s - 1" "boot_kstack s' = boot_kstack s" "reap_jmp s' = reap_jmp s"
    by (simp_all add: s' f(1) h1 l mark_dead_def)
qed

lemma reap_end_spec:
  assumes "pstate (pcbs s p) = PROC_DEAD" "kstack (pcbs s p) = 0 \<or> kstack (pcbs s p) = boot_kstack s \<or> pid (pcbs s p) = 0"
  shows "reap_end p cls pri s = Some ((exit_code (pcbs s p), cpu_ns (pcbs s p), 0),
    s\<lparr>reap_jmp_active := False, reap_waiter := None,
      pcbs := (pcbs s)(p := (pcbs s p)\<lparr>sched_class := cls, priority := pri, pid := 0, pstate := PROC_DEAD\<rparr>)\<rparr>)"
proof -
  let ?t = "(upd_pcb p (\<lambda>c. c\<lparr>sched_class := cls, priority := pri\<rparr>) s)\<lparr>reap_jmp_active := False, reap_waiter := None\<rparr>"
  have "free_kstack p ?t = Some ?t" using assms(2) by (intro free_kstack_again) simp
  then show ?thesis using assms(1) by (simp add: reap_end_def Let_def upd_pcb_def)
qed

text \<open>
  What a child that is being waited for may do: it is interrupted by the timer, creates, prepares,
  queues and wakes other processes, and sets classes and priorities. Two things are left out,
  reaping and yielding.
\<close>

inductive child_step :: "pref \<Rightarrow> sched \<Rightarrow> sched \<Rightarrow> bool" for p where
  tick: "sched_tick now now_ns s = Some s' \<Longrightarrow> child_step p s s'"
| spawn: "sched_spawn a s = Some (m, s') \<Longrightarrow> child_step p s s'"
| prepare: "r \<noteq> p \<Longrightarrow> child_step p s (upd_pcb r f s)"
| enqueue: "r \<noteq> p \<Longrightarrow> sched_enqueue r s = Some s' \<Longrightarrow> child_step p s s'"
| wake: "r \<noteq> p \<Longrightarrow> sched_wake now r s = Some s' \<Longrightarrow> child_step p s s'"
| set: "sched_set m c q s = (rc, s') \<Longrightarrow> child_step p s s'"

definition waited_for :: "u32 \<Rightarrow> pref \<Rightarrow> pref \<Rightarrow> nat \<Rightarrow> int \<Rightarrow> sched \<Rightarrow> bool" where
  "waited_for n p w cls pri s \<longleftrightarrow> g_current s this_cpu_id = Some p \<and> reap_waiter s = Some w \<and> reap_jmp_active s \<and>
     reap_jmp s = Some (p, cls, pri) \<and> n \<noteq> 0 \<and> p = slot_of n \<and> pid (pcbs s p) = n \<and> pstate (pcbs s p) = PROC_RUN"

lemma waited_for_cong:
  assumes "waited_for n p w cls pri s" and "g_current s' = g_current s" and "reap_waiter s' = reap_waiter s"
    and "reap_jmp_active s' = reap_jmp_active s" and "reap_jmp s' = reap_jmp s"
    and "pid (pcbs s' p) = pid (pcbs s p)" and "pstate (pcbs s' p) = pstate (pcbs s p)"
  shows "waited_for n p w cls pri s'"
  using assms by (auto simp: waited_for_def)

lemma spawn_reap_fields:
  assumes "sched_spawn a s = Some (m, s')"
  shows "g_current s' = g_current s \<and> reap_waiter s' = reap_waiter s \<and> reap_jmp_active s' = reap_jmp_active s \<and> reap_jmp s' = reap_jmp s"
proof -
  have k: "g_current s' = g_current s \<and> reap_waiter s' = reap_waiter s \<and> reap_jmp_active s' = reap_jmp_active s \<and> reap_jmp s' = reap_jmp s"
    if "sched_kstack_alloc q s = Some (rc, s')" for q s rc s'
    using that by (auto simp: sched_kstack_alloc_def split: if_splits option.splits prod.splits)
  have f: "g_current (spawn_finish a n s) = g_current s \<and> reap_waiter (spawn_finish a n s) = reap_waiter s \<and>
      reap_jmp_active (spawn_finish a n s) = reap_jmp_active s \<and> reap_jmp (spawn_finish a n s) = reap_jmp s" for n s
    by (auto simp: spawn_finish_def spawn_map_def split: option.splits prod.splits)
  show ?thesis using assms
    by (auto simp: sched_spawn_def spawn_at_def Let_def f dest!: k split: if_splits option.splits prod.splits)
qed

lemma spawn_keeps:
  assumes "sched_spawn a s = Some (m, s')" and "pid (pcbs s p) = n" "n \<noteq> 0" "p = slot_of n" "pstate (pcbs s p) = PROC_RUN"
  shows "pcbs s' p = pcbs s p"
proof -
  consider "s' = s" | k where "scan_pid s (next_pid s) (next_pid s) = Some k" "spawn_at a k s = Some (m, s')"
    using assms(1) by (auto simp: sched_spawn_def split: if_splits option.splits)
  then show ?thesis
  proof cases
    case 2
    have "slot_free s k" using scan_pid_free [OF 2(1)] .
    then have "slot_of k \<noteq> p" using assms(2-5) by (auto simp: slot_free_def)
    then show ?thesis using spawn_at_frame [OF 2(2)] by auto
  qed simp
qed

lemma child_step_waited:
  assumes "child_step p s s'" and w: "waited_for n p w cls pri s"
  shows "waited_for n p w cls pri s'"
  using assms(1)
proof cases
  case (tick now now_ns)
  have "s' = s" using tick w by (auto simp: sched_tick_def waited_for_def Let_def split: if_splits option.splits)
  then show ?thesis using w by simp
next
  case (spawn a m)
  have "pcbs s' p = pcbs s p" using spawn_keeps [OF spawn] w by (auto simp: waited_for_def)
  then show ?thesis using waited_for_cong [OF w] spawn_reap_fields [OF spawn] by simp
next
  case (prepare r f)
  then show ?thesis using waited_for_cong [OF w] by simp
next
  case (enqueue r)
  then show ?thesis using waited_for_cong [OF w] by (simp add: enqueue_Some Let_def)
next
  case (wake now r)
  then show ?thesis
    using waited_for_cong [OF w]
    by (auto simp: sched_wake_def enqueue_Some Let_def split: if_splits)
next
  case (set m c q rc)
  then show ?thesis using waited_for_cong [OF w] by (auto simp: sched_set_def split: option.splits)
qed

lemma reap_begin_waited:
  assumes "reap_begin n s = Some (Some (True, p, cls, pri), s1)" and "sched_current s = Some w"
  shows "waited_for n p w cls pri s1"
proof -
  note b = reap_begin_spec [OF assms(1)]
  have "p = slot_of n" "n \<noteq> 0" "pid (pcbs s p) = n" using b(1) by (auto simp: sched_find_def split: if_splits)
  then show ?thesis using b(2-5,8) assms(2) by (simp add: waited_for_def)
qed

lemma exit_waited:
  assumes w: "waited_for n p w cls pri s1" and e: "sched_exit code s1 = Some (j, s2)"
  shows "j \<and> reap_jmp s2 = Some (p, cls, pri) \<and> (\<exists>s3. reap_end p cls pri s2 = Some ((code, cpu_ns (pcbs s1 p), 0), s3) \<and>
    sched_find n s3 = None \<and> reap_waiter s3 = None \<and> \<not> reap_jmp_active s3 \<and> proc_count s3 = proc_count s1 - 1 \<and>
    sched_current s3 = Some p \<and> pid (pcbs s3 p) = 0)"
proof -
  have x: "j" "exit_to_reaper code p w s1 = Some s2" using e w by (auto simp: sched_exit_def waited_for_def)
  note x1 = exit_to_reaper_spec [OF x(2)]
  obtain ks kt where k: "pcbs s2 = (pcbs s1)(p := (pcbs s1 p)\<lparr>exit_code := code, pstate := PROC_DEAD, va_map := None, kstack := ks, kstack_top := kt\<rparr>)"
    "ks = 0 \<or> ks = boot_kstack s1 \<or> pid (pcbs s1 p) = 0" using x1(1) by blast
  have "reap_end p cls pri s2 = Some ((exit_code (pcbs s2 p), cpu_ns (pcbs s2 p), 0),
    s2\<lparr>reap_jmp_active := False, reap_waiter := None,
      pcbs := (pcbs s2)(p := (pcbs s2 p)\<lparr>sched_class := cls, priority := pri, pid := 0, pstate := PROC_DEAD\<rparr>)\<rparr>)"
    by (rule reap_end_spec) (use k x1(4) in auto)
  then show ?thesis using x(1) x1 k w by (auto simp: sched_find_def sched_current_def waited_for_def)
qed

text \<open>A child that reaps a process of its own takes the jump away from its parent.\<close>

lemma reap_end_clears:
  assumes "reap_end p cls pri s = Some (r, s')"
  shows "\<not> reap_jmp_active s' \<and> reap_waiter s' = None"
proof -
  have k: "reap_jmp_active t' = reap_jmp_active t \<and> reap_waiter t' = reap_waiter t" if "free_kstack q t = Some t'" for q t t'
    using free_kstack_spec [OF that] by auto
  show ?thesis using assms by (auto simp: reap_end_def Let_def dest!: k split: option.splits if_splits)
qed

lemma exit_after_reap:
  assumes "reap_end p cls pri s = Some (r, s')" and "sched_exit code s' = Some (j, s'')"
  shows "\<not> j"
  using reap_end_clears [OF assms(1)] assms(2) by (auto simp: sched_exit_def split: option.splits)

section \<open>Properties\<close>


definition demo_pcb :: pcb where
  "demo_pcb = zero_pcb\<lparr>pid := 5, sched_class := SCHED_BATCH, regs := zero_context\<lparr>rip := 0x400000\<rparr>\<rparr>"


text \<open>
  C10. No ready process starves behind the others. Choosing \<open>n\<close> times from a run queue yields its
  first \<open>n\<close> processes: the real-time ones by priority, then the interactive ones, then the batch
  ones, each once; after that, the idle process.
\<close>

theorem dequeue_serves_all:
  assumes "rq_ok p q"
  shows "fst (dequeues n q) = map Some (take n (ready q)) @ replicate (n - length (ready q)) (idle_pcb q) \<and>
    ready (snd (dequeues n q)) = drop n (ready q)"
  using dequeues_spec [OF assms, of n] by blast

definition two_rq :: runq where
  "two_rq = rq_insert (\<lambda>_. 5) SCHED_BATCH (Proc 7) (rq_insert (\<lambda>_. 5) SCHED_BATCH (Proc 3) (rq_insert (\<lambda>_. 5) SCHED_INTR (Proc 9)
     (blank_rq\<lparr>idle_pcb := Some (Idle 0)\<rparr>)))"

theorem dequeue_serves_all_witness:
  "fst (dequeues 4 two_rq) = [Some (Proc 9), Some (Proc 3), Some (Proc 7), Some (Idle 0)]"
proof -
  have r: "ready two_rq = [Proc 9, Proc 3, Proc 7]" "idle_pcb two_rq = Some (Idle 0)"
    by (simp_all add: two_rq_def ready_def rq_insert_def classes blank_rq_def rb_insert_def)
  have "rq_ok (\<lambda>_. 5) two_rq"
    by (simp add: two_rq_def rq_ok_iff rq_insert_def classes blank_rq_def rb_insert_def tree_wf_def)
  from dequeue_serves_all [OF this, of 4] show ?thesis by (simp add: r)
qed

text \<open>
  C40. Yielding deadlocks. On a machine with one CPU a process that gives up the processor never gets
  anywhere: the lock of the run queue is held when the process is put back, and putting it back
  takes that lock. The same happens at the end of a time slice.
\<close>

theorem yield_deadlocks:
  assumes i: "sched_inv s" and one: "cpu_count s = 1" and cur: "g_current s 0 = Some p" "p \<noteq> Idle 0"
  shows "sched_yield now s = None \<and>
    (p \<noteq> Boot \<and> pstate (pcbs s p) = PROC_RUN \<and> deadline_ns (pcbs s p) \<le> now_ns \<longrightarrow> sched_tick now now_ns s = None)"
proof -
  have id: "idle_pcb (runqs s 0) = Some (Idle 0)" and w: "reap_waiter s = None"
    using i by (simp_all add: sched_inv_def queues_inv_def rq_inv_def)
  have pk: "pick_cpu p t = 0" if "cpu_count t = 1" for t using pick_cpu_bound [of t p] that by simp
  have rq: "requeue_and_pick 0 (Some p) t = None" if "cpu_count t = 1" for t
    using that pk [of "upd_rq 0 (\<lambda>q. q\<lparr>rlock := True\<rparr>) t"]
    by (simp add: requeue_and_pick_def spin_lock_def sched_enqueue_def Let_def)
  have "sched_yield now s = None" using rq [OF one] id w cur by (simp add: sched_yield_def this_cpu_id_def Let_def)
  moreover have "sched_tick now now_ns s = None"
    if "p \<noteq> Boot" "pstate (pcbs s p) = PROC_RUN" "deadline_ns (pcbs s p) \<le> now_ns"
    using rq id w cur one that by (simp add: sched_tick_def this_cpu_id_def Let_def)
  ultimately show ?thesis by blast
qed

theorem yield_deadlocks_witness:
  "\<exists>s1. sched_init 0x1000 1 blank_sched = Some s1 \<and> sched_yield 0 (sched_bootstrap_init_thread s1) = None"
proof -
  have h: "0 < (1 :: nat)" "(0x1000 :: u64) \<noteq> 0" "reap_waiter blank_sched = None" by (simp_all add: blank_sched_def)
  obtain s1 where s1: "sched_init 0x1000 1 blank_sched = Some s1" "sched_inv (sched_bootstrap_init_thread s1)"
    using boot_inv [OF h] by blast
  have c: "cpu_count (sched_bootstrap_init_thread s1) = 1" "g_current (sched_bootstrap_init_thread s1) 0 = Some Boot"
    using sched_init_count [OF s1(1)] by (simp_all add: sched_bootstrap_init_thread_def Let_def MAX_CPUS_def)
  have "Boot \<noteq> Idle 0" by simp
  from yield_deadlocks [OF s1(2) c this, of 0] s1(1) show ?thesis by blast
qed


definition child_sched :: sched where
  "child_sched = blank_sched\<lparr>proc_count := 1, g_current := (\<lambda>_. Some Boot),
     pcbs := (\<lambda>_. zero_pcb)(Proc 5 := zero_pcb\<lparr>pid := 5, pstate := PROC_READY, sched_class := SCHED_BATCH,
       regs := zero_context\<lparr>rip := 0x400000\<rparr>\<rparr>)\<rparr>"


text \<open>
  C26. Creating a process. A non-zero result names a slot that was free; only that slot and the number
  of processes change, and the slot holds a new process with the requested class and priority
  and a kernel stack. The process can be found under its number only if that is below 4096.
\<close>

theorem spawn_correct:
  assumes "sched_spawn a s = Some (n, s')" and "n \<noteq> 0"
  shows "slot_free s n \<and> (\<forall>r. r \<noteq> slot_of n \<longrightarrow> pcbs s' r = pcbs s r) \<and> runqs s' = runqs s \<and>
    proc_count s' = proc_count s + 1 \<and>
    (let c = pcbs s' (slot_of n) in pid c = n \<and> pstate c = PROC_NEW \<and> sched_class c = sa_class a \<and>
       priority c = to_i16 (sa_priority a) \<and> base_pri c = to_i16 (sa_priority a) \<and> kstack c \<noteq> 0) \<and>
    sched_find n s' = (if unat n < MAX_PROCS then Some (slot_of n) else None)"
  using spawn_spec [OF assms] assms(2) by (auto simp: sched_find_def Let_def)

definition stack_heap :: kheap where
  "stack_heap = tiny_heap\<lparr>mm := blank_amm\<lparr>phys := (phys blank_amm)\<lparr>lists := (\<lambda>_. [])(4 := [0x100000]), free_pages := 16\<rparr>\<rparr>\<rparr>"

definition full_sched :: sched where
  "full_sched = blank_sched\<lparr>heap := stack_heap, next_pid := 4095,
     pcbs := (\<lambda>_. zero_pcb)(Proc 4095 := zero_pcb\<lparr>pid := 4095, pstate := PROC_READY\<rparr>)\<rparr>"

definition shell_args :: spawn_args where
  "shell_args = \<lparr>sa_binary = ''/bin/sh'', sa_class = SCHED_BATCH, sa_priority = 3, sa_affinity = 0xFF,
     sa_va_map = Some \<lparr>regions = [], cr3 = 0, region_count = 0\<rparr>\<rparr>"

lemma stack_alloc: "\<exists>h. kmalloc SCHED_KSTACK_SIZE stack_heap = Some (0x100000, h)"
proof -
  have "large_order SCHED_KSTACK_SIZE 4 = Some 4"
    by (subst large_order.simps) (simp add: SCHED_KSTACK_SIZE_def PAGE_SIZE_def)
  then have "large_order SCHED_KSTACK_SIZE 3 = Some 4"
    by (subst large_order.simps) (simp add: SCHED_KSTACK_SIZE_def PAGE_SIZE_def)
  then have "large_order SCHED_KSTACK_SIZE 2 = Some 4"
    by (subst large_order.simps) (simp add: SCHED_KSTACK_SIZE_def PAGE_SIZE_def)
  then have "large_order SCHED_KSTACK_SIZE 1 = Some 4"
    by (subst large_order.simps) (simp add: SCHED_KSTACK_SIZE_def PAGE_SIZE_def numeral_2_eq_2 [symmetric])
  then have o: "large_order SCHED_KSTACK_SIZE 0 = Some 4"
    by (subst large_order.simps) (simp add: SCHED_KSTACK_SIZE_def PAGE_SIZE_def)
  have c: "slab_class (unat SCHED_KSTACK_SIZE) = None"
    by (simp add: SCHED_KSTACK_SIZE_def slab_class_def slab_sizes_def)
  obtain m where "amm_phys_alloc 4 (mm stack_heap) = (0x100000, m)"
    by (simp add: stack_heap_def blank_amm_def amm_phys_alloc_def alloc_loop.simps MAX_ORDER_def)
  then show ?thesis using o c by (simp add: kmalloc_def) (simp add: SCHED_KSTACK_SIZE_def)
qed

theorem spawn_correct_witness:
  "\<exists>s'. sched_spawn shell_args full_sched = Some (4096, s') \<and> sched_find 4096 s' = None \<and> pid (pcbs s' (Proc 0)) = 4096"
proof -
  have f: "\<not> slot_free full_sched 4095" "slot_free full_sched 4096"
    by (simp_all add: slot_free_def slot_of_def MAX_PROCS_def full_sched_def zero_pcb_def)
  have s: "scan_pid full_sched 4095 4095 = Some 4096"
    by (subst scan_pid.simps, simp add: f)  (subst scan_pid.simps, simp add: f)
  obtain h where h: "kmalloc SCHED_KSTACK_SIZE stack_heap = Some (0x100000, h)" using stack_alloc by blast
  have n: "next_pid full_sched = 4095" "proc_count full_sched = 0" "heap full_sched = stack_heap"
    by (simp_all add: full_sched_def blank_sched_def)
  have sl: "slot_of 4096 = Proc 0" by (simp add: slot_of_def MAX_PROCS_def)
  obtain s' where s': "sched_spawn shell_args full_sched = Some (4096, s')"
    by (simp add: sched_spawn_def n s MAX_PROCS_def spawn_at_def Let_def sched_kstack_alloc_def new_pcb_def zero_pcb_def h)
  from spawn_correct [OF s'] s' sl show ?thesis by (simp add: Let_def MAX_PROCS_def)
qed

end
