(* ===== verification/SvcMgr.thy ===== *)
theory SvcMgr imports Sched begin

text \<open>
  The service manager, \<open>src/init/svcmgr.c\<close>: the parser of service files, the waves in which services
  start, launching, restarting and stopping. Starting a program is a parameter, as is the test
  that its file exists; they act on a state \<open>'w\<close> of the rest of the system. The messages on the
  console are left out, and so is the wait of one second at the end of \<open>svcmgr_stop_all\<close>. A parse
  is \<open>None\<close> where a value fills its array without leaving room for the final zero.
\<close>

section \<open>Services\<close>

definition MAX_SERVICES :: nat where "MAX_SERVICES = 64"
definition SVC_NAME_LEN :: nat where "SVC_NAME_LEN = 64"
definition SVC_PATH_LEN :: nat where "SVC_PATH_LEN = 256"
definition SVC_ARGS_LEN :: nat where "SVC_ARGS_LEN = 1024"
definition MAX_DEPS :: nat where "MAX_DEPS = 16"
definition MAX_ENV_VARS :: nat where "MAX_ENV_VARS = 32"
definition ENV_NAME_LEN :: nat where "ENV_NAME_LEN = 64"
definition ENV_VALUE_LEN :: nat where "ENV_VALUE_LEN = 256"

datatype svc_state = SVC_NEW | SVC_STARTING | SVC_RUNNING | SVC_EXITED | SVC_RESTARTING | SVC_FAILED
datatype svc_restart = RESTART_NEVER | RESTART_ALWAYS | RESTART_ON_FAIL
datatype svc_log = LOG_RING | LOG_FILE | LOG_NONE

record service =
  sv_name :: string
  sv_binary :: string
  sv_args :: string
  sv_deps :: "string list"
  sv_restart :: svc_restart
  sv_log :: svc_log
  sv_state :: svc_state
  sv_pid :: u32
  sv_exit_code :: int
  sv_env :: "(string \<times> string) list"
  sv_user :: string
  sv_group :: string

definition svc_find :: "service list \<Rightarrow> string \<Rightarrow> nat option" where
  "svc_find svcs nm = find_index (\<lambda>v. sv_name v = nm) svcs"

definition svc_deps_ready :: "service list \<Rightarrow> service \<Rightarrow> bool" where
  "svc_deps_ready svcs v \<longleftrightarrow>
     list_all (\<lambda>d. d = ''kernel'' \<or> (case svc_find svcs d of None \<Rightarrow> True | Some i \<Rightarrow> sv_state (svcs ! i) = SVC_RUNNING)) (sv_deps v)"

section \<open>Service files\<close>

definition i_isspace :: "char \<Rightarrow> bool" where
  "i_isspace c \<longleftrightarrow> c = CHR '' '' \<or> c = CHR 0x09 \<or> c = CHR 0x0A \<or> c = CHR 0x0D"

definition svc_skip_ws :: "string \<Rightarrow> string" where
  "svc_skip_ws p = dropWhile i_isspace p"

definition skip_line :: "string \<Rightarrow> string" where
  "skip_line p = drop 1 (dropWhile (\<lambda>c. c \<noteq> CHR 0x0A) p)"

definition read_word :: "nat \<Rightarrow> string \<Rightarrow> string \<times> string" where
  "read_word out_sz p =
     (let p = svc_skip_ws p; w = take (out_sz - 1) (takeWhile (\<lambda>c. \<not> i_isspace c \<and> c \<noteq> CHR '':'') p) in
      (w, drop (length w) p))"

definition trim_end :: "string \<Rightarrow> string" where
  "trim_end s = rev (dropWhile i_isspace (rev s))"

definition read_line_value :: "nat \<Rightarrow> string \<Rightarrow> string \<times> string" where
  "read_line_value out_sz p =
     (let p = svc_skip_ws p;
          p = (if p \<noteq> [] \<and> hd p = CHR '':'' then svc_skip_ws (tl p) else p);
          v = take (out_sz - 1) (takeWhile (\<lambda>c. c \<noteq> CHR 0x0A) p) in
      (trim_end v, skip_line (drop (length v) p)))"

text \<open>The words of a value, each cut to its buffer; the rest of a longer word is the next word.\<close>

function words_of :: "nat \<Rightarrow> string \<Rightarrow> string list" where
  "words_of sz vp =
     (let vp = svc_skip_ws vp in
      if vp = [] \<or> sz \<le> 1 then []
      else
        let w = take (sz - 1) (takeWhile (\<lambda>c. \<not> i_isspace c) vp) in
        w # words_of sz (drop (length w) vp))"
  by auto

lemma skip_ws_shorter: "length (svc_skip_ws p) \<le> length p"
  by (simp add: svc_skip_ws_def length_dropWhile_le)

lemma skip_ws_head: "svc_skip_ws p \<noteq> [] \<Longrightarrow> \<not> i_isspace (hd (svc_skip_ws p))"
  unfolding svc_skip_ws_def by (rule hd_dropWhile)

termination words_of
proof (relation "measure (\<lambda>(sz, p). length p)", simp, clarsimp)
  fix sz p
  assume n: "svc_skip_ws p \<noteq> []" and s: "\<not> sz \<le> Suc 0"
  then obtain c q where q: "svc_skip_ws p = c # q" "\<not> i_isspace c" using skip_ws_head [OF n] by (cases "svc_skip_ws p") auto
  then have "0 < length (takeWhile (\<lambda>c. \<not> i_isspace c) (svc_skip_ws p))" by simp
  then show "length (svc_skip_ws p) - min (length (takeWhile (\<lambda>c. \<not> i_isspace c) (svc_skip_ws p))) (sz - Suc 0) < length p"
    using skip_ws_shorter [of p] s q by (auto simp: min_def)
qed

declare words_of.simps [simp del]

text \<open>The pair of an environment word, split at its first equals sign.\<close>

definition env_pair :: "string \<Rightarrow> (string \<times> string) option" where
  "env_pair kv =
     (if CHR ''='' \<in> set kv
      then Some (takeWhile (\<lambda>c. c \<noteq> CHR ''='') kv, tl (dropWhile (\<lambda>c. c \<noteq> CHR ''='') kv)) else None)"

text \<open>Adding the environment words up to the limit; \<open>None\<close> if a key or value fills its array.\<close>

fun add_env :: "string list \<Rightarrow> service \<Rightarrow> service option" where
  "add_env [] v = Some v"
| "add_env (kv # kvs) v =
     (if \<not> length (sv_env v) < MAX_ENV_VARS then Some v
      else (case env_pair kv of None \<Rightarrow> add_env kvs v
        | Some (k, x) \<Rightarrow>
            if length k \<ge> ENV_NAME_LEN \<or> length x \<ge> ENV_VALUE_LEN then None
            else add_env kvs (v\<lparr>sv_env := sv_env v @ [(k, x)]\<rparr>)))"

definition fits :: "nat \<Rightarrow> string \<Rightarrow> 'a \<Rightarrow> 'a option" where
  "fits n s r = (if length s < n then Some r else None)"

definition apply_field :: "string \<Rightarrow> string \<Rightarrow> service \<Rightarrow> service option" where
  "apply_field fld val v =
     (if fld = ''needs'' then
        Some (v\<lparr>sv_deps := sv_deps v @ take (MAX_DEPS - length (sv_deps v)) (words_of SVC_NAME_LEN val)\<rparr>)
      else if fld = ''binary'' then fits SVC_PATH_LEN val (v\<lparr>sv_binary := val\<rparr>)
      else if fld = ''args'' then fits SVC_ARGS_LEN val (v\<lparr>sv_args := val\<rparr>)
      else if fld = ''restart'' then
        Some (if val = ''always'' then v\<lparr>sv_restart := RESTART_ALWAYS\<rparr>
              else if val = ''on-fail'' then v\<lparr>sv_restart := RESTART_ON_FAIL\<rparr> else v)
      else if fld = ''log'' then
        Some (if val = ''file'' then v\<lparr>sv_log := LOG_FILE\<rparr> else if val = ''none'' then v\<lparr>sv_log := LOG_NONE\<rparr> else v)
      else if fld = ''user'' then fits 32 val (v\<lparr>sv_user := val\<rparr>)
      else if fld = ''group'' then fits 32 val (v\<lparr>sv_group := val\<rparr>)
      else if fld = ''env'' then add_env (words_of (ENV_NAME_LEN + ENV_VALUE_LEN + 1) val) v
      else Some v)"

lemma skip_line_shorter: "length (skip_line p) \<le> length p"
  using length_dropWhile_le [of "\<lambda>c. c \<noteq> CHR 0x0A" p] by (simp add: skip_line_def)

lemma skip_line_less: "p \<noteq> [] \<Longrightarrow> length (skip_line p) < length p"
  using length_dropWhile_le [of "\<lambda>c. c \<noteq> CHR 0x0A" p] by (cases p) (auto simp: skip_line_def)

lemma read_word_shorter: "length (snd (read_word n p)) \<le> length p"
  using skip_ws_shorter [of p] by (simp add: read_word_def Let_def)

lemma read_line_value_shorter: "length (snd (read_line_value n p)) \<le> length p"
proof -
  let ?p = "svc_skip_ws p"
  let ?q = "if ?p \<noteq> [] \<and> hd ?p = CHR '':'' then svc_skip_ws (tl ?p) else ?p"
  have "length ?q \<le> length p" using skip_ws_shorter [of p] skip_ws_shorter [of "tl ?p"] by auto
  then show ?thesis unfolding read_line_value_def Let_def
    using skip_line_shorter [of "drop (length (take (n - 1) (takeWhile (\<lambda>c. c \<noteq> CHR 0x0A) ?q))) ?q"] by simp
qed

text \<open>The fields of a service up to \<open>end\<close> or the end of the file.\<close>

function parse_fields :: "string \<Rightarrow> service \<Rightarrow> service option" where
  "parse_fields p v =
     (let p = svc_skip_ws p in
      if p = [] then Some v
      else if hd p = CHR ''#'' then parse_fields (skip_line p) v
      else
        let (fld, q) = read_word 64 p in
        if fld = ''end'' then Some v
        else
          let (val, r) = read_line_value 512 q in
          (case apply_field fld val v of None \<Rightarrow> None | Some v \<Rightarrow> parse_fields r v))"
  by auto

lemma skip_ws_id: "p = [] \<or> \<not> i_isspace (hd p) \<Longrightarrow> svc_skip_ws p = p"
  by (cases p) (auto simp: svc_skip_ws_def)

lemma read_line_value_less:
  assumes "p \<noteq> []" "\<not> i_isspace (hd p)" "1 < n"
  shows "length (snd (read_line_value n p)) < length p"
proof -
  obtain c q where p: "p = c # q" "\<not> i_isspace c" using assms by (cases p) auto
  have s: "svc_skip_ws p = p" using assms by (intro skip_ws_id) simp
  show ?thesis
  proof (cases "c = CHR '':''")
    case True
    let ?q = "svc_skip_ws q"
    let ?v = "take (n - 1) (takeWhile (\<lambda>c. c \<noteq> CHR 0x0A) ?q)"
    have "snd (read_line_value n p) = skip_line (drop (length ?v) ?q)"
      unfolding read_line_value_def Let_def s by (simp add: p True)
    then show ?thesis using skip_line_shorter [of "drop (length ?v) ?q"] skip_ws_shorter [of q] by (simp add: p)
  next
    case False
    let ?v = "take (n - 1) (takeWhile (\<lambda>c. c \<noteq> CHR 0x0A) p)"
    have "c \<noteq> CHR 0x0A" using p(2) by (auto simp: i_isspace_def)
    then have v: "0 < length ?v" using assms(3) by (simp add: p)
    have "snd (read_line_value n p) = skip_line (drop (length ?v) p)"
      unfolding read_line_value_def Let_def s by (simp add: p False)
    then have "length (snd (read_line_value n p)) \<le> length p - length ?v" using skip_line_shorter [of "drop (length ?v) p"] by simp
    moreover have "0 < length p" by (simp add: p)
    ultimately show ?thesis using v by linarith
  qed
qed

lemma field_progress:
  assumes "svc_skip_ws p \<noteq> []" "read_word 64 (svc_skip_ws p) = (fld, q)" "read_line_value 512 q = (val, r)"
  shows "length r < length p"
proof -
  let ?p = "svc_skip_ws p"
  have h: "\<not> i_isspace (hd ?p)" by (rule skip_ws_head [OF assms(1)])
  have s: "svc_skip_ws ?p = ?p" using h by (intro skip_ws_id) simp
  have q: "q = drop (length fld) ?p" using assms(2) unfolding read_word_def Let_def s by auto
  have "length r < length ?p"
  proof (cases "fld = []")
    case True
    then show ?thesis using read_line_value_less [OF assms(1) h, of 512] assms(3) q by simp
  next
    case False
    then have "0 < length fld" "0 < length ?p" using assms(1) by simp_all
    moreover have "length r \<le> length ?p - length fld" using read_line_value_shorter [of 512 q] assms(3) by (simp add: q)
    ultimately show ?thesis by linarith
  qed
  then show ?thesis using skip_ws_shorter [of p] by simp
qed

termination parse_fields
proof (relation "measure (\<lambda>(p, v). length p)", simp, goal_cases)
  case (1 p v x)
  then show ?case using skip_line_less [of "svc_skip_ws p"] skip_ws_shorter [of p] by simp
next
  case (2 p v x xa fld q xb val r v')
  then show ?case using field_progress [of p fld q val r] by simp
qed

declare parse_fields.simps [simp del]

definition new_service :: "string \<Rightarrow> service" where
  "new_service nm = \<lparr>sv_name = nm, sv_binary = [], sv_args = [], sv_deps = [], sv_restart = RESTART_NEVER, sv_log = LOG_RING,
     sv_state = SVC_NEW, sv_pid = 0, sv_exit_code = 0, sv_env = [], sv_user = [], sv_group = []\<rparr>"

text \<open>Inside, \<open>None\<close> is the result -1 of a file that is no service.\<close>

definition parse_svc_file :: "string \<Rightarrow> service option option" where
  "parse_svc_file content =
     (let (kw, p) = read_word 64 content in
      if kw \<noteq> ''service'' then Some None
      else
        let (nm, p) = read_word SVC_NAME_LEN p in
        if nm = [] then Some None
        else (case parse_fields (skip_line p) (new_service nm) of None \<Rightarrow> None
          | Some v \<Rightarrow> Some (if sv_binary v = [] then None else Some v)))"

definition svc_text :: "string list \<Rightarrow> string" where
  "svc_text ls = concat (map (\<lambda>l. l @ [CHR 0x0A]) ls)"

definition builtin_svcs :: "string list" where
  "builtin_svcs =
     [svc_text [''service syslog'', ''  needs:   kernel'', ''  binary:  /sbin/asdlog'', ''  restart: on-fail'', ''  log:     ring'', ''end''],
      svc_text [''service netd'', ''  needs:   syslog'', ''  binary:  /sbin/netd'', ''  restart: always'', ''  log:     ring'', ''end'']]"

fun load_services :: "string list \<Rightarrow> service list \<Rightarrow> service list option" where
  "load_services [] svcs = Some svcs"
| "load_services (c # cs) svcs =
     (if \<not> length svcs < MAX_SERVICES then Some svcs
      else (case parse_svc_file c of None \<Rightarrow> None
        | Some None \<Rightarrow> load_services cs svcs
        | Some (Some v) \<Rightarrow> load_services cs (svcs @ [v])))"

section \<open>Waves\<close>

text \<open>The scan over the dependencies: \<open>None\<close> if one has no wave yet, else the highest wave among them.\<close>

fun dep_scan :: "service list \<Rightarrow> int list \<Rightarrow> string list \<Rightarrow> int \<Rightarrow> int option" where
  "dep_scan svcs wv [] max_dep = Some max_dep"
| "dep_scan svcs wv (d # ds) max_dep =
     (if d = ''kernel'' then dep_scan svcs wv ds max_dep
      else (case svc_find svcs d of None \<Rightarrow> dep_scan svcs wv ds max_dep
        | Some di \<Rightarrow>
            if wv ! di < 0 then None
            else dep_scan svcs wv ds (if wv ! di > max_dep then wv ! di else max_dep)))"

definition to_int8 :: "int \<Rightarrow> int" where "to_int8 x = signed_take_bit 7 x"

definition wave_step :: "service list \<Rightarrow> nat \<Rightarrow> int list \<times> bool \<times> int \<Rightarrow> int list \<times> bool \<times> int" where
  "wave_step svcs i = (\<lambda>(wv, changed, max_wave).
     if wv ! i \<ge> 0 then (wv, changed, max_wave)
     else (case dep_scan svcs wv (sv_deps (svcs ! i)) (-1) of None \<Rightarrow> (wv, changed, max_wave)
       | Some max_dep \<Rightarrow>
           let w = to_int8 (max_dep + 1) in
           (wv[i := w], True, if w > max_wave then w else max_wave)))"

definition wave_pass :: "service list \<Rightarrow> int list \<Rightarrow> int \<Rightarrow> int list \<times> bool \<times> int" where
  "wave_pass svcs wv max_wave = fold (wave_step svcs) [0..<length svcs] (wv, False, max_wave)"

partial_function (option) wave_loop :: "service list \<Rightarrow> int list \<Rightarrow> int \<Rightarrow> (int list \<times> int) option" where
  "wave_loop svcs wv max_wave =
     (case wave_pass svcs wv max_wave of (wv, changed, max_wave) \<Rightarrow>
        if changed then wave_loop svcs wv max_wave else Some (wv, max_wave))"

definition compute_waves :: "service list \<Rightarrow> (int \<times> int list) option" where
  "compute_waves svcs =
     (case wave_loop svcs (replicate (length svcs) (-1)) 0 of None \<Rightarrow> None
      | Some (wv, max_wave) \<Rightarrow> Some (if list_ex (\<lambda>w. w < 0) wv then -1 else max_wave + 1, wv))"

section \<open>Running services\<close>

record 'w svcmgr =
  g_services :: "service list"
  g_running :: u32
  g_world :: 'w

definition set_svc :: "nat \<Rightarrow> (service \<Rightarrow> service) \<Rightarrow> 'w svcmgr \<Rightarrow> 'w svcmgr" where
  "set_svc i f s = s\<lparr>g_services := (g_services s)[i := f (g_services s ! i)]\<rparr>"

text \<open>
  Launching. The user and group of a service are looked up in the code but not used, so they do
  not appear here. \<open>exists\<close> is \<open>vfs_stat\<close> returning 0 and \<open>spawn\<close> is \<open>elf_spawn\<close>, 0 for failure.
\<close>

definition svc_launch ::
    "(string \<Rightarrow> 'w \<Rightarrow> bool) \<Rightarrow> (string \<Rightarrow> 'w \<Rightarrow> u32 \<times> 'w) \<Rightarrow> nat \<Rightarrow> 'w svcmgr \<Rightarrow> 'w svcmgr" where
  "svc_launch exists spawn i s =
     (let bin = sv_binary (g_services s ! i) in
      if \<not> exists bin (g_world s) then set_svc i (\<lambda>v. v\<lparr>sv_state := SVC_FAILED\<rparr>) s
      else (case spawn bin (g_world s) of (n, w) \<Rightarrow>
        let s = s\<lparr>g_world := w\<rparr> in
        if n = 0 then set_svc i (\<lambda>v. v\<lparr>sv_state := SVC_FAILED\<rparr>) s
        else (set_svc i (\<lambda>v. v\<lparr>sv_pid := n, sv_state := SVC_RUNNING\<rparr>) s)\<lparr>g_running := g_running s + 1\<rparr>))"

definition launch_wave ::
    "(string \<Rightarrow> 'w \<Rightarrow> bool) \<Rightarrow> (string \<Rightarrow> 'w \<Rightarrow> u32 \<times> 'w) \<Rightarrow> int list \<Rightarrow> int \<Rightarrow> 'w svcmgr \<Rightarrow> 'w svcmgr" where
  "launch_wave exists spawn wv wave s =
     fold (\<lambda>i s. if wv ! i = wave \<and> sv_state (g_services s ! i) = SVC_NEW then svc_launch exists spawn i s else s)
       [0..<length (g_services s)] s"

definition restart_one ::
    "(string \<Rightarrow> 'w \<Rightarrow> bool) \<Rightarrow> (string \<Rightarrow> 'w \<Rightarrow> u32 \<times> 'w) \<Rightarrow> nat \<Rightarrow> 'w svcmgr \<Rightarrow> 'w svcmgr" where
  "restart_one exists spawn i s =
     (let v = g_services s ! i in
      if sv_state v \<noteq> SVC_EXITED then s
      else if sv_restart v = RESTART_ALWAYS \<or> sv_restart v = RESTART_ON_FAIL \<and> sv_exit_code v \<noteq> 0
      then svc_launch exists spawn i (set_svc i (\<lambda>v. v\<lparr>sv_state := SVC_RESTARTING\<rparr>) s)
      else set_svc i (\<lambda>v. v\<lparr>sv_state := (if sv_exit_code v = 0 then SVC_EXITED else SVC_FAILED)\<rparr>) s)"

definition check_restarts ::
    "(string \<Rightarrow> 'w \<Rightarrow> bool) \<Rightarrow> (string \<Rightarrow> 'w \<Rightarrow> u32 \<times> 'w) \<Rightarrow> 'w svcmgr \<Rightarrow> 'w svcmgr" where
  "check_restarts exists spawn s = fold (restart_one exists spawn) [0..<length (g_services s)] s"

definition stop_one :: "nat \<Rightarrow> sched svcmgr \<Rightarrow> sched svcmgr" where
  "stop_one i s =
     (let v = g_services s ! i in
      if sv_state v \<noteq> SVC_RUNNING \<or> sv_pid v = 0 then s
      else
        let s = (case sched_find (sv_pid v) (g_world s) of None \<Rightarrow> s
                 | Some p \<Rightarrow> if pstate (pcbs (g_world s) p) \<noteq> PROC_DEAD
                     then s\<lparr>g_world := upd_pcb p (\<lambda>c. c\<lparr>pstate := PROC_DEAD\<rparr>) (g_world s)\<rparr> else s) in
        set_svc i (\<lambda>v. v\<lparr>sv_state := SVC_EXITED\<rparr>) s)"

definition svcmgr_stop_all :: "sched svcmgr \<Rightarrow> sched svcmgr" where
  "svcmgr_stop_all s = fold stop_one [0..<length (g_services s)] s"

text \<open>The boot sequence of \<open>asdinit_main\<close>: compute the waves and launch them in order.\<close>

definition boot_services ::
    "(string \<Rightarrow> 'w \<Rightarrow> bool) \<Rightarrow> (string \<Rightarrow> 'w \<Rightarrow> u32 \<times> 'w) \<Rightarrow> 'w svcmgr \<Rightarrow> 'w svcmgr option" where
  "boot_services exists spawn s =
     (case compute_waves (g_services s) of None \<Rightarrow> None
      | Some (n, wv) \<Rightarrow> if n < 0 then None else Some (fold (\<lambda>w. launch_wave exists spawn wv (int w)) [0..<nat n] s))"

section \<open>Waves respect dependencies\<close>

definition needs :: "service list \<Rightarrow> nat \<Rightarrow> nat \<Rightarrow> bool" where
  "needs svcs i j \<longleftrightarrow> (\<exists>d \<in> set (sv_deps (svcs ! i)). d \<noteq> ''kernel'' \<and> svc_find svcs d = Some j)"

text \<open>Services that wait for each other: a set in which each one needs another one.\<close>

definition cyclic_deps :: "service list \<Rightarrow> bool" where
  "cyclic_deps svcs \<longleftrightarrow> (\<exists>S. S \<noteq> {} \<and> S \<subseteq> {..<length svcs} \<and> (\<forall>i \<in> S. \<exists>j \<in> S. needs svcs i j))"

lemma needs_in_range: "needs svcs i j \<Longrightarrow> j < length svcs"
  by (auto simp: needs_def svc_find_def dest: find_index_Some)

lemma dep_scan_None: "dep_scan svcs wv ds m = None \<longleftrightarrow> (\<exists>d \<in> set ds. d \<noteq> ''kernel'' \<and> (\<exists>j. svc_find svcs d = Some j \<and> wv ! j < 0))"
  by (induction svcs wv ds m rule: dep_scan.induct) (auto split: option.splits)

lemma dep_scan_Some:
  "dep_scan svcs wv ds m = Some r \<Longrightarrow> m \<le> r \<and> (r = m \<or> (\<exists>d \<in> set ds. d \<noteq> ''kernel'' \<and> (\<exists>j. svc_find svcs d = Some j \<and> 0 \<le> wv ! j \<and> r = wv ! j))) \<and>
    (\<forall>d \<in> set ds. d \<noteq> ''kernel'' \<longrightarrow> (\<forall>j. svc_find svcs d = Some j \<longrightarrow> 0 \<le> wv ! j \<and> wv ! j \<le> r))"
proof (induction svcs wv ds m rule: dep_scan.induct)
  case (2 svcs wv d ds m)
  show ?case
  proof (cases "d = ''kernel'' \<or> svc_find svcs d = None")
    case True
    then show ?thesis using 2 by (auto split: if_splits)
  next
    case False
    then obtain j where j: "d \<noteq> ''kernel''" "svc_find svcs d = Some j" by auto
    let ?m = "if wv ! j > m then wv ! j else m"
    have p: "\<not> wv ! j < 0" "dep_scan svcs wv ds ?m = Some r" using 2(4) j by (auto split: if_splits)
    note IH = 2(3) [OF j(1) j(2) p(1) p(2)]
    have "m \<le> r" "wv ! j \<le> r" using IH by (auto split: if_splits)
    then show ?thesis using IH j p(1) by (auto split: if_splits)
  qed
qed simp

lemma scan_needs_None: "dep_scan svcs wv (sv_deps (svcs ! i)) m = None \<longleftrightarrow> (\<exists>j. needs svcs i j \<and> wv ! j < 0)"
  by (auto simp: dep_scan_None needs_def)

lemma scan_needs_Some:
  assumes "dep_scan svcs wv (sv_deps (svcs ! i)) (-1) = Some r"
  shows "-1 \<le> r" "r = -1 \<or> (\<exists>j. needs svcs i j \<and> 0 \<le> wv ! j \<and> r = wv ! j)" "needs svcs i j \<Longrightarrow> 0 \<le> wv ! j \<and> wv ! j \<le> r"
  using dep_scan_Some [OF assms] by (auto simp: needs_def)

definition settled :: "int list \<Rightarrow> nat" where "settled wv = length (filter (\<lambda>w. 0 \<le> w) wv)"

lemma settled_update: "i < length wv \<Longrightarrow> wv ! i < 0 \<Longrightarrow> 0 \<le> w \<Longrightarrow> settled (wv[i := w]) = Suc (settled wv)"
proof (induction wv arbitrary: i)
  case (Cons x wv)
  then show ?case by (cases i) (auto simp: settled_def)
qed simp

lemma settled_less: "i < length wv \<Longrightarrow> wv ! i < 0 \<Longrightarrow> settled wv < length wv"
  unfolding settled_def by (rule length_filter_less [of "wv ! i"]) auto

text \<open>A wave that is set is above those of all dependencies and below the number of services that have one.\<close>

definition waves_ok :: "service list \<Rightarrow> int list \<Rightarrow> int \<Rightarrow> bool" where
  "waves_ok svcs wv mx \<longleftrightarrow> length wv = length svcs \<and> 0 \<le> mx \<and>
     (\<forall>i < length svcs. 0 \<le> wv ! i \<longrightarrow> wv ! i < int (settled wv) \<and> wv ! i \<le> mx \<and> (\<forall>j. needs svcs i j \<longrightarrow> 0 \<le> wv ! j \<and> wv ! j < wv ! i))"

lemma waves_okI:
  assumes "length wv = length svcs" "0 \<le> mx" "\<And>i. i < length svcs \<Longrightarrow> 0 \<le> wv ! i \<Longrightarrow> wv ! i < int (settled wv) \<and> wv ! i \<le> mx"
    and "\<And>i j. i < length svcs \<Longrightarrow> 0 \<le> wv ! i \<Longrightarrow> needs svcs i j \<Longrightarrow> 0 \<le> wv ! j \<and> wv ! j < wv ! i"
  shows "waves_ok svcs wv mx"
  using assms unfolding waves_ok_def by blast

lemma waves_okD:
  assumes "waves_ok svcs wv mx"
  shows "length wv = length svcs" "0 \<le> mx" "i < length svcs \<Longrightarrow> 0 \<le> wv ! i \<Longrightarrow> wv ! i < int (settled wv) \<and> wv ! i \<le> mx"
    and "i < length svcs \<Longrightarrow> 0 \<le> wv ! i \<Longrightarrow> needs svcs i j \<Longrightarrow> 0 \<le> wv ! j \<and> wv ! j < wv ! i"
  using assms unfolding waves_ok_def by blast+

lemma wave_step_ok:
  assumes ok: "waves_ok svcs wv mx" and n: "length svcs \<le> MAX_SERVICES" and i: "i < length svcs"
    and e: "wave_step svcs i (wv, ch, mx) = (wv', ch', mx')"
  shows "waves_ok svcs wv' mx'"
    and "(wv', ch', mx') = (wv, ch, mx) \<and> (wv ! i < 0 \<longrightarrow> (\<exists>j. needs svcs i j \<and> wv ! j < 0)) \<or> ch' \<and> settled wv' = Suc (settled wv)"
proof -
  have "waves_ok svcs wv' mx' \<and>
    ((wv', ch', mx') = (wv, ch, mx) \<and> (wv ! i < 0 \<longrightarrow> (\<exists>j. needs svcs i j \<and> wv ! j < 0)) \<or> ch' \<and> settled wv' = Suc (settled wv))"
  proof (cases "0 \<le> wv ! i \<or> dep_scan svcs wv (sv_deps (svcs ! i)) (-1) = None")
    case True
    then have s: "(wv', ch', mx') = (wv, ch, mx)" using e by (cases "0 \<le> wv ! i") (simp_all add: wave_step_def)
    have "wv ! i < 0 \<longrightarrow> (\<exists>j. needs svcs i j \<and> wv ! j < 0)" using True scan_needs_None [of svcs wv i "-1"] by auto
    then show ?thesis using ok s by simp
  next
    case False
    then obtain r where r: "dep_scan svcs wv (sv_deps (svcs ! i)) (-1) = Some r" and neg: "wv ! i < 0" by auto
    note s = scan_needs_Some [OF r]
    note l = waves_okD(1,2) [OF ok]
    have il: "i < length wv" using i l by simp
    have lt: "settled wv < length wv" by (rule settled_less [OF il neg])
    have rb: "r < int (settled wv)"
    proof (cases "r = -1")
      case False
      then obtain j where j: "needs svcs i j" "0 \<le> wv ! j" "r = wv ! j" using s(2) by blast
      then show ?thesis using waves_okD(3) [OF ok needs_in_range [OF j(1)] j(2)] by simp
    qed simp
    have w: "to_int8 (r + 1) = r + 1"
      using s(1) rb lt l n unfolding to_int8_def MAX_SERVICES_def by (intro signed_take_bit_int_eq_self) auto
    let ?u = "wv[i := r + 1]"
    have up: "settled ?u = Suc (settled wv)" using settled_update [OF il neg, of "r + 1"] s(1) by simp
    have v: "wv' = ?u" "ch'" "mx' = (if r + 1 > mx then r + 1 else mx)"
      using e neg r w by (auto simp: wave_step_def Let_def)
    have "waves_ok svcs ?u mx'"
    proof (rule waves_okI)
      show "length ?u = length svcs" "0 \<le> mx'" using l v(3) by simp_all
      show "?u ! k < int (settled ?u) \<and> ?u ! k \<le> mx'" if k: "k < length svcs" "0 \<le> ?u ! k" for k
      proof (cases "k = i")
        case True
        then show ?thesis using rb il v(3) up by simp
      next
        case False
        then show ?thesis using waves_okD(3) [OF ok k(1)] k(2) v(3) up by simp
      qed
      show "0 \<le> ?u ! j \<and> ?u ! j < ?u ! k" if k: "k < length svcs" "0 \<le> ?u ! k" "needs svcs k j" for k j
      proof (cases "k = i")
        case True
        then have "0 \<le> wv ! j \<and> wv ! j \<le> r" using s(3) [of j] k(3) by simp
        then show ?thesis using True il neg by (cases "j = i") auto
      next
        case False
        then have "0 \<le> wv ! j \<and> wv ! j < wv ! k" using waves_okD(4) [OF ok k(1) _ k(3)] k(2) by simp
        then show ?thesis using False neg by (cases "j = i") auto
      qed
    qed
    then have "waves_ok svcs wv' mx'" unfolding v(1) .
    then show ?thesis using up v by simp
  qed
  then show "waves_ok svcs wv' mx'"
    and "(wv', ch', mx') = (wv, ch, mx) \<and> (wv ! i < 0 \<longrightarrow> (\<exists>j. needs svcs i j \<and> wv ! j < 0)) \<or> ch' \<and> settled wv' = Suc (settled wv)"
    by blast+
qed

lemma wave_fold_ok:
  assumes "waves_ok svcs wv mx" "length svcs \<le> MAX_SERVICES" "set is \<subseteq> {..<length svcs}"
    and "fold (wave_step svcs) is (wv, ch, mx) = (wv', ch', mx')"
  shows "waves_ok svcs wv' mx' \<and> settled wv \<le> settled wv' \<and>
    ((wv', ch', mx') = (wv, ch, mx) \<and> (\<forall>i \<in> set is. wv ! i < 0 \<longrightarrow> (\<exists>j. needs svcs i j \<and> wv ! j < 0)) \<or> ch' \<and> settled wv < settled wv')"
  using assms
proof (induction "is" arbitrary: wv ch mx)
  case (Cons i "is")
  obtain wv1 ch1 mx1 where s: "wave_step svcs i (wv, ch, mx) = (wv1, ch1, mx1)" by (cases "wave_step svcs i (wv, ch, mx)")
  have i: "i < length svcs" "set is \<subseteq> {..<length svcs}" using Cons.prems(3) by auto
  note st = wave_step_ok [OF Cons.prems(1,2) i(1) s]
  have f: "fold (wave_step svcs) is (wv1, ch1, mx1) = (wv', ch', mx')" using Cons.prems(4) s by simp
  note IH = Cons.IH [OF st(1) Cons.prems(2) i(2) f]
  show ?case using st(2) IH by auto
qed simp

lemma wave_pass_ok:
  assumes "waves_ok svcs wv mx" "length svcs \<le> MAX_SERVICES" "wave_pass svcs wv mx = (wv', ch, mx')"
  shows "waves_ok svcs wv' mx'" "ch \<Longrightarrow> settled wv < settled wv'"
    "\<not> ch \<Longrightarrow> wv' = wv \<and> (\<forall>i < length svcs. wv ! i < 0 \<longrightarrow> (\<exists>j. needs svcs i j \<and> wv ! j < 0))"
proof -
  have "set [0..<length svcs] \<subseteq> {..<length svcs}" by auto
  note f = wave_fold_ok [OF assms(1,2) this assms(3) [unfolded wave_pass_def]]
  show "waves_ok svcs wv' mx'" "ch \<Longrightarrow> settled wv < settled wv'" using f by auto
  show "wv' = wv \<and> (\<forall>i < length svcs. wv ! i < 0 \<longrightarrow> (\<exists>j. needs svcs i j \<and> wv ! j < 0))" if "\<not> ch" using f that by auto
qed

lemma wave_loop_returns:
  assumes "waves_ok svcs wv mx" "length svcs \<le> MAX_SERVICES"
  shows "\<exists>wv' mx'. wave_loop svcs wv mx = Some (wv', mx') \<and> waves_ok svcs wv' mx' \<and>
    (\<forall>i < length svcs. wv' ! i < 0 \<longrightarrow> (\<exists>j. needs svcs i j \<and> wv' ! j < 0))"
  using assms
proof (induction "length svcs - settled wv" arbitrary: wv mx rule: less_induct)
  case less
  obtain wv1 ch mx1 where p: "wave_pass svcs wv mx = (wv1, ch, mx1)" by (cases "wave_pass svcs wv mx")
  note ok = wave_pass_ok [OF less.prems p]
  have e: "wave_loop svcs wv mx = (if ch then wave_loop svcs wv1 mx1 else Some (wv1, mx1))"
    unfolding wave_loop.simps [of svcs wv mx] p by simp
  show ?case
  proof (cases ch)
    case True
    have "settled wv1 \<le> length wv1" by (simp add: settled_def)
    then have "settled wv1 \<le> length svcs" using ok(1) by (simp add: waves_ok_def)
    then have "length svcs - settled wv1 < length svcs - settled wv" using ok(2) [OF True] by linarith
    from less.hyps [OF this ok(1) less.prems(2)] show ?thesis using e True by simp
  next
    case False
    then show ?thesis using e ok(1) ok(3) [OF False] by auto
  qed
qed

lemma ordered_not_cyclic:
  assumes "\<And>i j. i < length svcs \<Longrightarrow> needs svcs i j \<Longrightarrow> (f j :: int) < f i"
  shows "\<not> cyclic_deps svcs"
proof
  assume "cyclic_deps svcs"
  then obtain S where S: "S \<noteq> {}" "S \<subseteq> {..<length svcs}" "\<forall>i \<in> S. \<exists>j \<in> S. needs svcs i j" by (auto simp: cyclic_deps_def)
  have fin: "finite (f ` S)" using S(2) finite_subset by blast
  obtain i where i: "i \<in> S" "f i = Min (f ` S)" using Min_in [OF fin] S(1) by fastforce
  obtain j where j: "j \<in> S" "needs svcs i j" using S(3) i(1) by blast
  have "f j < f i" using assms [of i j] i(1) S(2) j(2) by auto
  moreover have "f i \<le> f j" using i(2) j(1) fin by simp
  ultimately show False by simp
qed

lemma stuck_cyclic:
  assumes f: "\<And>i. i < length svcs \<Longrightarrow> wv ! i < (0 :: int) \<Longrightarrow> \<exists>j. needs svcs i j \<and> wv ! j < 0" and k: "k < length svcs" "wv ! k < 0"
  shows "cyclic_deps svcs"
proof -
  let ?S = "{i. i < length svcs \<and> wv ! i < 0}"
  have "\<exists>j \<in> ?S. needs svcs i j" if i: "i \<in> ?S" for i
  proof -
    obtain j where "needs svcs i j" "wv ! j < 0" using f [of i] i by auto
    then show ?thesis using needs_in_range [of svcs i j] by auto
  qed
  then show ?thesis unfolding cyclic_deps_def using k by (intro exI [of _ ?S]) auto
qed

lemma waves_result:
  assumes n: "length svcs \<le> MAX_SERVICES"
  obtains wv mx where "compute_waves svcs = Some (if list_ex (\<lambda>w. w < 0) wv then -1 else mx + 1, wv)" "waves_ok svcs wv mx"
    "\<forall>i < length svcs. wv ! i < 0 \<longrightarrow> (\<exists>j. needs svcs i j \<and> wv ! j < 0)"
proof -
  have init: "waves_ok svcs (replicate (length svcs) (-1)) 0" by (rule waves_okI) simp_all
  from wave_loop_returns [OF init n] obtain wv mx where w: "wave_loop svcs (replicate (length svcs) (-1)) 0 = Some (wv, mx)"
    "waves_ok svcs wv mx" "\<forall>i < length svcs. wv ! i < 0 \<longrightarrow> (\<exists>j. needs svcs i j \<and> wv ! j < 0)" by (elim exE conjE)
  show ?thesis by (rule that [of wv mx]) (use w in \<open>simp_all add: compute_waves_def\<close>)
qed

lemma waves_ordered:
  assumes w: "waves_ok svcs wv mx" and a: "\<not> list_ex (\<lambda>w. w < 0) wv" and i: "i < length svcs"
  shows "0 \<le> wv ! i" "wv ! i < mx + 1" "needs svcs i j \<Longrightarrow> wv ! j < wv ! i"
proof -
  have "\<not> wv ! i < 0" using a i waves_okD(1) [OF w] unfolding list_ex_length by simp
  then show p: "0 \<le> wv ! i" by simp
  show "wv ! i < mx + 1" using waves_okD(3) [OF w i p] by simp
  show "needs svcs i j \<Longrightarrow> wv ! j < wv ! i" using waves_okD(4) [OF w i p] by simp
qed

text \<open>
  C17. \<open>compute_waves\<close> always ends. If services wait for each other in a circle it returns -1; otherwise
  it gives every service a wave below the returned number and above the waves of all services it needs.
\<close>

theorem compute_waves_correct:
  assumes n: "length svcs \<le> MAX_SERVICES"
  shows "\<exists>r wv. compute_waves svcs = Some (r, wv) \<and> length wv = length svcs \<and>
    (if cyclic_deps svcs then r = -1
     else 0 < r \<and> (\<forall>i < length svcs. 0 \<le> wv ! i \<and> wv ! i < r \<and> (\<forall>j. needs svcs i j \<longrightarrow> wv ! j < wv ! i)))"
proof -
  obtain wv mx where e: "compute_waves svcs = Some (if list_ex (\<lambda>w. w < 0) wv then -1 else mx + 1, wv)" and w: "waves_ok svcs wv mx"
    and f: "\<forall>i < length svcs. wv ! i < 0 \<longrightarrow> (\<exists>j. needs svcs i j \<and> wv ! j < 0)" using waves_result [OF n] .
  note l = waves_okD(1,2) [OF w]
  show ?thesis
  proof (cases "list_ex (\<lambda>w. w < 0) wv")
    case True
    then obtain k where "k < length svcs" "wv ! k < 0" using l by (auto simp: list_ex_length)
    then have "cyclic_deps svcs" using f by (intro stuck_cyclic [of svcs wv k]) auto
    then show ?thesis using e True l(1) by simp
  next
    case False
    note o = waves_ordered [OF w False]
    have "\<not> cyclic_deps svcs" by (rule ordered_not_cyclic [where f = "\<lambda>i. wv ! i"]) (rule o(3))
    moreover have "0 < mx + 1" using l(2) by simp
    ultimately show ?thesis using e False l(1) o by (intro exI [of _ "mx + 1"] exI [of _ wv]) simp
  qed
qed

definition demo_svcs :: "service list" where
  "demo_svcs = [(new_service ''netd'')\<lparr>sv_deps := [''syslog'']\<rparr>, (new_service ''syslog'')\<lparr>sv_deps := [''kernel'']\<rparr>]"

lemma demo_needs: "needs demo_svcs 0 1" "\<not> cyclic_deps demo_svcs"
proof -
  have n: "needs demo_svcs i j \<longleftrightarrow> i = 0 \<and> j = 1" if "i < length demo_svcs" for i j
    using that by (cases i) (auto simp: needs_def demo_svcs_def svc_find_def new_service_def split: if_splits)
  show "needs demo_svcs 0 1" using n [of 0] by (simp add: demo_svcs_def)
  show "\<not> cyclic_deps demo_svcs" by (rule ordered_not_cyclic [where f = "\<lambda>i. - int i"]) (simp add: n)
qed

theorem compute_waves_correct_witness:
  "\<exists>r wv. compute_waves demo_svcs = Some (r, wv) \<and> 0 < r \<and> wv ! 1 < wv ! 0"
  using compute_waves_correct [of demo_svcs] demo_needs by (auto simp: MAX_SERVICES_def demo_svcs_def)

section \<open>Launching in order\<close>

lemma svc_launch_services:
  "\<exists>v. g_services (svc_launch ex sp i s) = (g_services s)[i := v] \<and> sv_state v \<in> {SVC_RUNNING, SVC_FAILED}"
  by (auto simp: svc_launch_def Let_def set_svc_def split: prod.splits)

text \<open>What launching the services of one wave among the given indices changes.\<close>

lemma launch_fold:
  fixes wv :: "int list" and wave :: int and ex :: "string \<Rightarrow> 'w \<Rightarrow> bool" and sp :: "string \<Rightarrow> 'w \<Rightarrow> u32 \<times> 'w"
  assumes "distinct is" "set is \<subseteq> {..<length (g_services s)}"
  defines "F \<equiv> \<lambda>i s. if wv ! i = wave \<and> sv_state (g_services s ! i) = SVC_NEW then svc_launch ex sp i s else s"
  shows "length (g_services (fold F is s)) = length (g_services s) \<and>
    (\<forall>k. k \<notin> set is \<or> wv ! k \<noteq> wave \<or> sv_state (g_services s ! k) \<noteq> SVC_NEW \<longrightarrow> g_services (fold F is s) ! k = g_services s ! k) \<and>
    (\<forall>k \<in> set is. wv ! k = wave \<and> sv_state (g_services s ! k) = SVC_NEW \<longrightarrow> sv_state (g_services (fold F is s) ! k) \<in> {SVC_RUNNING, SVC_FAILED})"
  using assms(1,2)
proof (induction "is" arbitrary: s)
  case (Cons i "is")
  obtain v where v: "g_services (svc_launch ex sp i s) = (g_services s)[i := v]" "sv_state v \<in> {SVC_RUNNING, SVC_FAILED}"
    using svc_launch_services by blast
  have i: "i < length (g_services s)" "i \<notin> set is" "distinct is" using Cons.prems by auto
  have g: "g_services (F i s) = (if wv ! i = wave \<and> sv_state (g_services s ! i) = SVC_NEW then (g_services s)[i := v] else g_services s)"
    by (simp add: F_def v)
  have l: "set is \<subseteq> {..<length (g_services (F i s))}" using Cons.prems(2) by (auto simp: g)
  note IH = Cons.IH [OF i(3) l]
  have o: "g_services (F i s) ! k = g_services s ! k" if "k \<noteq> i" for k using that by (simp add: g)
  show ?case
  proof (intro conjI allI ballI impI)
    show "length (g_services (fold F (i # is) s)) = length (g_services s)" using IH by (simp add: g)
  next
    fix k assume k: "k \<notin> set (i # is) \<or> wv ! k \<noteq> wave \<or> sv_state (g_services s ! k) \<noteq> SVC_NEW"
    have e: "g_services (F i s) ! k = g_services s ! k" using k o by (cases "k = i") (auto simp: g)
    then have "k \<notin> set is \<or> wv ! k \<noteq> wave \<or> sv_state (g_services (F i s) ! k) \<noteq> SVC_NEW" using k by auto
    then show "g_services (fold F (i # is) s) ! k = g_services s ! k" using IH e by simp
  next
    fix k assume k: "k \<in> set (i # is)" "wv ! k = wave \<and> sv_state (g_services s ! k) = SVC_NEW"
    show "sv_state (g_services (fold F (i # is) s) ! k) \<in> {SVC_RUNNING, SVC_FAILED}"
    proof (cases "k = i")
      case True
      then have "g_services (F i s) ! k = v" using k(2) i(1) by (simp add: g)
      then have "g_services (fold F is (F i s)) ! k = v" using IH i(2) True by auto
      then show ?thesis using v(2) by simp
    next
      case False
      then show ?thesis using IH k o [OF False] by simp
    qed
  qed
qed simp

lemma launch_wave_spec:
  "length (g_services (launch_wave ex sp wv wave s)) = length (g_services s)"
  "wv ! k \<noteq> wave \<or> sv_state (g_services s ! k) \<noteq> SVC_NEW \<Longrightarrow> g_services (launch_wave ex sp wv wave s) ! k = g_services s ! k"
  "k < length (g_services s) \<Longrightarrow> wv ! k = wave \<Longrightarrow> sv_state (g_services s ! k) = SVC_NEW \<Longrightarrow>
     sv_state (g_services (launch_wave ex sp wv wave s) ! k) \<in> {SVC_RUNNING, SVC_FAILED}"
proof -
  have s: "set [0..<length (g_services s)] \<subseteq> {..<length (g_services s)}" by auto
  note f = launch_fold [OF distinct_upt s, where wv = wv and wave = wave and ex = ex and sp = sp, folded launch_wave_def]
  show "length (g_services (launch_wave ex sp wv wave s)) = length (g_services s)" using f by blast
  show "wv ! k \<noteq> wave \<or> sv_state (g_services s ! k) \<noteq> SVC_NEW \<Longrightarrow> g_services (launch_wave ex sp wv wave s) ! k = g_services s ! k"
    using f by blast
  show "k < length (g_services s) \<Longrightarrow> wv ! k = wave \<Longrightarrow> sv_state (g_services s ! k) = SVC_NEW \<Longrightarrow>
     sv_state (g_services (launch_wave ex sp wv wave s) ! k) \<in> {SVC_RUNNING, SVC_FAILED}" using f by simp
qed

text \<open>The state before wave \<open>n\<close>.\<close>

definition before_wave :: "(string \<Rightarrow> 'w \<Rightarrow> bool) \<Rightarrow> (string \<Rightarrow> 'w \<Rightarrow> u32 \<times> 'w) \<Rightarrow> int list \<Rightarrow> nat \<Rightarrow> 'w svcmgr \<Rightarrow> 'w svcmgr" where
  "before_wave ex sp wv n s = fold (\<lambda>w. launch_wave ex sp wv (int w)) [0..<n] s"

lemma before_wave_spec:
  "length (g_services (before_wave ex sp wv n s)) = length (g_services s) \<and>
   (\<forall>k < length (g_services s). (int n \<le> wv ! k \<longrightarrow> g_services (before_wave ex sp wv n s) ! k = g_services s ! k) \<and>
      (0 \<le> wv ! k \<and> wv ! k < int n \<and> sv_state (g_services s ! k) = SVC_NEW \<longrightarrow>
         sv_state (g_services (before_wave ex sp wv n s) ! k) \<in> {SVC_RUNNING, SVC_FAILED}))"
proof (induction n)
  case (Suc n)
  let ?t = "before_wave ex sp wv n s"
  have e: "before_wave ex sp wv (Suc n) s = launch_wave ex sp wv (int n) ?t" by (simp add: before_wave_def)
  have l: "length (g_services ?t) = length (g_services s)" using Suc by blast
  show ?case
  proof (intro conjI allI impI)
    show "length (g_services (before_wave ex sp wv (Suc n) s)) = length (g_services s)" unfolding e launch_wave_spec(1) by (rule l)
  next
    fix k assume k: "k < length (g_services s)" "int (Suc n) \<le> wv ! k"
    then show "g_services (before_wave ex sp wv (Suc n) s) ! k = g_services s ! k"
      using Suc launch_wave_spec(2) [of wv k "int n" ?t ex sp] unfolding e by simp
  next
    fix k assume k: "k < length (g_services s)" "0 \<le> wv ! k \<and> wv ! k < int (Suc n) \<and> sv_state (g_services s ! k) = SVC_NEW"
    show "sv_state (g_services (before_wave ex sp wv (Suc n) s) ! k) \<in> {SVC_RUNNING, SVC_FAILED}"
    proof (cases "wv ! k = int n")
      case True
      then have "sv_state (g_services ?t ! k) = SVC_NEW" using Suc k by simp
      then show ?thesis using launch_wave_spec(3) [of k ?t wv "int n" ex sp] True k(1) l unfolding e by simp
    next
      case False
      then have r: "sv_state (g_services ?t ! k) \<in> {SVC_RUNNING, SVC_FAILED}" using Suc k by simp
      then show ?thesis using launch_wave_spec(2) [of wv k "int n" ?t ex sp] False unfolding e by simp
    qed
  qed
qed (simp add: before_wave_def)

text \<open>
  C16. Booting starts services in the order of their dependencies: when the wave of a service is
  reached, the service itself is untouched and every service it needs has been started or has failed.
\<close>

theorem services_start_in_order:
  assumes n: "length (g_services s) \<le> MAX_SERVICES" and c: "\<not> cyclic_deps (g_services s)"
    and new: "\<forall>v \<in> set (g_services s). sv_state v = SVC_NEW"
  shows "\<exists>r wv. compute_waves (g_services s) = Some (r, wv) \<and> boot_services ex sp s = Some (before_wave ex sp wv (nat r) s) \<and>
    (\<forall>i j. i < length (g_services s) \<and> needs (g_services s) i j \<longrightarrow>
       g_services (before_wave ex sp wv (nat (wv ! i)) s) ! i = g_services s ! i \<and>
       sv_state (g_services (before_wave ex sp wv (nat (wv ! i)) s) ! j) \<in> {SVC_RUNNING, SVC_FAILED})"
proof -
  let ?v = "g_services s"
  obtain r wv where w: "compute_waves ?v = Some (r, wv)" "0 < r"
    and o: "\<forall>i < length ?v. 0 \<le> wv ! i \<and> wv ! i < r \<and> (\<forall>j. needs ?v i j \<longrightarrow> wv ! j < wv ! i)"
    using compute_waves_correct [OF n] c by auto
  have b: "boot_services ex sp s = Some (before_wave ex sp wv (nat r) s)" using w by (simp add: boot_services_def before_wave_def)
  have "g_services (before_wave ex sp wv (nat (wv ! i)) s) ! i = ?v ! i \<and>
       sv_state (g_services (before_wave ex sp wv (nat (wv ! i)) s) ! j) \<in> {SVC_RUNNING, SVC_FAILED}"
    if ij: "i < length ?v" "needs ?v i j" for i j
  proof -
    have j: "j < length ?v" by (rule needs_in_range [OF ij(2)])
    have "0 \<le> wv ! i" "0 \<le> wv ! j" "wv ! j < wv ! i" "sv_state (?v ! j) = SVC_NEW" using o ij j new by auto
    then show ?thesis using before_wave_spec [of ex sp wv "nat (wv ! i)" s] ij(1) j by simp
  qed
  then show ?thesis using w(1) b by blast
qed

theorem services_start_in_order_witness:
  "\<exists>t. boot_services (\<lambda>b w. True) (\<lambda>b w. (7, w)) \<lparr>g_services = demo_svcs, g_running = 0, g_world = ()\<rparr> = Some t"
  using services_start_in_order [of "\<lparr>g_services = demo_svcs, g_running = 0, g_world = ()\<rparr>" "\<lambda>b w. True" "\<lambda>b w. (7, w)"] demo_needs
  by (auto simp: MAX_SERVICES_def demo_svcs_def new_service_def)

end
