(* ===== verification/Port.thy ===== *)
theory Port
  imports RingBuf SchedInv
begin

text \<open>
  Message ports, \<open>src/kernel/ipc/port.c\<close> and \<open>port.h\<close>: named queues of messages over a ring of
  64 slots of 64 bytes. A short message travels inside a slot, a longer one in a kernel buffer
  whose address the slot holds. A slot is marshalled to its 64 bytes in memory, little endian.
  Waking and sleeping go through the scheduler, buffers through the kernel heap. Reading past
  the bytes a caller passed is \<open>None\<close>.
\<close>

section \<open>Bytes\<close>

definition le_bytes :: "nat \<Rightarrow> 'a::len word \<Rightarrow> u8 list" where
  "le_bytes k w = map (\<lambda>i. ucast (drop_bit (8 * i) w)) [0..<k]"

primrec le_word :: "u8 list \<Rightarrow> 'a::len word" where
  "le_word [] = 0"
| "le_word (b # bs) = (ucast b OR push_bit 8 (le_word bs))"

lemma length_le_bytes [simp]: "length (le_bytes k w) = k"
  by (simp add: le_bytes_def)

lemma bit_le_word:
  "bit (le_word bs :: 'a::len word) n \<longleftrightarrow> n < LENGTH('a) \<and> n div 8 < length bs \<and> bit (bs ! (n div 8)) (n mod 8)"
proof (induction bs arbitrary: n)
  case (Cons b bs)
  show ?case
  proof (cases "n < 8")
    case True
    then show ?thesis by (auto simp: bit_simps)
  next
    case False
    then have "n div 8 = Suc ((n - 8) div 8)" "n mod 8 = (n - 8) mod 8" by (simp_all add: le_div_geq le_mod_geq)
    then show ?thesis using False Cons.IH [of "n - 8"] bit_imp_le_length [of b n] by (auto simp: bit_simps)
  qed
qed simp

lemma le_word_bytes: "LENGTH('a) \<le> 8 * k \<Longrightarrow> le_word (le_bytes k w) = (w :: 'a::len word)"
proof (rule bit_word_eqI)
  fix n assume k: "LENGTH('a) \<le> 8 * k" and n: "n < LENGTH('a)"
  then have "n div 8 < k" by (simp add: less_mult_imp_div_less mult.commute)
  moreover have "n mod 8 < 8" by simp
  ultimately show "bit (le_word (le_bytes k w) :: 'a word) n = bit w n"
    using n by (simp add: bit_le_word le_bytes_def bit_simps)
qed

section \<open>State\<close>

definition PORT_NAME_LEN :: nat where "PORT_NAME_LEN = 64"
definition PORT_MSG_MAX :: u64 where "PORT_MSG_MAX = 4096"
definition PORT_QUEUE_DEPTH :: u32 where "PORT_QUEUE_DEPTH = 64"
definition PORT_CREATE :: u32 where "PORT_CREATE = 0x01"
definition PORT_OPEN :: u32 where "PORT_OPEN = 0x02"
definition PORT_SLOT_SIZE :: u32 where "PORT_SLOT_SIZE = 8 + 56"
definition PORT_INLINE_MAX :: u64 where "PORT_INLINE_MAX = 56"
definition MAX_PORTS :: nat where "MAX_PORTS = 1024"

record port_slot =
  hdr_type :: u32
  hdr_len :: u32
  payload :: "u8 list"

record port_obj =
  pt_name :: string
  pt_id :: u32
  owner_pid :: u32
  pt_refcount :: u32
  pt_ring :: ringbuf
  waiter :: "pref option"

record ipc =
  port_table :: "port_obj list"
  isched :: sched
  kmem :: "u64 \<Rightarrow> u8"

definition zero_ring :: ringbuf where
  "zero_ring = \<lparr>magic = 0, version = 0, slot_size = 0, slot_count = 0, rb_pad = 0, write_idx = 0, read_idx = 0,
     rb_reserved = replicate 24 0, rb_data = []\<rparr>"

definition zero_port :: port_obj where
  "zero_port = \<lparr>pt_name = [], pt_id = 0, owner_pid = 0, pt_refcount = 0, pt_ring = zero_ring, waiter = None\<rparr>"

definition slot_bytes :: "port_slot \<Rightarrow> u8 list" where
  "slot_bytes s = le_bytes 4 (hdr_type s) @ le_bytes 4 (hdr_len s) @ payload s"

definition bytes_slot :: "u8 list \<Rightarrow> port_slot" where
  "bytes_slot b = \<lparr>hdr_type = le_word (take 4 b), hdr_len = le_word (take 4 (drop 4 b)), payload = drop 8 b\<rparr>"

definition upd_port :: "nat \<Rightarrow> (port_obj \<Rightarrow> port_obj) \<Rightarrow> ipc \<Rightarrow> ipc" where
  "upd_port i f st = st\<lparr>port_table := (port_table st)[i := f (port_table st ! i)]\<rparr>"

section \<open>Operations\<close>

definition port_subsystem_init :: "ipc \<Rightarrow> ipc" where
  "port_subsystem_init st = st\<lparr>port_table := replicate MAX_PORTS zero_port\<rparr>"

definition port_find_by_name :: "string \<Rightarrow> ipc \<Rightarrow> nat option" where
  "port_find_by_name name st =
     find_index (\<lambda>p. pt_id p \<noteq> 0 \<and> take PORT_NAME_LEN (pt_name p) = take PORT_NAME_LEN name) (port_table st)"

definition port_find_by_id :: "u32 \<Rightarrow> ipc \<Rightarrow> nat option" where
  "port_find_by_id hid st =
     (if hid = 0 \<or> unat hid > MAX_PORTS then None
      else if pt_id (port_table st ! (unat hid - 1)) = hid then Some (unat hid - 1) else None)"

definition port_create :: "string \<Rightarrow> u32 \<Rightarrow> ipc \<Rightarrow> u32 \<times> ipc" where
  "port_create name caller st =
     (case find_index (\<lambda>p. pt_id p = 0) (port_table st) of None \<Rightarrow> (0, st)
      | Some i \<Rightarrow>
          (of_nat (i + 1),
           upd_port i (\<lambda>p. zero_port\<lparr>pt_name := take (PORT_NAME_LEN - 1) name, pt_id := of_nat (i + 1),
             owner_pid := caller, pt_refcount := 1,
             pt_ring := the (snd (ringbuf_init (Some zero_ring) PORT_SLOT_SIZE PORT_QUEUE_DEPTH))\<rparr>) st))"

definition port_open :: "string option \<Rightarrow> u32 \<Rightarrow> u32 \<Rightarrow> ipc \<Rightarrow> u32 \<times> ipc" where
  "port_open name flags caller st =
     (case name of None \<Rightarrow> (0, st)
      | Some name \<Rightarrow>
          if name = [] then (0, st)
          else (case port_find_by_name name st of
            Some i \<Rightarrow>
              if (flags AND PORT_OPEN) = 0 then (0, st)
              else (pt_id (port_table st ! i), upd_port i (\<lambda>p. p\<lparr>pt_refcount := pt_refcount p + 1\<rparr>) st)
          | None \<Rightarrow> if (flags AND PORT_CREATE) = 0 then (0, st) else port_create name caller st))"

definition port_close :: "u64 \<Rightarrow> u32 \<Rightarrow> ipc \<Rightarrow> ipc option" where
  "port_close now hid st =
     (case port_find_by_id hid st of None \<Rightarrow> Some st
      | Some i \<Rightarrow>
          let st = upd_port i (\<lambda>p. if pt_refcount p > 0 then p\<lparr>pt_refcount := pt_refcount p - 1\<rparr> else p) st;
              p = port_table st ! i in
          if pt_refcount p \<noteq> 0 then Some st
          else (case (case waiter p of None \<Rightarrow> Some (isched st) | Some w \<Rightarrow> sched_wake now w (isched st)) of None \<Rightarrow> None
            | Some s \<Rightarrow> Some (upd_port i (\<lambda>p. p\<lparr>pt_id := 0\<rparr>) (st\<lparr>isched := s\<rparr>))))"

text \<open>The bytes copied into the slot of a short message: \<open>len - 8\<close> wraps for messages below 8 bytes.\<close>

definition inline_count :: "u64 \<Rightarrow> u64" where
  "inline_count len = (if len - 8 < PORT_INLINE_MAX then len - 8 else PORT_INLINE_MAX)"

definition write_kmem :: "u64 \<Rightarrow> u8 list \<Rightarrow> (u64 \<Rightarrow> u8) \<Rightarrow> u64 \<Rightarrow> u8" where
  "write_kmem p d m = (\<lambda>a. if unat (a - p) < length d then d ! unat (a - p) else m a)"

definition read_kmem :: "u64 \<Rightarrow> nat \<Rightarrow> (u64 \<Rightarrow> u8) \<Rightarrow> u8 list" where
  "read_kmem p n m = map (\<lambda>i. m (p + of_nat i)) [0..<n]"

text \<open>The slot of a message, \<open>None\<close> inside if there is no memory for the buffer.\<close>

definition send_slot :: "u8 list \<Rightarrow> u64 \<Rightarrow> ipc \<Rightarrow> (port_slot option \<times> ipc) option" where
  "send_slot msg len st =
     (if len \<le> PORT_INLINE_MAX then
        let n = unat (inline_count len) in
        if length msg < 8 + n then None
        else Some (Some \<lparr>hdr_type = le_word (take 4 msg), hdr_len = ucast len,
                payload = take n (drop 8 msg) @ replicate (56 - n) 0\<rparr>, st)
      else if length msg < unat len then None
      else case kmalloc len (heap (isched st)) of None \<Rightarrow> None
        | Some (p, h) \<Rightarrow>
            let st = st\<lparr>isched := (isched st)\<lparr>heap := h\<rparr>\<rparr> in
            if p = 0 then Some (None, st)
            else Some (Some \<lparr>hdr_type = le_word (take 4 msg), hdr_len = ucast len,
                    payload = le_bytes 8 p @ replicate 48 0\<rparr>,
                  st\<lparr>kmem := write_kmem p (take (unat len) msg) (kmem st)\<rparr>))"

primrec push_tries :: "nat \<Rightarrow> ringbuf \<Rightarrow> u8 list \<Rightarrow> ringbuf option" where
  "push_tries 0 r b = None"
| "push_tries (Suc n) r b =
     (case ringbuf_push r b PORT_SLOT_SIZE of (rc, r') \<Rightarrow> if rc = 0 then Some r' else push_tries n r' b)"

definition port_send :: "u64 \<Rightarrow> u32 \<Rightarrow> u8 list \<Rightarrow> u64 \<Rightarrow> ipc \<Rightarrow> (int \<times> ipc) option" where
  "port_send now hid msg len st =
     (if len = 0 \<or> len > PORT_MSG_MAX then Some (-1, st)
      else case port_find_by_id hid st of None \<Rightarrow> Some (-1, st)
      | Some i \<Rightarrow>
          (case send_slot msg len st of None \<Rightarrow> None
           | Some (None, st) \<Rightarrow> Some (-1, st)
           | Some (Some sl, st) \<Rightarrow>
               (case push_tries 1000 (pt_ring (port_table st ! i)) (slot_bytes sl) of
                  None \<Rightarrow> Some (-1, st)
                | Some r \<Rightarrow>
                    let st = upd_port i (\<lambda>p. p\<lparr>pt_ring := r\<rparr>) st in
                    (case waiter (port_table st ! i) of None \<Rightarrow> Some (0, st)
                     | Some w \<Rightarrow> (case sched_wake now w (isched st) of None \<Rightarrow> None
                         | Some s \<Rightarrow> Some (0, upd_port i (\<lambda>p. p\<lparr>waiter := None\<rparr>) (st\<lparr>isched := s\<rparr>)))))))"

datatype recv_result = RecvFail | Blocked | Message "u8 list"

definition deliver :: "port_slot \<Rightarrow> u64 \<Rightarrow> ipc \<Rightarrow> (recv_result \<times> ipc) option" where
  "deliver sl cap st =
     (let payload_len = ucast (hdr_len sl) :: u64 in
      if payload_len \<le> PORT_INLINE_MAX then
        let copy = (if payload_len < cap - 8 then payload_len else cap - 8) in
        Some (Message (le_bytes 4 (hdr_type sl) @ le_bytes 4 (ucast payload_len :: u32) @ take (unat copy) (payload sl)), st)
      else
        let p = le_word (take 8 (payload sl)) :: u64;
            copy = (if payload_len < cap then payload_len else cap) in
        case kfree p (heap (isched st)) of None \<Rightarrow> None
        | Some h \<Rightarrow> Some (Message (read_kmem p (unat copy) (kmem st)), st\<lparr>isched := (isched st)\<lparr>heap := h\<rparr>\<rparr>))"

text \<open>
  Receiving, up to the point where the receiver is put to sleep: a woken receiver starts over.
  \<open>None\<close> is a sleep without a current process or one that never ends.
\<close>

definition recv_block :: "u64 \<Rightarrow> nat \<Rightarrow> ipc \<Rightarrow> (recv_result \<times> ipc) option" where
  "recv_block now i st =
     (case sched_current (isched st) of None \<Rightarrow> None
      | Some cur \<Rightarrow>
          let st = upd_port i (\<lambda>p. p\<lparr>waiter := Some cur\<rparr>) st in
          (case sched_yield now (upd_pcb cur (\<lambda>c. c\<lparr>pstate := PROC_WAIT\<rparr>) (isched st)) of None \<Rightarrow> None
           | Some s \<Rightarrow> Some (Blocked, st\<lparr>isched := s\<rparr>)))"

definition port_recv :: "u64 \<Rightarrow> u32 \<Rightarrow> bool \<Rightarrow> u64 \<Rightarrow> ipc \<Rightarrow> (recv_result \<times> ipc) option" where
  "port_recv now hid ptrs cap st =
     (if \<not> ptrs \<or> cap < 64 then Some (RecvFail, st)
      else case port_find_by_id hid st of None \<Rightarrow> Some (RecvFail, st)
      | Some i \<Rightarrow>
          (case ringbuf_pop (pt_ring (port_table st ! i)) PORT_SLOT_SIZE of (rc, b, r) \<Rightarrow>
             if rc \<noteq> 0 then recv_block now i st
             else deliver (bytes_slot b) cap (upd_port i (\<lambda>p. p\<lparr>pt_ring := r\<rparr>) st)))"

section \<open>Invariant\<close>

definition ring_ok :: "ringbuf \<Rightarrow> bool" where
  "ring_ok r \<longleftrightarrow> rb_inv r \<and> slot_size r = PORT_SLOT_SIZE \<and> slot_count r = PORT_QUEUE_DEPTH"

text \<open>A slot of the table is free, or its number is its place, its queue is a ring of 64 slots, and its name fits.\<close>

definition port_ok :: "nat \<Rightarrow> port_obj \<Rightarrow> bool" where
  "port_ok i p \<longleftrightarrow> pt_id p = 0 \<or> pt_id p = of_nat (i + 1) \<and> ring_ok (pt_ring p) \<and> length (pt_name p) < PORT_NAME_LEN"

definition ports_inv :: "ipc \<Rightarrow> bool" where
  "ports_inv st \<longleftrightarrow> length (port_table st) = MAX_PORTS \<and> (\<forall>i < MAX_PORTS. port_ok i (port_table st ! i))"

lemma upd_port_inv:
  "ports_inv st \<Longrightarrow> (i < MAX_PORTS \<Longrightarrow> port_ok i (f (port_table st ! i))) \<Longrightarrow> ports_inv (upd_port i f st)"
  by (cases "i < MAX_PORTS") (auto simp: ports_inv_def upd_port_def nth_list_update)

lemma upd_port_fields [simp]:
  "isched (upd_port i f st) = isched st" "kmem (upd_port i f st) = kmem st"
  "length (port_table (upd_port i f st)) = length (port_table st)"
  "i < length (port_table st) \<Longrightarrow> port_table (upd_port i f st) ! i = f (port_table st ! i)"
  by (simp_all add: upd_port_def)

lemma ports_inv_cong [simp]: "ports_inv (st\<lparr>isched := s\<rparr>) = ports_inv st" "ports_inv (st\<lparr>kmem := m\<rparr>) = ports_inv st"
  by (simp_all add: ports_inv_def)

lemma find_by_id_Some:
  "ports_inv st \<Longrightarrow> port_find_by_id h st = Some i \<Longrightarrow> i < MAX_PORTS \<and> h = of_nat (i + 1) \<and>
     pt_id (port_table st ! i) = h \<and> h \<noteq> 0 \<and> ring_ok (pt_ring (port_table st ! i))"
proof -
  assume inv: "ports_inv st" and f: "port_find_by_id h st = Some i"
  then have h: "h \<noteq> 0" "unat h \<le> MAX_PORTS" "pt_id (port_table st ! i) = h" "i = unat h - 1"
    by (auto simp: port_find_by_id_def split: if_splits)
  have "0 < unat h" using h(1) by (simp add: unat_gt_0)
  then have i: "i < MAX_PORTS" using h(2,4) by linarith
  then have "port_ok i (port_table st ! i)" using inv by (simp add: ports_inv_def)
  then show ?thesis using h(1,3) i by (simp add: port_ok_def)
qed

lemma length_slot_bytes: "length (payload sl) = 56 \<Longrightarrow> length (slot_bytes sl) = 64"
  by (simp add: slot_bytes_def)

lemma send_slot_spec:
  assumes "send_slot msg len st = Some (r, st')"
  shows "port_table st' = port_table st \<and> (\<forall>sl. r = Some sl \<longrightarrow> length (payload sl) = 56)"
proof (cases "len \<le> PORT_INLINE_MAX")
  case True
  have n: "unat (inline_count len) \<le> 56"
    by (auto simp: inline_count_def PORT_INLINE_MAX_def word_less_nat_alt)
  then show ?thesis using assms True by (auto simp: send_slot_def Let_def split: if_splits)
next
  case False
  then show ?thesis using assms by (auto simp: send_slot_def Let_def split: if_splits option.splits prod.splits)
qed

lemma push_once:
  assumes r: "ring_ok r" and b: "length b = 64"
  shows "(ringbuf_len r = 64 \<and> ringbuf_push r b PORT_SLOT_SIZE = (-1, r)) \<or>
    (ringbuf_len r < 64 \<and> (\<exists>r'. ringbuf_push r b PORT_SLOT_SIZE = (0, r') \<and> ring_ok r' \<and> ringbuf_contents r' = ringbuf_contents r @ [b]))"
proof -
  have i: "rb_inv r" and s: "slot_size r = 64" "slot_count r = 64" using r by (simp_all add: ring_ok_def PORT_SLOT_SIZE_def PORT_QUEUE_DEPTH_def)
  have l: "ringbuf_len r \<le> 64" using i s by (simp add: rb_inv_def ringbuf_len_def)
  show ?thesis
  proof (cases "ringbuf_len r = 64")
    case True
    then show ?thesis using ringbuf_push_full [of r] s by simp
  next
    case False
    then have "ringbuf_len r < unat (slot_count r)" using l s by simp
    from ringbuf_push_room [OF i this, of PORT_SLOT_SIZE b] show ?thesis
      using False l s b length_slot_at [OF i, of "write_idx r"] by (auto simp: ring_ok_def PORT_SLOT_SIZE_def PORT_QUEUE_DEPTH_def)
  qed
qed

lemma push_tries_spec:
  assumes r: "ring_ok r" and b: "length b = 64"
  shows "(ringbuf_len r = 64 \<and> push_tries n r b = None) \<or>
    (ringbuf_len r < 64 \<and> (n = 0 \<or> (\<exists>r'. push_tries n r b = Some r' \<and> ring_ok r' \<and> ringbuf_contents r' = ringbuf_contents r @ [b])))"
proof (cases "ringbuf_len r = 64")
  case True
  then have "ringbuf_push r b PORT_SLOT_SIZE = (-1, r)" using push_once [OF assms] by auto
  then have "push_tries n r b = None" by (induction n) simp_all
  then show ?thesis using True by blast
next
  case False
  then show ?thesis using push_once [OF assms] by (cases n) auto
qed

lemma pop_once:
  assumes r: "ring_ok r" and p: "ringbuf_pop r PORT_SLOT_SIZE = (0, b, r')"
  shows "ring_ok r' \<and> ringbuf_contents r = b # ringbuf_contents r'"
proof -
  have i: "rb_inv r" and s: "slot_size r = 64" using r by (simp_all add: ring_ok_def PORT_SLOT_SIZE_def)
  show ?thesis
  proof (cases "ringbuf_contents r")
    case Nil
    then have "ringbuf_len r = 0" by (metis length_contents list.size(3))
    then show ?thesis using ringbuf_pop_empty [of r] p by simp
  next
    case (Cons x xs)
    have "length x = 64" using contents_slot_item [OF i, of x] Cons s by (simp add: slot_item_def)
    then show ?thesis using ringbuf_pop_item [OF i Cons, of PORT_SLOT_SIZE] p r s Cons
      by (auto simp: ring_ok_def PORT_SLOT_SIZE_def)
  qed
qed

lemma new_ring_ok: "ring_ok (the (snd (ringbuf_init (Some zero_ring) PORT_SLOT_SIZE PORT_QUEUE_DEPTH)))"
proof -
  have p: "is_pow2 (64 :: u32)" by (simp add: is_pow2_def)
  then show ?thesis by (simp add: ringbuf_init_def PORT_SLOT_SIZE_def PORT_QUEUE_DEPTH_def ring_ok_def rb_inv_def
      ringbuf_valid_def RINGBUF_MAGIC_def RINGBUF_VERSION_def word_le_nat_alt word_less_nat_alt)
qed

lemma open_inv: "ports_inv st \<Longrightarrow> ports_inv (snd (port_open name flags caller st))"
proof -
  assume i: "ports_inv st"
  have c: "ports_inv (snd (port_create nm caller st))" for nm
  proof (cases "find_index (\<lambda>p. pt_id p = 0) (port_table st)")
    case (Some k)
    then show ?thesis using i new_ring_ok
      by (auto simp: port_create_def port_ok_def zero_port_def PORT_NAME_LEN_def intro!: upd_port_inv)
  qed (simp add: port_create_def i)
  have "ports_inv (upd_port k (\<lambda>p. p\<lparr>pt_refcount := pt_refcount p + 1\<rparr>) st)" for k
    by (rule upd_port_inv [OF i]) (use i in \<open>auto simp: ports_inv_def port_ok_def\<close>)
  then show ?thesis using i c by (auto simp: port_open_def split: option.splits)
qed

lemma close_inv:
  assumes i: "ports_inv st" and c: "port_close now h st = Some st'"
  shows "ports_inv st'"
proof (cases "port_find_by_id h st")
  case (Some k)
  let ?s = "upd_port k (\<lambda>p. if pt_refcount p > 0 then p\<lparr>pt_refcount := pt_refcount p - 1\<rparr> else p) st"
  have 1: "ports_inv ?s"
    by (rule upd_port_inv [OF i]) (use i in \<open>auto simp: ports_inv_def port_ok_def\<close>)
  then have 2: "ports_inv (upd_port k (\<lambda>p. p\<lparr>pt_id := 0\<rparr>) (?s\<lparr>isched := s\<rparr>))" for s
    by (intro upd_port_inv) (auto simp: port_ok_def)
  show ?thesis using c Some 1 2 by (auto simp: port_close_def Let_def split: if_splits option.splits)
qed (use i c in \<open>simp add: port_close_def\<close>)

lemma ring_update_inv:
  "ports_inv st \<Longrightarrow> ring_ok r \<Longrightarrow> ports_inv (upd_port k (\<lambda>p. p\<lparr>pt_ring := r\<rparr>) st)"
  by (rule upd_port_inv) (auto simp: ports_inv_def port_ok_def)

lemma waiter_update_inv: "ports_inv st \<Longrightarrow> ports_inv (upd_port k (\<lambda>p. p\<lparr>waiter := w\<rparr>) st)"
  by (rule upd_port_inv) (auto simp: ports_inv_def port_ok_def)

lemma send_inv:
  assumes i: "ports_inv st" and c: "port_send now h msg len st = Some (rc, st')"
  shows "ports_inv st'"
proof (cases "len = 0 \<or> len > PORT_MSG_MAX \<or> port_find_by_id h st = None")
  case True
  then show ?thesis using i c by (auto simp: port_send_def split: if_splits)
next
  case False
  then obtain k where k: "port_find_by_id h st = Some k" by auto
  obtain r st1 where s: "send_slot msg len st = Some (r, st1)"
    using c False k by (auto simp: port_send_def split: option.splits)
  have i1: "ports_inv st1" using i send_slot_spec [OF s] by (simp add: ports_inv_def)
  show ?thesis
  proof (cases r)
    case None
    then show ?thesis using c False k s i1 by (simp add: port_send_def)
  next
    case (Some sl)
    have ro: "ring_ok (pt_ring (port_table st1 ! k))" using find_by_id_Some [OF i k] send_slot_spec [OF s] by simp
    have "length (slot_bytes sl) = 64" using send_slot_spec [OF s] Some by (simp add: length_slot_bytes)
    from push_tries_spec [OF ro this, of 1000]
    consider "push_tries 1000 (pt_ring (port_table st1 ! k)) (slot_bytes sl) = None"
      | r' where "push_tries 1000 (pt_ring (port_table st1 ! k)) (slot_bytes sl) = Some r'" "ring_ok r'" by auto
    then show ?thesis
    proof cases
      case 1
      then show ?thesis using c False k s i1 Some by (simp add: port_send_def)
    next
      case 2
      have j: "ports_inv (upd_port k (\<lambda>p. p\<lparr>pt_ring := r'\<rparr>) st1)" by (rule ring_update_inv [OF i1 2(2)])
      have "ports_inv (upd_port k (\<lambda>p. p\<lparr>waiter := None\<rparr>) ((upd_port k (\<lambda>p. p\<lparr>pt_ring := r'\<rparr>) st1)\<lparr>isched := s\<rparr>))" for s
        using j by (intro waiter_update_inv) simp
      then show ?thesis using c False k s Some 2(1) j by (auto simp: port_send_def Let_def split: option.splits)
    qed
  qed
qed

lemma recv_inv:
  assumes i: "ports_inv st" and c: "port_recv now h ptrs cap st = Some (r, st')"
  shows "ports_inv st'"
proof (cases "\<not> ptrs \<or> cap < 64 \<or> port_find_by_id h st = None")
  case True
  then show ?thesis using i c by (auto simp: port_recv_def split: if_splits)
next
  case False
  then obtain k where k: "port_find_by_id h st = Some k" by auto
  obtain rc b r' where p: "ringbuf_pop (pt_ring (port_table st ! k)) PORT_SLOT_SIZE = (rc, b, r')" by (metis prod_cases3)
  show ?thesis
  proof (cases "rc = 0")
    case True
    have "ring_ok r'" using pop_once [of "pt_ring (port_table st ! k)" b r'] p True find_by_id_Some [OF i k] by simp
    then have "ports_inv (upd_port k (\<lambda>p. p\<lparr>pt_ring := r'\<rparr>) st)" by (rule ring_update_inv [OF i])
    then show ?thesis using c False k p True by (auto simp: port_recv_def deliver_def Let_def split: option.splits if_splits)
  next
    case nz: False
    then show ?thesis using c False k p i waiter_update_inv [OF i, of k]
      by (auto simp: port_recv_def recv_block_def Let_def split: option.splits)
  qed
qed

inductive port_step :: "ipc \<Rightarrow> ipc \<Rightarrow> bool" where
  "port_step st (snd (port_open name flags caller st))"
| "port_close now h st = Some st' \<Longrightarrow> port_step st st'"
| "port_send now h msg len st = Some (rc, st') \<Longrightarrow> port_step st st'"
| "port_recv now h ptrs cap st = Some (r, st') \<Longrightarrow> port_step st st'"

lemma port_step_inv: "port_step st st' \<Longrightarrow> ports_inv st \<Longrightarrow> ports_inv st'"
  by (induction rule: port_step.induct) (blast intro: open_inv close_inv send_inv recv_inv)+

text \<open>
  C15. The table of ports stays well-typed: from initialisation on, whatever is opened, closed, sent and
  received, a slot is free, or its number is its place in the table plus one, its queue is a
  valid ring of 64 slots of 64 bytes that are all inside its data area, and its name is
  terminated.
\<close>

theorem ports_well_typed:
  assumes "port_step\<^sup>*\<^sup>* (port_subsystem_init st0) st"
  shows "ports_inv st"
  using assms
proof (induction rule: rtranclp_induct)
  case base
  then show ?case by (simp add: ports_inv_def port_subsystem_init_def port_ok_def zero_port_def)
qed (rule port_step_inv)

definition blank_ipc :: ipc where
  "blank_ipc = \<lparr>port_table = [], isched = blank_sched, kmem = (\<lambda>_. 0)\<rparr>"

theorem ports_well_typed_witness:
  "ports_inv (snd (port_open (Some ''log'') 3 1 (port_subsystem_init blank_ipc)))"
  by (rule ports_well_typed [of blank_ipc]) (rule r_into_rtranclp, rule port_step.intros)

lemma le_bytes_word:
  assumes "length bs = k" "8 * k \<le> LENGTH('a)"
  shows "le_bytes k (le_word bs :: 'a::len word) = bs"
proof (rule nth_equalityI)
  fix i assume "i < length (le_bytes k (le_word bs :: 'a word))"
  then have i: "i < k" by simp
  show "le_bytes k (le_word bs :: 'a word) ! i = bs ! i"
  proof (rule bit_word_eqI)
    fix n assume n: "n < LENGTH(8)"
    have "8 * i + n < LENGTH('a)" using i n assms(2) by simp
    then show "bit (le_bytes k (le_word bs :: 'a word) ! i) n = bit (bs ! i) n"
      using i n assms(1) by (simp add: le_bytes_def bit_simps bit_le_word)
  qed
qed (simp add: assms)

lemma bytes_slot_inverse: "bytes_slot (slot_bytes sl) = sl"
  by (simp add: bytes_slot_def slot_bytes_def le_word_bytes)

lemma read_write_kmem: "length d = n \<Longrightarrow> n < 2 ^ 64 \<Longrightarrow> read_kmem p n (write_kmem p d m) = d"
  by (rule nth_equalityI) (simp_all add: read_kmem_def write_kmem_def unat_of_nat_u64)

text \<open>A message whose slot is known, through an empty port without a waiting process.\<close>

lemma send_recv:
  assumes i: "ports_inv st" and k: "port_find_by_id h st = Some k"
    and e: "ringbuf_contents (pt_ring (port_table st ! k)) = []" and w: "waiter (port_table st ! k) = None"
    and len: "len \<noteq> 0" "len \<le> PORT_MSG_MAX" and s: "send_slot msg len st = Some (Some sl, st1)" and cap: "64 \<le> cap"
  shows "\<exists>r r'. port_send now h msg len st = Some (0, upd_port k (\<lambda>p. p\<lparr>pt_ring := r\<rparr>) st1) \<and>
    port_recv now' h True cap (upd_port k (\<lambda>p. p\<lparr>pt_ring := r\<rparr>) st1) =
      deliver sl cap (upd_port k (\<lambda>p. p\<lparr>pt_ring := r'\<rparr>) st1) \<and> ringbuf_contents r' = []"
proof -
  let ?t = "port_table st1"
  have t: "?t = port_table st" "length (payload sl) = 56" using send_slot_spec [OF s] by auto
  have f: "k < MAX_PORTS" "pt_id (?t ! k) = h" "h \<noteq> 0" "h = of_nat (k + 1)" "ring_ok (pt_ring (?t ! k))" using find_by_id_Some [OF i k] t by auto
  have l: "length ?t = MAX_PORTS" using i t by (simp add: ports_inv_def)
  have uh: "unat h - 1 = k" "unat h \<le> MAX_PORTS" using k by (auto simp: port_find_by_id_def split: if_splits)
  have b: "length (slot_bytes sl) = 64" using t(2) by (rule length_slot_bytes)
  have "ringbuf_len (pt_ring (?t ! k)) = 0" using e t by (metis length_contents list.size(3))
  then obtain r where r: "push_tries 1000 (pt_ring (?t ! k)) (slot_bytes sl) = Some r" "ring_ok r" "ringbuf_contents r = [slot_bytes sl]"
    using push_tries_spec [OF f(5) b, of 1000] e t by auto
  let ?st = "upd_port k (\<lambda>p. p\<lparr>pt_ring := r\<rparr>) st1"
  have s1: "port_send now h msg len st = Some (0, ?st)"
    using len k s r(1) w t l f(1) by (simp add: port_send_def Let_def)
  have k1: "port_find_by_id h ?st = Some k" using f uh l by (simp add: port_find_by_id_def)
  have i2: "rb_inv r" "PORT_SLOT_SIZE \<le> slot_size r" "unat PORT_SLOT_SIZE = 64" using r(2) by (simp_all add: ring_ok_def PORT_SLOT_SIZE_def)
  obtain r' where r': "ringbuf_pop r PORT_SLOT_SIZE = (0, slot_bytes sl, r')" "ringbuf_contents r' = []"
    using ringbuf_pop_item [OF i2(1) r(3) i2(2)] i2(3) b by auto
  have "upd_port k (\<lambda>p. p\<lparr>pt_ring := r'\<rparr>) ?st = upd_port k (\<lambda>p. p\<lparr>pt_ring := r'\<rparr>) st1"
    using l f(1) by (simp add: upd_port_def)
  then have "port_recv now' h True cap ?st = deliver sl cap (upd_port k (\<lambda>p. p\<lparr>pt_ring := r'\<rparr>) st1)"
    using leD [OF cap] k1 r'(1) l f(1) by (simp add: port_recv_def bytes_slot_inverse)
  then show ?thesis using s1 r'(2) by blast
qed

lemma ucast_down_up: "unat (x :: u64) < 2 ^ 32 \<Longrightarrow> ucast (ucast x :: u32) = x"
proof -
  assume x: "unat x < 2 ^ 32"
  have "unat (take_bit 32 x) = unat x" unfolding unsigned_take_bit_eq using x by (rule take_bit_nat_eq_self)
  then have "take_bit 32 x = x" by (simp only: unat_eq_unat_iff)
  moreover have "ucast (ucast x :: u32) = take_bit 32 x" by (rule bit_word_eqI) (auto simp: bit_simps)
  ultimately show ?thesis by simp
qed

definition inline_slot :: "u8 list \<Rightarrow> u64 \<Rightarrow> port_slot" where
  "inline_slot msg len = \<lparr>hdr_type = le_word (take 4 msg), hdr_len = ucast len,
     payload = take (unat len - 8) (drop 8 msg) @ replicate (64 - unat len) 0\<rparr>"

lemma inline_deliver:
  assumes "8 \<le> len" "len \<le> PORT_INLINE_MAX" "unat len \<le> length msg" "64 \<le> cap"
  shows "send_slot msg len st = Some (Some (inline_slot msg len), st)"
    and "deliver (inline_slot msg len) cap st' = Some (Message (take 4 msg @ le_bytes 4 (ucast len :: u32) @
      take (unat len - 8) (drop 8 msg) @ replicate 8 0), st')"
proof -
  have u: "8 \<le> unat len" "unat len \<le> 56" "64 \<le> unat cap"
    using assms by (simp_all add: PORT_INLINE_MAX_def word_le_nat_alt)
  have d: "unat (len - 8) = unat len - 8" using u(1) by (simp add: unat_sub word_le_nat_alt)
  have "unat len - 8 < 56" using u by linarith
  then have c: "inline_count len = len - 8" using d by (simp add: inline_count_def PORT_INLINE_MAX_def word_less_nat_alt)
  show "send_slot msg len st = Some (Some (inline_slot msg len), st)"
    using assms(2,3) u by (simp add: send_slot_def inline_slot_def c d Let_def)
  have l: "ucast (ucast len :: u32) = len" using u by (intro ucast_down_up) simp
  have k: "unat (cap - 8) = unat cap - 8" using u(3) by (simp add: unat_sub word_le_nat_alt)
  have n: "unat (if len < cap - 8 then len else cap - 8) = unat len"
  proof (cases "len < cap - 8")
    case False
    then have "unat (cap - 8) = unat len" using u k by (simp add: word_less_nat_alt)
    then show ?thesis using False by simp
  qed simp
  have t: "le_bytes 4 (le_word (take 4 msg) :: u32) = take 4 msg"
    using u assms(3) by (intro le_bytes_word) auto
  have "take (unat len) (take (unat len - 8) (drop 8 msg) @ replicate (64 - unat len) 0) =
      take (unat len - 8) (drop 8 msg) @ replicate 8 (0 :: u8)"
  proof -
    have "length (take (unat len - 8) (drop 8 msg)) = unat len - 8" using u assms(3) by simp
    moreover have "unat len - (unat len - 8) = 8" "8 \<le> 64 - unat len" using u by simp_all
    ultimately show ?thesis using u by (simp only: take_append take_all take_replicate min_absorb1 diff_le_self)
  qed
  then show "deliver (inline_slot msg len) cap st' = Some (Message (take 4 msg @ le_bytes 4 (ucast len :: u32) @
      take (unat len - 8) (drop 8 msg) @ replicate 8 0), st')"
    using assms(2) n by (simp add: deliver_def inline_slot_def l t Let_def)
qed

text \<open>
  C22. A message sent through an empty port arrives. A long message is delivered byte for byte from its
  kernel buffer, which is then released. A short one, which starts with an 8-byte header, arrives
  with its type and payload, but the length field and the delivered length count the header
  twice, so eight zero bytes follow the payload.
\<close>

theorem port_message_arrives:
  assumes i: "ports_inv st" and k: "port_find_by_id h st = Some k"
    and e: "ringbuf_contents (pt_ring (port_table st ! k)) = []" and w: "waiter (port_table st ! k) = None"
    and len: "8 \<le> len" "len \<le> 4096" "unat len \<le> length msg" and cap: "64 \<le> cap" "len \<le> cap"
  shows "(len \<le> 56 \<longrightarrow> (\<exists>st1 st2. port_send now h msg len st = Some (0, st1) \<and>
      port_recv now' h True cap st1 = Some (Message (take 4 msg @ le_bytes 4 (ucast len :: u32) @
        take (unat len - 8) (drop 8 msg) @ replicate 8 0), st2))) \<and>
    (56 < len \<longrightarrow> (\<forall>p h1. kmalloc len (heap (isched st)) = Some (p, h1) \<and> p \<noteq> 0 \<longrightarrow>
      (\<exists>st1. port_send now h msg len st = Some (0, st1) \<and>
        map_option fst (port_recv now' h True cap st1) = map_option (\<lambda>_. Message (take (unat len) msg)) (kfree p h1))))"
proof (intro conjI impI allI)
  have l0: "len \<noteq> 0" "len \<le> PORT_MSG_MAX" using len by (auto simp: PORT_MSG_MAX_def)
  note sr = send_recv [OF i k e w l0 _ cap(1), of msg _ _ now now']
  show "\<exists>st1 st2. port_send now h msg len st = Some (0, st1) \<and>
      port_recv now' h True cap st1 = Some (Message (take 4 msg @ le_bytes 4 (ucast len :: u32) @
        take (unat len - 8) (drop 8 msg) @ replicate 8 0), st2)" if "len \<le> 56"
  proof -
    have m: "len \<le> PORT_INLINE_MAX" using that by (simp add: PORT_INLINE_MAX_def)
    show ?thesis using sr [OF inline_deliver(1) [OF len(1) m len(3) cap(1)]] inline_deliver(2) [OF len(1) m len(3) cap(1)] by metis
  qed
  fix p h1 assume m: "56 < len" and a: "kmalloc len (heap (isched st)) = Some (p, h1) \<and> p \<noteq> 0"
  let ?sl = "\<lparr>hdr_type = le_word (take 4 msg), hdr_len = ucast len, payload = le_bytes 8 p @ replicate 48 0\<rparr>"
  let ?st1 = "st\<lparr>isched := (isched st)\<lparr>heap := h1\<rparr>, kmem := write_kmem p (take (unat len) msg) (kmem st)\<rparr>"
  have "send_slot msg len st = Some (Some ?sl, ?st1)"
    using m a len(3) by (simp add: send_slot_def PORT_INLINE_MAX_def Let_def)
  note s = sr [OF this]
  have u: "unat len \<le> 4096" "56 < unat len" "unat len \<le> unat cap" using len m cap by (simp_all add: word_le_nat_alt word_less_nat_alt)
  have lu: "ucast (ucast len :: u32) = len" using u by (intro ucast_down_up) simp
  have c: "unat (if len < cap then len else cap) = unat len" using u by (simp add: word_less_nat_alt)
  have rd: "read_kmem p (unat len) (write_kmem p (take (unat len) msg) (kmem st)) = take (unat len) msg"
    using len(3) by (intro read_write_kmem) simp_all
  have "map_option fst (deliver ?sl cap (upd_port k f ?st1)) = map_option (\<lambda>_. Message (take (unat len) msg)) (kfree p h1)" for f
    using less_le_not_le [THEN iffD1, OF m] c rd by (simp add: deliver_def lu PORT_INLINE_MAX_def Let_def le_word_bytes split: option.splits)
  then show "\<exists>st1. port_send now h msg len st = Some (0, st1) \<and>
      map_option fst (port_recv now' h True cap st1) = map_option (\<lambda>_. Message (take (unat len) msg)) (kfree p h1)"
    using s by metis
qed

definition log_ipc :: ipc where
  "log_ipc = snd (port_open (Some ''log'') 3 1 (port_subsystem_init blank_ipc))"

lemma log_ipc_table:
  "length (port_table log_ipc) = 1024" "port_table log_ipc ! 0 = zero_port\<lparr>pt_name := ''log'', pt_id := 1, owner_pid := 1, pt_refcount := 1,
      pt_ring := the (snd (ringbuf_init (Some zero_ring) PORT_SLOT_SIZE PORT_QUEUE_DEPTH))\<rparr>"
  "ports_inv log_ipc"
proof -
  let ?s = "port_subsystem_init blank_ipc"
  have z: "pt_id zero_port = 0" by (simp add: zero_port_def)
  have n: "port_find_by_name ''log'' ?s = None"
    by (simp add: port_find_by_name_def find_index_None port_subsystem_init_def z)
  have f: "find_index (\<lambda>p. pt_id p = 0) (port_table ?s) = Some 0"
    by (rule find_index_first) (simp_all add: port_subsystem_init_def z MAX_PORTS_def)
  have o: "log_ipc = snd (port_create ''log'' 1 ?s)"
    by (simp add: log_ipc_def port_open_def n PORT_CREATE_def)
  show "length (port_table log_ipc) = 1024" "port_table log_ipc ! 0 = zero_port\<lparr>pt_name := ''log'', pt_id := 1, owner_pid := 1, pt_refcount := 1,
      pt_ring := the (snd (ringbuf_init (Some zero_ring) PORT_SLOT_SIZE PORT_QUEUE_DEPTH))\<rparr>"
    unfolding o port_create_def f by (simp_all add: upd_port_def port_subsystem_init_def MAX_PORTS_def PORT_NAME_LEN_def)
  have "ports_inv ?s" by (simp add: ports_inv_def port_subsystem_init_def port_ok_def z)
  then show "ports_inv log_ipc" unfolding log_ipc_def by (rule open_inv)
qed

lemma new_ring_empty: "ringbuf_contents (the (snd (ringbuf_init (Some zero_ring) PORT_SLOT_SIZE PORT_QUEUE_DEPTH))) = []"
proof -
  have p: "is_pow2 (64 :: u32)" by (simp add: is_pow2_def)
  then show ?thesis by (simp add: ringbuf_init_def PORT_SLOT_SIZE_def PORT_QUEUE_DEPTH_def ringbuf_contents_def ringbuf_len_def
      word_le_nat_alt word_less_nat_alt)
qed

theorem port_message_arrives_witness:
  "\<exists>st1 st2. port_send 0 1 [7, 0, 0, 0, 2, 0, 0, 0, 65, 66] 10 log_ipc = Some (0, st1) \<and>
     port_recv 0 1 True 64 st1 = Some (Message [7, 0, 0, 0, 10, 0, 0, 0, 65, 66, 0, 0, 0, 0, 0, 0, 0, 0], st2)"
proof -
  note t = log_ipc_table
  have k: "port_find_by_id 1 log_ipc = Some 0" by (simp add: port_find_by_id_def MAX_PORTS_def t)
  have e: "ringbuf_contents (pt_ring (port_table log_ipc ! 0)) = []" "waiter (port_table log_ipc ! 0) = None"
    by (simp_all add: t new_ring_empty) (simp add: zero_port_def)
  have l: "8 \<le> (10 :: u64)" "(10 :: u64) \<le> 4096" "unat (10 :: u64) \<le> length [7, 0, 0, 0, 2, 0, 0, 0, 65, 66 :: u8]"
      "64 \<le> (64 :: u64)" "(10 :: u64) \<le> 64" "(10 :: u64) \<le> 56"
    by (simp_all add: word_le_nat_alt)
  have b: "le_bytes 4 (ucast (10 :: u64) :: u32) = [10, 0, 0, 0]" by code_simp
  have z: "replicate 8 (0 :: u8) = [0, 0, 0, 0, 0, 0, 0, 0]" by (simp add: numeral_eq_Suc)
  show ?thesis using mp [OF conjunct1 [OF port_message_arrives [OF t(3) k e l(1-5), of 0 0]] l(6)] unfolding b z by simp
qed

end
