(* ===== verification/Vfs.thy ===== *)
theory Vfs
  imports Port
begin

text \<open>
  The virtual file system, \<open>src/kernel/vfs/vfs.c\<close> and \<open>vfs.h\<close>: path normalisation, the mount
  table, open nodes and file descriptors. A mounted file system is a record of optional
  operations on a state \<open>'fs\<close>, as the table of function pointers is; its handles are addresses,
  0 the null handle. The descriptor tables of the processes are a function of the process.
  \<open>None\<close> is a call through a null function pointer, a loop that does not end, or signed overflow.
\<close>

section \<open>Constants and state\<close>

definition MAX_FDS :: nat where "MAX_FDS = 256"
definition MAX_VFSNODES :: nat where "MAX_VFSNODES = 1024"
definition MAX_BACKENDS :: nat where "MAX_BACKENDS = 16"
definition VFS_PATH_MAX :: nat where "VFS_PATH_MAX = 256"
definition VFS_BE_NAME_LEN :: nat where "VFS_BE_NAME_LEN = 64"

definition VFS_O_READ :: u32 where "VFS_O_READ = 0x01"
definition VFS_O_WRITE :: u32 where "VFS_O_WRITE = 0x02"
definition VFS_O_CREAT :: u32 where "VFS_O_CREAT = 0x04"
definition VFS_O_TRUNC :: u32 where "VFS_O_TRUNC = 0x08"
definition VFS_O_DIR :: u32 where "VFS_O_DIR = 0x10"

definition VFS_SEEK_SET :: int where "VFS_SEEK_SET = 0"
definition VFS_SEEK_CUR :: int where "VFS_SEEK_CUR = 1"
definition VFS_SEEK_END :: int where "VFS_SEEK_END = 2"

definition VFS_NODE_FILE :: nat where "VFS_NODE_FILE = 1"
definition VFS_NODE_DIR :: nat where "VFS_NODE_DIR = 2"

definition VFS_ERR :: int where "VFS_ERR = -1"
definition VFS_ENOENT :: int where "VFS_ENOENT = -2"
definition VFS_EINVAL :: int where "VFS_EINVAL = -3"
definition VFS_EPERM :: int where "VFS_EPERM = -4"
definition VFS_ENOSPC :: int where "VFS_ENOSPC = -5"
definition VFS_ENODEV :: int where "VFS_ENODEV = -6"
definition VFS_EMFILE :: int where "VFS_EMFILE = -9"

record stat_info =
  si_size :: int
  si_kind :: nat
  si_mtime_ns :: u64
  si_name :: string
  si_uid :: u16
  si_gid :: u16
  si_mode :: u16

text \<open>The name of a directory entry is its whole array of characters, with what a shorter write leaves behind.\<close>

record vfs_dirent =
  de_name :: string
  de_kind :: nat
  de_size :: int

record 'fs vfs_ops =
  op_open :: "(string \<Rightarrow> u32 \<Rightarrow> 'fs \<Rightarrow> u64 \<times> 'fs) option"
  op_close :: "(u64 \<Rightarrow> 'fs \<Rightarrow> 'fs) option"
  op_read :: "(u64 \<Rightarrow> nat \<Rightarrow> 'fs \<Rightarrow> int \<times> u8 list \<times> 'fs) option"
  op_write :: "(u64 \<Rightarrow> u8 list \<Rightarrow> 'fs \<Rightarrow> int \<times> 'fs) option"
  op_seek :: "(u64 \<Rightarrow> int \<Rightarrow> int \<Rightarrow> 'fs \<Rightarrow> int \<times> 'fs) option"
  op_readdir :: "(u64 \<Rightarrow> vfs_dirent list \<Rightarrow> u32 \<Rightarrow> 'fs \<Rightarrow> int \<times> vfs_dirent list \<times> u32 option \<times> 'fs) option"
  op_stat :: "(string \<Rightarrow> stat_info \<Rightarrow> 'fs \<Rightarrow> int \<times> stat_info) option"
  op_unlink :: "(string \<Rightarrow> 'fs \<Rightarrow> int \<times> 'fs) option"
  op_mkdir :: "(string \<Rightarrow> 'fs \<Rightarrow> int \<times> 'fs) option"

record vfsnode =
  node_id :: nat
  n_refcount :: u32
  n_flags :: u32
  n_offset :: u64
  n_size :: int
  n_path :: string
  n_backend :: "nat option"
  n_bctx :: u64
  n_pcb :: "pref option"
  n_ring :: "nat option"
  n_port_id :: u32

record 'fs vfs_backend =
  be_name :: string
  mount_pt :: string
  be_ops :: "'fs vfs_ops"
  be_id :: nat

record 'fs vfs =
  g_nodes :: "vfsnode list"
  g_backends :: "'fs vfs_backend list"
  g_next_node_id :: nat
  fd_tables :: "pref \<Rightarrow> nat \<Rightarrow> nat option"
  vfs_fs :: 'fs
  rings :: "nat \<Rightarrow> ringbuf"
  vfs_ipc :: ipc

definition zero_node :: vfsnode where
  "zero_node = \<lparr>node_id = 0, n_refcount = 0, n_flags = 0, n_offset = 0, n_size = 0, n_path = [], n_backend = None,
     n_bctx = 0, n_pcb = None, n_ring = None, n_port_id = 0\<rparr>"

definition no_ops :: "'fs vfs_ops" where
  "no_ops = \<lparr>op_open = None, op_close = None, op_read = None, op_write = None, op_seek = None, op_readdir = None,
     op_stat = None, op_unlink = None, op_mkdir = None\<rparr>"

definition zero_backend :: "'fs vfs_backend" where
  "zero_backend = \<lparr>be_name = [], mount_pt = [], be_ops = no_ops, be_id = 0\<rparr>"

definition upd_node :: "nat \<Rightarrow> (vfsnode \<Rightarrow> vfsnode) \<Rightarrow> 'fs vfs \<Rightarrow> 'fs vfs" where
  "upd_node i f s = s\<lparr>g_nodes := (g_nodes s)[i := f (g_nodes s ! i)]\<rparr>"

section \<open>Paths\<close>

definition base_name :: "string \<Rightarrow> nat \<Rightarrow> string" where
  "base_name path sz = take (sz - 1) (last_component path path)"

lemma rest_shorter: "p \<noteq> [] \<Longrightarrow> length (dropWhile P p) - Suc 0 < length p"
  using length_dropWhile_le [of P p] by (cases p) (simp_all del: dropWhile.simps)

text \<open>The loop over the components of a path, with the stack of the components kept so far.\<close>

function canon_loop :: "string \<Rightarrow> string list \<Rightarrow> string list option" where
  "canon_loop p stk =
     (if p = [] then Some stk
      else
        let seg = takeWhile (\<lambda>c. c \<noteq> CHR ''/'') p; rest = tl (dropWhile (\<lambda>c. c \<noteq> CHR ''/'') p) in
        if seg = [] \<or> seg = ''.'' then canon_loop rest stk
        else if seg = ''..'' then canon_loop rest (butlast stk)
        else if length stk \<ge> VFS_PATH_MAX div 2 - 1 then None
        else canon_loop rest (stk @ [seg]))"
  by pat_completeness auto
termination
  by (relation "measure (\<lambda>(p, stk). length p)") (auto intro: rest_shorter)

declare canon_loop.simps [simp del]

text \<open>Putting the components together; \<open>None\<close> if the result does not fit.\<close>

fun canon_build :: "nat \<Rightarrow> string list \<Rightarrow> bool \<Rightarrow> string \<Rightarrow> string option" where
  "canon_build sz [] sep out = Some out"
| "canon_build sz (seg # segs) sep out =
     (if length out + length seg + 2 > sz then None
      else canon_build sz segs True (out @ (if sep then ''/'' else []) @ seg))"

definition vfs_canonicalize :: "string option \<Rightarrow> nat \<Rightarrow> string option" where
  "vfs_canonicalize path sz =
     (case path of None \<Rightarrow> None
      | Some path \<Rightarrow>
          if sz = 0 then None
          else if length path \<ge> VFS_PATH_MAX then None
          else (case canon_loop (dropWhile (\<lambda>c. c = CHR ''/'') path) [] of None \<Rightarrow> None
            | Some stk \<Rightarrow> canon_build sz stk False ''/''))"

section \<open>Mounts\<close>

definition mount_matches :: "string \<Rightarrow> string \<Rightarrow> bool" where
  "mount_matches path mp \<longleftrightarrow>
     (if length mp = 1 \<and> hd mp = CHR ''/'' then path \<noteq> [] \<and> hd path = CHR ''/''
      else take (length mp) path = mp \<and>
        (length path = length mp \<or> path ! length mp = CHR ''/''))"

fun find_best :: "string \<Rightarrow> 'fs vfs_backend list \<Rightarrow> nat \<Rightarrow> nat option \<Rightarrow> nat \<Rightarrow> nat option" where
  "find_best path [] i best best_len = best"
| "find_best path (be # bes) i best best_len =
     (if be_id be = 0 then find_best path bes (Suc i) best best_len
      else if \<not> mount_matches path (mount_pt be) then find_best path bes (Suc i) best best_len
      else if length (mount_pt be) > best_len then find_best path bes (Suc i) (Some i) (length (mount_pt be))
      else find_best path bes (Suc i) best best_len)"

definition rel_path :: "string \<Rightarrow> string \<Rightarrow> string" where
  "rel_path path mp =
     (if length mp = 1 \<and> hd mp = CHR ''/'' then path
      else if drop (length mp) path = [] then ''/'' else drop (length mp) path)"

definition find_backend :: "string \<Rightarrow> 'fs vfs \<Rightarrow> (nat \<times> string) option" where
  "find_backend path s =
     (case find_best path (g_backends s) 0 None 0 of None \<Rightarrow> None
      | Some i \<Rightarrow> Some (i, rel_path path (mount_pt (g_backends s ! i))))"

definition vfs_init :: "'fs vfs \<Rightarrow> 'fs vfs" where
  "vfs_init s = s\<lparr>g_nodes := replicate MAX_VFSNODES zero_node, g_backends := replicate MAX_BACKENDS zero_backend,
     g_next_node_id := 1\<rparr>"

definition vfs_mount :: "string option \<Rightarrow> 'fs vfs_ops \<Rightarrow> 'fs vfs \<Rightarrow> nat \<times> 'fs vfs" where
  "vfs_mount mp ops s =
     (case mp of None \<Rightarrow> (0, s)
      | Some mp \<Rightarrow>
          if mp = [] then (0, s)
          else (case find_index (\<lambda>b. be_id b = 0) (g_backends s) of None \<Rightarrow> (0, s)
            | Some i \<Rightarrow> (i + 1, s\<lparr>g_backends := (g_backends s)[i := \<lparr>be_name = take (VFS_BE_NAME_LEN - 1) mp,
                mount_pt = take (VFS_PATH_MAX - 1) mp, be_ops = ops, be_id = i + 1\<rparr>]\<rparr>)))"

section \<open>Nodes and descriptors\<close>

definition alloc_node_id :: "'fs vfs \<Rightarrow> nat \<times> 'fs vfs" where
  "alloc_node_id s =
     (case List.find (\<lambda>c. c \<noteq> 0 \<and> node_id (g_nodes s ! c) = 0)
             (map (\<lambda>i. (g_next_node_id s + i) mod MAX_VFSNODES) [0..<MAX_VFSNODES]) of
        None \<Rightarrow> (0, s)
      | Some c \<Rightarrow>
          let nx = (c + 1) mod MAX_VFSNODES in
          (c, s\<lparr>g_next_node_id := (if nx = 0 then 1 else nx)\<rparr>))"

definition be_close :: "nat \<Rightarrow> u64 \<Rightarrow> 'fs vfs \<Rightarrow> 'fs vfs" where
  "be_close b bctx s =
     (case op_close (be_ops (g_backends s ! b)) of None \<Rightarrow> s | Some f \<Rightarrow> s\<lparr>vfs_fs := f bctx (vfs_fs s)\<rparr>)"

definition new_node :: "nat \<Rightarrow> u32 \<Rightarrow> string \<Rightarrow> nat \<Rightarrow> u64 \<Rightarrow> pref option \<Rightarrow> vfsnode" where
  "new_node nid flags path b bctx caller = zero_node\<lparr>node_id := nid, n_refcount := 1, n_flags := flags, n_offset := 0,
     n_size := -1, n_path := take (VFS_PATH_MAX - 1) path, n_backend := Some b, n_bctx := bctx, n_pcb := caller\<rparr>"

text \<open>
  The size that a file system reports for a new node. The struct it fills is uninitialised in the
  code and zero here; a file system that returns 0 has set the size.
\<close>

definition zero_stat :: stat_info where
  "zero_stat = \<lparr>si_size = 0, si_kind = 0, si_mtime_ns = 0, si_name = [], si_uid = 0, si_gid = 0, si_mode = 0\<rparr>"

definition node_stat_size :: "nat \<Rightarrow> string \<Rightarrow> 'fs vfs \<Rightarrow> int \<Rightarrow> int" where
  "node_stat_size b rel s sz =
     (case op_stat (be_ops (g_backends s ! b)) of None \<Rightarrow> sz
      | Some f \<Rightarrow> (case f rel zero_stat (vfs_fs s) of (rc, st) \<Rightarrow> if rc = 0 then si_size st else sz))"

text \<open>The descriptor under which a node is installed, 0 if there is none left.\<close>

definition install_fd :: "nat \<Rightarrow> pref option \<Rightarrow> 'fs vfs \<Rightarrow> u32 \<times> 'fs vfs" where
  "install_fd nid caller s =
     (case caller of None \<Rightarrow> (of_nat (nid + MAX_FDS), s)
      | Some p \<Rightarrow> (case List.find (\<lambda>i. fd_tables s p i = None) [1..<MAX_FDS] of None \<Rightarrow> (0, s)
          | Some d \<Rightarrow> (of_nat d, s\<lparr>fd_tables := (fd_tables s)(p := (fd_tables s p)(d := Some nid))\<rparr>)))"

definition open_node :: "string \<Rightarrow> string \<Rightarrow> u32 \<Rightarrow> pref option \<Rightarrow> nat \<Rightarrow> u64 \<Rightarrow> 'fs vfs \<Rightarrow> u32 \<times> 'fs vfs" where
  "open_node path rel flags caller b bctx s =
     (case alloc_node_id s of (nid, s) \<Rightarrow>
        if nid = 0 then (of_int VFS_EMFILE, be_close b bctx s)
        else
          let s = upd_node nid (\<lambda>_. new_node nid flags path b bctx caller) s;
              s = upd_node nid (\<lambda>n. n\<lparr>n_size := node_stat_size b rel s (n_size n)\<rparr>) s in
          (case install_fd nid caller s of (d, s) \<Rightarrow>
             if d = 0 then (of_int VFS_EMFILE, be_close b bctx (upd_node nid (\<lambda>n. n\<lparr>node_id := 0\<rparr>) s))
             else (d, s)))"

definition vfs_open :: "string option \<Rightarrow> u32 \<Rightarrow> pref option \<Rightarrow> 'fs vfs \<Rightarrow> u32 \<times> 'fs vfs" where
  "vfs_open path flags caller s =
     (if path = None \<or> path = Some [] then (of_int VFS_EINVAL, s)
      else (case vfs_canonicalize path VFS_PATH_MAX of None \<Rightarrow> (of_int VFS_EINVAL, s)
        | Some canon \<Rightarrow>
            let flags = (if (flags AND (VFS_O_READ OR VFS_O_WRITE)) = 0 then flags OR VFS_O_READ else flags) in
            (case find_backend canon s of None \<Rightarrow> (of_int VFS_ENOENT, s)
             | Some (b, rel) \<Rightarrow>
                 (case op_open (be_ops (g_backends s ! b)) of None \<Rightarrow> (of_int VFS_ENOENT, s)
                  | Some f \<Rightarrow>
                      (case f rel flags (vfs_fs s) of (bctx, fs) \<Rightarrow>
                         if bctx = 0 then (of_int VFS_ENOENT, s\<lparr>vfs_fs := fs\<rparr>)
                         else open_node canon rel flags caller b bctx (s\<lparr>vfs_fs := fs\<rparr>))))))"

definition vfs_current :: "'fs vfs \<Rightarrow> pref option" where
  "vfs_current s = sched_current (isched (vfs_ipc s))"

text \<open>The node of a descriptor, as every operation on an open file looks it up.\<close>

definition node_of_fd :: "u32 \<Rightarrow> 'fs vfs \<Rightarrow> nat option" where
  "node_of_fd d s =
     (if unat d \<ge> MAX_FDS then
        let nid = unat (d - of_nat MAX_FDS) in
        if nid \<ge> MAX_VFSNODES \<or> node_id (g_nodes s ! nid) \<noteq> nid then None else Some nid
      else (case vfs_current s of None \<Rightarrow> None | Some cur \<Rightarrow> fd_tables s cur (unat d)))"

definition release_node :: "nat \<Rightarrow> 'fs vfs \<Rightarrow> 'fs vfs" where
  "release_node i s =
     (let s = upd_node i (\<lambda>n. n\<lparr>n_refcount := n_refcount n - 1\<rparr>) s; n = g_nodes s ! i in
      if n_refcount n = 0
      then upd_node i (\<lambda>n. n\<lparr>node_id := 0\<rparr>) (case n_backend n of None \<Rightarrow> s | Some b \<Rightarrow> be_close b (n_bctx n) s)
      else s)"

definition vfs_close :: "u32 \<Rightarrow> 'fs vfs \<Rightarrow> int \<times> 'fs vfs" where
  "vfs_close d s =
     (if d = 0 then (VFS_EINVAL, s)
      else (case node_of_fd d s of None \<Rightarrow> (VFS_EINVAL, s)
        | Some i \<Rightarrow>
            let s = (if unat d \<ge> MAX_FDS then s
                     else (case vfs_current s of None \<Rightarrow> s
                       | Some cur \<Rightarrow> s\<lparr>fd_tables := (fd_tables s)(cur := (fd_tables s cur)(unat d := None))\<rparr>)) in
            (0, release_node i s)))"

section \<open>Data\<close>

text \<open>The loops that move a stretch of bytes slot by slot out of and into a ring.\<close>

partial_function (option) ring_read :: "nat \<Rightarrow> u8 list \<Rightarrow> ringbuf \<Rightarrow> (u8 list \<times> ringbuf) option" where
  "ring_read n acc r =
     (if length acc < n then
        let chunk = (if n - length acc > unat (slot_size r) then unat (slot_size r) else n - length acc) in
        (case ringbuf_pop r (of_nat chunk) of (rc, b, r') \<Rightarrow>
           if rc \<noteq> 0 then Some (acc, r') else ring_read n (acc @ b) r')
      else Some (acc, r))"

partial_function (option) ring_write :: "u8 list \<Rightarrow> nat \<Rightarrow> ringbuf \<Rightarrow> (nat \<times> ringbuf) option" where
  "ring_write dat done_n r =
     (if done_n < length dat then
        let n = length dat - done_n; chunk = (if n > unat (slot_size r) then unat (slot_size r) else n) in
        (case ringbuf_push r (drop done_n dat) (of_nat chunk) of (rc, r') \<Rightarrow>
           if rc \<noteq> 0 then Some (done_n, r') else ring_write dat (done_n + chunk) r')
      else Some (done_n, r))"

definition vfs_read :: "u32 \<Rightarrow> bool \<Rightarrow> nat \<Rightarrow> bool \<Rightarrow> 'fs vfs \<Rightarrow> (int \<times> u8 list \<times> 'fs vfs) option" where
  "vfs_read d buf n got s =
     (if d = 0 \<or> \<not> buf then Some (VFS_EINVAL, [], s)
      else (case node_of_fd d s of None \<Rightarrow> Some (VFS_EINVAL, [], s)
        | Some i \<Rightarrow>
            let node = g_nodes s ! i in
            (case n_ring node of
               Some r \<Rightarrow> (case ring_read n [] (rings s r) of None \<Rightarrow> None
                 | Some (dat, rb) \<Rightarrow> Some (if length dat > 0 then 0 else VFS_ERR, dat, s\<lparr>rings := (rings s)(r := rb)\<rparr>))
             | None \<Rightarrow>
                 (case n_backend node of None \<Rightarrow> Some (VFS_EPERM, [], s)
                  | Some b \<Rightarrow>
                      (case op_read (be_ops (g_backends s ! b)) of None \<Rightarrow> Some (VFS_EPERM, [], s)
                       | Some f \<Rightarrow>
                           (case f (n_bctx node) n (vfs_fs s) of (rc, dat, fs) \<Rightarrow>
                              let s = s\<lparr>vfs_fs := fs\<rparr> in
                              Some (rc, dat, if rc = 0 \<and> got
                                then upd_node i (\<lambda>nd. nd\<lparr>n_offset := n_offset nd + of_nat (length dat)\<rparr>) s else s)))))))"

definition vfs_write :: "u64 \<Rightarrow> u32 \<Rightarrow> u8 list option \<Rightarrow> 'fs vfs \<Rightarrow> (int \<times> 'fs vfs) option" where
  "vfs_write now d buf s =
     (if d = 0 \<or> buf = None \<or> buf = Some [] then Some (VFS_EINVAL, s)
      else (case node_of_fd d s of None \<Rightarrow> Some (VFS_EINVAL, s)
        | Some i \<Rightarrow>
            let node = g_nodes s ! i; dat = the buf in
            (case n_ring node of
               Some r \<Rightarrow> (case ring_write dat 0 (rings s r) of None \<Rightarrow> None
                 | Some (done_n, rb) \<Rightarrow> Some (if done_n > 0 then 0 else VFS_ERR, s\<lparr>rings := (rings s)(r := rb)\<rparr>))
             | None \<Rightarrow>
                 if n_port_id node \<noteq> 0 then
                   (case port_send now (n_port_id node) dat (of_nat (length dat)) (vfs_ipc s) of None \<Rightarrow> None
                    | Some (rc, p) \<Rightarrow> Some (rc, s\<lparr>vfs_ipc := p\<rparr>))
                 else
                   (case n_backend node of None \<Rightarrow> Some (VFS_EPERM, s)
                    | Some b \<Rightarrow>
                        (case op_write (be_ops (g_backends s ! b)) of None \<Rightarrow> Some (VFS_EPERM, s)
                         | Some f \<Rightarrow>
                             (case f (n_bctx node) dat (vfs_fs s) of (rc, fs) \<Rightarrow>
                                let s = s\<lparr>vfs_fs := fs\<rparr> in
                                Some (rc, if rc = 0
                                  then upd_node i (\<lambda>nd. nd\<lparr>n_offset := n_offset nd + of_nat (length dat)\<rparr>) s else s)))))))"

definition in_int64 :: "int \<Rightarrow> bool" where "in_int64 x \<longleftrightarrow> - (2 ^ 63) \<le> x \<and> x < 2 ^ 63"

text \<open>The target of a seek without help from a file system; \<open>None\<close> inside is an unknown \<open>whence\<close>.\<close>

definition seek_target :: "vfsnode \<Rightarrow> int \<Rightarrow> int \<Rightarrow> int + int" where
  "seek_target node off whence =
     (if whence = VFS_SEEK_SET then Inr off
      else if whence = VFS_SEEK_CUR then Inr (sint (n_offset node) + off)
      else if whence = VFS_SEEK_END then if n_size node < 0 then Inl VFS_ERR else Inr (n_size node + off)
      else Inl VFS_EINVAL)"

definition vfs_seek :: "u32 \<Rightarrow> int \<Rightarrow> int \<Rightarrow> 'fs vfs \<Rightarrow> (int \<times> 'fs vfs) option" where
  "vfs_seek d off whence s =
     (if d = 0 then Some (VFS_EINVAL, s)
      else (case node_of_fd d s of None \<Rightarrow> Some (VFS_EINVAL, s)
        | Some i \<Rightarrow>
            let node = g_nodes s ! i in
            (case (case n_backend node of None \<Rightarrow> None | Some b \<Rightarrow> op_seek (be_ops (g_backends s ! b))) of
               Some f \<Rightarrow>
                 (case f (n_bctx node) off whence (vfs_fs s) of (rc, fs) \<Rightarrow>
                    let s = s\<lparr>vfs_fs := fs\<rparr> in
                    Some (rc, if rc \<ge> 0 then upd_node i (\<lambda>nd. nd\<lparr>n_offset := of_int rc\<rparr>) s else s))
             | None \<Rightarrow>
                 (case seek_target node off whence of Inl e \<Rightarrow> Some (e, s)
                  | Inr new_off \<Rightarrow>
                      if \<not> in_int64 new_off then None
                      else if new_off < 0 then Some (VFS_EINVAL, s)
                      else Some (new_off, upd_node i (\<lambda>nd. nd\<lparr>n_offset := of_int new_off\<rparr>) s)))))"

section \<open>Operations on paths\<close>

definition vfs_stat :: "string option \<Rightarrow> stat_info option \<Rightarrow> 'fs vfs \<Rightarrow> int \<times> stat_info option" where
  "vfs_stat path out s =
     (if path = None \<or> out = None then (VFS_EINVAL, out)
      else (case vfs_canonicalize path VFS_PATH_MAX of None \<Rightarrow> (VFS_EINVAL, out)
        | Some canon \<Rightarrow>
            (case find_backend canon s of None \<Rightarrow> (VFS_ENOENT, out)
             | Some (b, rel) \<Rightarrow>
                 (case op_stat (be_ops (g_backends s ! b)) of None \<Rightarrow> (VFS_ENOENT, out)
                  | Some f \<Rightarrow> (case f rel (the out) (vfs_fs s) of (rc, st) \<Rightarrow> (rc, Some st))))))"

definition vfs_unlink :: "string option \<Rightarrow> 'fs vfs \<Rightarrow> int \<times> 'fs vfs" where
  "vfs_unlink path s =
     (if path = None \<or> path = Some [] then (VFS_EINVAL, s)
      else (case vfs_canonicalize path VFS_PATH_MAX of None \<Rightarrow> (VFS_EINVAL, s)
        | Some canon \<Rightarrow>
            (case find_backend canon s of None \<Rightarrow> (VFS_ENODEV, s)
             | Some (b, rel) \<Rightarrow>
                 (case op_unlink (be_ops (g_backends s ! b)) of None \<Rightarrow> (VFS_ENODEV, s)
                  | Some f \<Rightarrow> (case f rel (vfs_fs s) of (rc, fs) \<Rightarrow> (rc, s\<lparr>vfs_fs := fs\<rparr>))))))"

definition vfs_mkdir :: "string option \<Rightarrow> 'fs vfs \<Rightarrow> int \<times> 'fs vfs" where
  "vfs_mkdir path s =
     (if path = None \<or> path = Some [] then (VFS_EINVAL, s)
      else (case vfs_canonicalize path VFS_PATH_MAX of None \<Rightarrow> (VFS_EINVAL, s)
        | Some canon \<Rightarrow>
            (case find_backend canon s of None \<Rightarrow> (VFS_ENODEV, s)
             | Some (b, rel) \<Rightarrow>
                 (case op_mkdir (be_ops (g_backends s ! b)) of None \<Rightarrow> (VFS_ENODEV, s)
                  | Some f \<Rightarrow> (case f rel (vfs_fs s) of (rc, fs) \<Rightarrow> (rc, s\<lparr>vfs_fs := fs\<rparr>))))))"

text \<open>Reading a directory: the path is used as it is given.\<close>

definition vfs_readdir ::
    "string option \<Rightarrow> vfs_dirent list option \<Rightarrow> u32 \<Rightarrow> 'fs vfs \<Rightarrow> (int \<times> vfs_dirent list option \<times> u32 option \<times> 'fs vfs) option" where
  "vfs_readdir path buf cap s =
     (if path = None \<or> buf = None then Some (VFS_EINVAL, buf, None, s)
      else (case find_backend (the path) s of None \<Rightarrow> Some (VFS_ENODEV, buf, None, s)
        | Some (b, rel) \<Rightarrow>
            let ops = be_ops (g_backends s ! b) in
            (case op_readdir ops of None \<Rightarrow> Some (VFS_ENODEV, buf, None, s)
             | Some rd \<Rightarrow>
                 (case op_open ops of None \<Rightarrow> None
                  | Some op \<Rightarrow>
                      (case op rel (VFS_O_READ OR VFS_O_DIR) (vfs_fs s) of (dctx, fs) \<Rightarrow>
                         if dctx = 0 then Some (VFS_ENOENT, buf, None, s\<lparr>vfs_fs := fs\<rparr>)
                         else (case rd dctx (the buf) cap fs of (rc, es, n, fs) \<Rightarrow>
                           (case op_close ops of None \<Rightarrow> None
                            | Some cl \<Rightarrow> Some (rc, Some es, n, s\<lparr>vfs_fs := cl dctx fs\<rparr>))))))))"

definition vfs_register_ring :: "string option \<Rightarrow> nat option \<Rightarrow> 'fs vfs \<Rightarrow> int \<times> 'fs vfs" where
  "vfs_register_ring path ring s =
     (case (path, ring) of
        (Some path, Some r) \<Rightarrow>
          (case alloc_node_id s of (nid, s) \<Rightarrow>
             if nid = 0 then (VFS_EMFILE, s)
             else (0, upd_node nid (\<lambda>_. zero_node\<lparr>node_id := nid, n_refcount := 1, n_flags := VFS_O_READ OR VFS_O_WRITE,
               n_size := -1, n_path := take (VFS_PATH_MAX - 1) path, n_ring := Some r\<rparr>) s))
      | _ \<Rightarrow> (VFS_EINVAL, s))"

definition vfs_unregister_node :: "string option \<Rightarrow> 'fs vfs \<Rightarrow> int \<times> 'fs vfs" where
  "vfs_unregister_node path s =
     (case path of None \<Rightarrow> (VFS_EINVAL, s)
      | Some path \<Rightarrow> (case find_index (\<lambda>n. node_id n \<noteq> 0 \<and> n_path n = path) (g_nodes s) of
            None \<Rightarrow> (VFS_ENOENT, s)
          | Some i \<Rightarrow> (0, upd_node i (\<lambda>n. n\<lparr>node_id := 0\<rparr>) s)))"

section \<open>Normal paths\<close>

definition good_seg :: "string \<Rightarrow> bool" where
  "good_seg s \<longleftrightarrow> s \<noteq> [] \<and> CHR ''/'' \<notin> set s \<and> s \<noteq> ''.'' \<and> s \<noteq> ''..''"

text \<open>Components joined by slashes, and the path they make.\<close>

fun join_segs :: "string list \<Rightarrow> string" where
  "join_segs [] = []"
| "join_segs [s] = s"
| "join_segs (s # t # ss) = s @ ''/'' @ join_segs (t # ss)"

lemma good_seg_take: "takeWhile (\<lambda>c. c \<noteq> CHR ''/'') p \<noteq> [] \<Longrightarrow> takeWhile (\<lambda>c. c \<noteq> CHR ''/'') p \<noteq> ''.'' \<Longrightarrow>
    takeWhile (\<lambda>c. c \<noteq> CHR ''/'') p \<noteq> ''..'' \<Longrightarrow> good_seg (takeWhile (\<lambda>c. c \<noteq> CHR ''/'') p)"
  unfolding good_seg_def using set_takeWhileD [of "CHR ''/''" "\<lambda>c. c \<noteq> CHR ''/''" p] by blast

lemma canon_step:
  assumes "p \<noteq> []"
  defines "seg \<equiv> takeWhile (\<lambda>c. c \<noteq> CHR ''/'') p" and "rest \<equiv> tl (dropWhile (\<lambda>c. c \<noteq> CHR ''/'') p)"
  shows "seg = [] \<or> seg = ''.'' \<Longrightarrow> canon_loop p stk = canon_loop rest stk"
    and "\<not> (seg = [] \<or> seg = ''.'') \<Longrightarrow> seg = ''..'' \<Longrightarrow> canon_loop p stk = canon_loop rest (butlast stk)"
    and "\<not> (seg = [] \<or> seg = ''.'') \<Longrightarrow> seg \<noteq> ''..'' \<Longrightarrow>
      canon_loop p stk = (if length stk \<ge> 127 then None else canon_loop rest (stk @ [seg]))"
proof -
  have e: "canon_loop p stk = (if seg = [] \<or> seg = ''.'' then canon_loop rest stk
      else if seg = ''..'' then canon_loop rest (butlast stk)
      else if length stk \<ge> 127 then None else canon_loop rest (stk @ [seg]))"
    using assms(1) unfolding canon_loop.simps [of p stk] Let_def seg_def [symmetric] rest_def [symmetric] VFS_PATH_MAX_def by simp
  show "seg = [] \<or> seg = ''.'' \<Longrightarrow> canon_loop p stk = canon_loop rest stk" unfolding e by (simp only: if_True)
  show "\<not> (seg = [] \<or> seg = ''.'') \<Longrightarrow> seg = ''..'' \<Longrightarrow> canon_loop p stk = canon_loop rest (butlast stk)"
    unfolding e by (simp only: if_True if_False simp_thms)
  show "\<not> (seg = [] \<or> seg = ''.'') \<Longrightarrow> seg \<noteq> ''..'' \<Longrightarrow>
      canon_loop p stk = (if length stk \<ge> 127 then None else canon_loop rest (stk @ [seg]))"
    unfolding e by (simp only: if_True if_False)
qed

lemma canon_loop_good:
  "canon_loop p stk = Some segs \<Longrightarrow> \<forall>s \<in> set stk. good_seg s \<Longrightarrow> length stk \<le> 127 \<Longrightarrow>
     (\<forall>s \<in> set segs. good_seg s) \<and> length segs \<le> 127"
proof (induction "length p" arbitrary: p stk rule: less_induct)
  case less
  let ?seg = "takeWhile (\<lambda>c. c \<noteq> CHR ''/'') p"
  let ?rest = "tl (dropWhile (\<lambda>c. c \<noteq> CHR ''/'') p)"
  show ?case
  proof (cases "p = []")
    case True
    then show ?thesis using less.prems by (simp add: canon_loop.simps)
  next
    case p: False
    have r: "length ?rest < length p" using rest_shorter [OF p] by simp
    note step = canon_step [OF p, of stk]
    consider "?seg = [] \<or> ?seg = ''.''" | "\<not> (?seg = [] \<or> ?seg = ''.'')" "?seg = ''..''"
      | "\<not> (?seg = [] \<or> ?seg = ''.'')" "?seg \<noteq> ''..''" by blast
    then show ?thesis
    proof cases
      case 1
      show ?thesis by (rule less.hyps [OF r]) (use step(1) [OF 1] less.prems in auto)
    next
      case 2
      show ?thesis by (rule less.hyps [OF r, of "butlast stk"]) (use step(2) [OF 2] less.prems in \<open>auto dest: in_set_butlastD\<close>)
    next
      case 3
      have e: "length stk < 127" "canon_loop ?rest (stk @ [?seg]) = Some segs"
        using step(3) [OF 3] less.prems(1) by (auto split: if_splits)
      have g: "good_seg ?seg" using 3 by (intro good_seg_take) auto
      show ?thesis by (rule less.hyps [OF r e(2)]) (use e(1) g less.prems(2) in auto)
    qed
  qed
qed

lemma take_good_seg: "good_seg s \<Longrightarrow> takeWhile (\<lambda>c. c \<noteq> CHR ''/'') (s @ CHR ''/'' # r) = s \<and>
    tl (dropWhile (\<lambda>c. c \<noteq> CHR ''/'') (s @ CHR ''/'' # r)) = r"
proof -
  assume "good_seg s"
  then have "\<forall>c \<in> set s. c \<noteq> CHR ''/''" by (auto simp: good_seg_def)
  then show ?thesis by simp
qed

lemma take_last_seg: "good_seg s \<Longrightarrow> takeWhile (\<lambda>c. c \<noteq> CHR ''/'') s = s \<and> dropWhile (\<lambda>c. c \<noteq> CHR ''/'') s = []"
  by (auto simp: good_seg_def)

lemma canon_loop_join:
  "\<forall>s \<in> set segs. good_seg s \<Longrightarrow> length stk + length segs \<le> 127 \<Longrightarrow> canon_loop (join_segs segs) stk = Some (stk @ segs)"
proof (induction segs arbitrary: stk rule: join_segs.induct)
  case 1
  then show ?case by (simp add: canon_loop.simps)
next
  case (2 s)
  then have g: "good_seg s" and l: "length stk < 127" by simp_all
  have n: "s \<noteq> []" "\<not> (s = [] \<or> s = ''.'')" "s \<noteq> ''..''" using g by (auto simp: good_seg_def)
  note w = take_last_seg [OF g]
  have "canon_loop s stk = canon_loop [] (stk @ [s])"
    using canon_step(3) [OF n(1), of stk] w n(2,3) l by simp
  then show ?case by (simp add: canon_loop.simps [of "[]"])
next
  case (3 s t ss)
  then have g: "good_seg s" and l: "length stk < 127" by simp_all
  let ?p = "s @ CHR ''/'' # join_segs (t # ss)"
  have n: "?p \<noteq> []" "\<not> (s = [] \<or> s = ''.'')" "s \<noteq> ''..''" using g by (auto simp: good_seg_def)
  note w = take_good_seg [OF g, of "join_segs (t # ss)"]
  have "canon_loop ?p stk = canon_loop (join_segs (t # ss)) (stk @ [s])"
    using canon_step(3) [OF n(1), of stk] conjunct1 [OF w] conjunct2 [OF w] n(2,3) l by simp
  moreover have "canon_loop (join_segs (t # ss)) (stk @ [s]) = Some ((stk @ [s]) @ t # ss)" by (rule "3.IH") (use 3 in auto)
  ultimately show ?case by simp
qed

lemma canon_build_join:
  "canon_build sz segs sep acc = Some r \<Longrightarrow> r = acc @ (if sep \<and> segs \<noteq> [] then ''/'' else []) @ join_segs segs \<and>
     (length acc < sz \<longrightarrow> length r < sz)"
proof (induction segs arbitrary: sep acc rule: join_segs.induct)
  case (2 s)
  then show ?case by (auto split: if_splits)
next
  case (3 s t ss)
  have "canon_build sz (t # ss) True (acc @ (if sep then ''/'' else []) @ s) = Some r" "length acc + length s + 2 \<le> sz"
    using "3.prems" by (auto split: if_splits)
  with "3.IH" [of True "acc @ (if sep then ''/'' else []) @ s"] show ?case by (auto split: if_splits)
qed simp

lemma drop_slash_join: "\<forall>s \<in> set segs. good_seg s \<Longrightarrow> dropWhile (\<lambda>c. c = CHR ''/'') (join_segs segs) = join_segs segs"
proof (cases segs)
  case (Cons s ss)
  assume "\<forall>s \<in> set segs. good_seg s"
  then obtain c cs where "s = c # cs" "c \<noteq> CHR ''/''" using Cons by (cases s) (auto simp: good_seg_def)
  then show ?thesis using Cons by (cases ss) simp_all
qed simp

lemma canonicalize_form:
  assumes "vfs_canonicalize path sz = Some c" "2 \<le> sz"
  obtains segs where "c = CHR ''/'' # join_segs segs" "\<forall>s \<in> set segs. good_seg s" "length segs \<le> 127" "length c < sz"
    "canon_build sz segs False ''/'' = Some c"
proof -
  obtain p segs where p: "canon_loop p [] = Some segs" and b: "canon_build sz segs False ''/'' = Some c"
    using assms(1) by (auto simp: vfs_canonicalize_def split: option.splits if_splits)
  show thesis
    by (rule that [of segs]) (use canon_loop_good [OF p] canon_build_join [OF b] b assms(2) in auto)
qed

lemma canonicalize_again:
  assumes "vfs_canonicalize path sz = Some c" "2 \<le> sz" "sz \<le> VFS_PATH_MAX"
  shows "vfs_canonicalize (Some c) sz = Some c"
proof -
  obtain segs where s: "c = CHR ''/'' # join_segs segs" "\<forall>s \<in> set segs. good_seg s" "length segs \<le> 127" "length c < sz"
    "canon_build sz segs False ''/'' = Some c" using canonicalize_form [OF assms(1,2)] .
  have "canon_loop (dropWhile (\<lambda>c. c = CHR ''/'') c) [] = Some segs"
    using s(1) drop_slash_join [OF s(2)] canon_loop_join [OF s(2), of "[]"] s(3) by simp
  then show ?thesis using s(4,5) assms(2,3) by (simp add: vfs_canonicalize_def)
qed

section \<open>The longest mount point\<close>

definition serves :: "string \<Rightarrow> 'fs vfs_backend \<Rightarrow> bool" where
  "serves path b \<longleftrightarrow> be_id b \<noteq> 0 \<and> mount_matches path (mount_pt b)"

lemma find_best_spec:
  "(find_best path bes i best blen = best \<and> (\<forall>b \<in> set bes. serves path b \<longrightarrow> length (mount_pt b) \<le> blen)) \<or>
   (\<exists>j < length bes. find_best path bes i best blen = Some (i + j) \<and> serves path (bes ! j) \<and> blen < length (mount_pt (bes ! j)) \<and>
      (\<forall>b \<in> set bes. serves path b \<longrightarrow> length (mount_pt b) \<le> length (mount_pt (bes ! j))))"
proof (induction bes arbitrary: i best blen)
  case (Cons be bes)
  show ?case
  proof (cases "serves path be \<and> length (mount_pt be) > blen")
    case True
    then have e: "find_best path (be # bes) i best blen = find_best path bes (Suc i) (Some i) (length (mount_pt be))"
      by (simp add: serves_def)
    from Cons.IH [of "Suc i" "Some i" "length (mount_pt be)"] show ?thesis
    proof (elim disjE exE conjE)
      assume "find_best path bes (Suc i) (Some i) (length (mount_pt be)) = Some i"
        "\<forall>b \<in> set bes. serves path b \<longrightarrow> length (mount_pt b) \<le> length (mount_pt be)"
      then show ?thesis using True e by (intro disjI2 exI [of _ 0]) auto
    next
      fix j assume "j < length bes" "find_best path bes (Suc i) (Some i) (length (mount_pt be)) = Some (Suc i + j)" "serves path (bes ! j)"
        "length (mount_pt be) < length (mount_pt (bes ! j))"
        "\<forall>b \<in> set bes. serves path b \<longrightarrow> length (mount_pt b) \<le> length (mount_pt (bes ! j))"
      then show ?thesis using True e by (intro disjI2 exI [of _ "Suc j"]) auto
    qed
  next
    case False
    then have e: "find_best path (be # bes) i best blen = find_best path bes (Suc i) best blen"
      by (auto simp: serves_def)
    from Cons.IH [of "Suc i" best blen] show ?thesis
    proof (elim disjE exE conjE)
      assume "find_best path bes (Suc i) best blen = best" "\<forall>b \<in> set bes. serves path b \<longrightarrow> length (mount_pt b) \<le> blen"
      then show ?thesis using False e by (intro disjI1) auto
    next
      fix j assume "j < length bes" "find_best path bes (Suc i) best blen = Some (Suc i + j)" "serves path (bes ! j)"
        "blen < length (mount_pt (bes ! j))"
        "\<forall>b \<in> set bes. serves path b \<longrightarrow> length (mount_pt b) \<le> length (mount_pt (bes ! j))"
      then show ?thesis using False e by (intro disjI2 exI [of _ "Suc j"]) auto
    qed
  qed
qed simp

lemma rel_path_spec:
  "mount_matches path mp \<Longrightarrow> mp \<noteq> [] \<Longrightarrow> (mp = ''/'' \<and> rel_path path mp = path) \<or>
     (path = mp \<and> rel_path path mp = ''/'') \<or> (path = mp @ rel_path path mp \<and> hd (rel_path path mp) = CHR ''/'')"
proof -
  assume m: "mount_matches path mp" and n: "mp \<noteq> []"
  show ?thesis
  proof (cases "length mp = 1 \<and> hd mp = CHR ''/''")
    case True
    then have "mp = ''/''" by (cases mp) auto
    then show ?thesis by (simp add: rel_path_def)
  next
    case False
    then have t: "take (length mp) path = mp" "length path = length mp \<or> path ! length mp = CHR ''/''"
      using m by (auto simp: mount_matches_def)
    show ?thesis
    proof (cases "drop (length mp) path = []")
      case True
      then have "path = mp" using t(1) by (metis append_Nil2 append_take_drop_id)
      then show ?thesis using False by (auto simp: rel_path_def)
    next
      case d: False
      then have "hd (drop (length mp) path) = CHR ''/''" using t(2) by (auto simp: hd_drop_conv_nth)
      moreover have "path = mp @ drop (length mp) path" using t(1) by (metis append_take_drop_id)
      moreover have "rel_path path mp = drop (length mp) path" using False d unfolding rel_path_def by (simp only: if_False)
      ultimately show ?thesis by simp
    qed
  qed
qed

end
