(* ===== verification/VfsInv.thy ===== *)
theory VfsInv imports Vfs begin

text \<open>
  What the virtual file system guarantees: paths are resolved the way a user reads them, a path is
  served by its longest mount, and descriptors never share or outlive their nodes.
\<close>


section \<open>Resolving a path\<close>

text \<open>The reference: split at the slashes, then walk down the tree one component at a time.\<close>

fun split_slash :: "string \<Rightarrow> string list" where
  "split_slash [] = [[]]"
| "split_slash (c # cs) = (if c = CHR ''/'' then [] # split_slash cs
     else (case split_slash cs of [] \<Rightarrow> [[c]] | s # ss \<Rightarrow> (c # s) # ss))"

definition walk :: "string list \<Rightarrow> string \<Rightarrow> string list" where
  "walk stk seg = (if seg = [] \<or> seg = ''.'' then stk else if seg = ''..'' then butlast stk else stk @ [seg])"

lemma split_slash_take: "split_slash p = takeWhile (\<lambda>c. c \<noteq> CHR ''/'') p #
    (if dropWhile (\<lambda>c. c \<noteq> CHR ''/'') p = [] then [] else split_slash (tl (dropWhile (\<lambda>c. c \<noteq> CHR ''/'') p)))"
  by (induction p) (auto split: list.splits)

lemma walk_split: "foldl walk stk (split_slash p) =
    foldl walk (walk stk (takeWhile (\<lambda>c. c \<noteq> CHR ''/'') p)) (split_slash (tl (dropWhile (\<lambda>c. c \<noteq> CHR ''/'') p)))"
  (is "_ = foldl walk (walk stk ?t) (split_slash (tl ?r))")
proof (cases "?r = []")
  case True
  then have "split_slash p = [?t]" by (simp only: split_slash_take [of p] if_True simp_thms)
  then show ?thesis by (simp add: True walk_def)
next
  case False
  then have "split_slash p = ?t # split_slash (tl ?r)" by (simp only: split_slash_take [of p] if_False)
  then show ?thesis by (simp only: foldl_Cons)
qed

lemma walk_slashes: "foldl walk stk (split_slash (dropWhile (\<lambda>c. c = CHR ''/'') p)) = foldl walk stk (split_slash p)"
  by (induction p) (auto simp: walk_def)

lemma canon_loop_walk: "canon_loop p stk = Some segs \<Longrightarrow> segs = foldl walk stk (split_slash p)"
proof (induction "length p" arbitrary: p stk rule: less_induct)
  case less
  let ?seg = "takeWhile (\<lambda>c. c \<noteq> CHR ''/'') p"
  let ?rest = "tl (dropWhile (\<lambda>c. c \<noteq> CHR ''/'') p)"
  show ?case
  proof (cases "p = []")
    case True
    then show ?thesis using less.prems by (simp add: canon_loop.simps walk_def)
  next
    case False
    note st = canon_step [OF False, of stk]
    have IH: "canon_loop ?rest st' = Some segs \<Longrightarrow> segs = foldl walk st' (split_slash ?rest)" for st'
      using less.hyps [of ?rest st'] rest_shorter [OF False, of "\<lambda>c. c \<noteq> CHR ''/''"] by (simp only: length_tl One_nat_def)
    consider "?seg = [] \<or> ?seg = ''.''" | "\<not> (?seg = [] \<or> ?seg = ''.'')" "?seg = ''..''"
      | "\<not> (?seg = [] \<or> ?seg = ''.'')" "?seg \<noteq> ''..''" by blast
    then have "canon_loop ?rest (walk stk ?seg) = Some segs"
    proof cases
      case 1
      then show ?thesis using less.prems st(1) [OF 1] by (simp only: walk_def if_True)
    next
      case 2
      then show ?thesis using less.prems st(2) [OF 2] by (simp only: walk_def if_True if_False simp_thms)
    next
      case 3
      then show ?thesis using less.prems st(3) [OF 3] by (simp only: walk_def if_False option.distinct split: if_splits)
    qed
    from IH [OF this] show ?thesis by (simp only: walk_split [of stk p])
  qed
qed

lemma canonicalize_walk:
  assumes c: "vfs_canonicalize (Some path) sz = Some c" "2 \<le> sz"
  shows "c = CHR ''/'' # join_segs (foldl walk [] (split_slash path))" (is "c = _ # join_segs ?segs")
    and "s \<in> set (foldl walk [] (split_slash path)) \<Longrightarrow> good_seg s" and "length c < sz"
proof -
  obtain segs where l: "canon_loop (dropWhile (\<lambda>c. c = CHR ''/'') path) [] = Some segs" and b: "canon_build sz segs False ''/'' = Some c"
    using c(1) by (auto simp: vfs_canonicalize_def split: if_splits option.splits)
  have s: "segs = ?segs" using canon_loop_walk [OF l] by (simp only: walk_slashes)
  show "c = CHR ''/'' # join_segs ?segs" using canon_build_join [OF b] s by simp
  show "length c < sz" using canon_build_join [OF b] c(2) by auto
  show "s \<in> set ?segs \<Longrightarrow> good_seg s" using canon_loop_good [OF l] s by simp
qed

text \<open>
  C14. What \<open>vfs_canonicalize\<close> returns is the path a walk from the root reaches: absolute, inside its
  buffer, free of empty, dot and dot-dot components, and its own canonical form.
\<close>

theorem canonicalize_correct:
  assumes "vfs_canonicalize (Some path) sz = Some c" "2 \<le> sz" "sz \<le> VFS_PATH_MAX"
  shows "c = CHR ''/'' # join_segs (foldl walk [] (split_slash path)) \<and>
    (\<forall>s \<in> set (foldl walk [] (split_slash path)). s \<noteq> [] \<and> s \<noteq> ''.'' \<and> s \<noteq> ''..'' \<and> CHR ''/'' \<notin> set s) \<and>
    length c < sz \<and> vfs_canonicalize (Some c) sz = Some c"
  using canonicalize_walk [OF assms(1,2)] canonicalize_again [OF assms] by (auto simp: good_seg_def)

lemma canon_loop_nil: "canon_loop [] stk = Some stk"
  unfolding canon_loop.simps [of "[]"] by (simp only: simp_thms if_True)

lemma canon_loop_cons: "canon_loop (c # cs) stk =
    (if takeWhile (\<lambda>c. c \<noteq> CHR ''/'') (c # cs) = [] \<or> takeWhile (\<lambda>c. c \<noteq> CHR ''/'') (c # cs) = ''.''
     then canon_loop (tl (dropWhile (\<lambda>c. c \<noteq> CHR ''/'') (c # cs))) stk
     else if takeWhile (\<lambda>c. c \<noteq> CHR ''/'') (c # cs) = ''..'' then canon_loop (tl (dropWhile (\<lambda>c. c \<noteq> CHR ''/'') (c # cs))) (butlast stk)
     else if length stk \<ge> VFS_PATH_MAX div 2 - 1 then None
     else canon_loop (tl (dropWhile (\<lambda>c. c \<noteq> CHR ''/'') (c # cs))) (stk @ [takeWhile (\<lambda>c. c \<noteq> CHR ''/'') (c # cs)]))"
  unfolding canon_loop.simps [of "c # cs"] Let_def by (simp only: list.distinct if_False)

lemma canonicalize_correct_witness:
  "vfs_canonicalize (Some ''/a//./b/../../../etc/'') 32 = Some ''/etc'' \<and> length ''/etc'' < 32 \<and>
   vfs_canonicalize (Some ''/etc'') 32 = Some ''/etc''"
proof -
  have c: "vfs_canonicalize (Some ''/a//./b/../../../etc/'') 32 = Some ''/etc''"
    by (simp add: vfs_canonicalize_def VFS_PATH_MAX_def canon_loop_nil canon_loop_cons)
  have b: "2 \<le> (32::nat)" "32 \<le> VFS_PATH_MAX" by (simp_all add: VFS_PATH_MAX_def)
  show ?thesis by (rule conjI [OF c canonicalize_correct [OF c b, THEN conjunct2, THEN conjunct2]])
qed

text \<open>
  C29. A path is handed to the mount with the longest mount point that covers it, with the rest of the
  path below that mount point; without one, no mount covers it.
\<close>

theorem find_backend_longest:
  "(case find_backend path s of
      None \<Rightarrow> \<forall>b \<in> set (g_backends s). serves path b \<longrightarrow> mount_pt b = []
    | Some (i, rel) \<Rightarrow> i < length (g_backends s) \<and> serves path (g_backends s ! i) \<and>
        (\<forall>b \<in> set (g_backends s). serves path b \<longrightarrow> length (mount_pt b) \<le> length (mount_pt (g_backends s ! i))) \<and>
        ((mount_pt (g_backends s ! i) = ''/'' \<and> rel = path) \<or> (path = mount_pt (g_backends s ! i) \<and> rel = ''/'') \<or>
         (path = mount_pt (g_backends s ! i) @ rel \<and> hd rel = CHR ''/'')))"
proof (cases "find_best path (g_backends s) 0 None 0")
  case None
  then show ?thesis using find_best_spec [of path "g_backends s" 0 None 0] by (simp add: find_backend_def)
next
  case (Some i)
  then have i: "i < length (g_backends s)" "serves path (g_backends s ! i)" "0 < length (mount_pt (g_backends s ! i))"
    "\<forall>b \<in> set (g_backends s). serves path b \<longrightarrow> length (mount_pt b) \<le> length (mount_pt (g_backends s ! i))"
    using find_best_spec [of path "g_backends s" 0 None 0] by auto
  then have "mount_matches path (mount_pt (g_backends s ! i))" "mount_pt (g_backends s ! i) \<noteq> []" by (auto simp: serves_def)
  from rel_path_spec [OF this] show ?thesis using Some i by (simp add: find_backend_def)
qed


section \<open>Descriptors\<close>

text \<open>
  A node is free or carries its own number; a descriptor names a live node that was opened for
  that process and is referenced once, and no two descriptors share a node.
\<close>

definition node_ok :: "nat \<Rightarrow> vfsnode \<Rightarrow> bool" where
  "node_ok i n \<longleftrightarrow> node_id n = 0 \<or> node_id n = i"

definition held :: "pref \<Rightarrow> vfsnode \<Rightarrow> nat \<Rightarrow> bool" where
  "held p n i \<longleftrightarrow> 0 < i \<and> i < MAX_VFSNODES \<and> node_id n = i \<and> n_refcount n = 1 \<and> n_pcb n = Some p"

definition fds_inv :: "'fs vfs \<Rightarrow> bool" where
  "fds_inv s \<longleftrightarrow> length (g_nodes s) = MAX_VFSNODES \<and> (\<forall>i < MAX_VFSNODES. node_ok i (g_nodes s ! i)) \<and>
     (\<forall>p d i. fd_tables s p d = Some i \<longrightarrow> 0 < d \<and> d < MAX_FDS \<and> held p (g_nodes s ! i) i) \<and>
     (\<forall>p d q e i. fd_tables s p d = Some i \<and> fd_tables s q e = Some i \<longrightarrow> p = q \<and> d = e)"

lemma fds_invI:
  assumes "length (g_nodes s) = MAX_VFSNODES" "\<And>i. i < MAX_VFSNODES \<Longrightarrow> node_ok i (g_nodes s ! i)"
    and "\<And>p d i. fd_tables s p d = Some i \<Longrightarrow> 0 < d \<and> d < MAX_FDS \<and> held p (g_nodes s ! i) i"
    and "\<And>p d q e i. fd_tables s p d = Some i \<Longrightarrow> fd_tables s q e = Some i \<Longrightarrow> p = q \<and> d = e"
  shows "fds_inv s"
  using assms unfolding fds_inv_def by blast

lemma fds_invD:
  assumes "fds_inv s"
  shows "length (g_nodes s) = MAX_VFSNODES" "i < MAX_VFSNODES \<Longrightarrow> node_ok i (g_nodes s ! i)"
    and "fd_tables s p d = Some i \<Longrightarrow> 0 < d \<and> d < MAX_FDS \<and> held p (g_nodes s ! i) i"
    and "fd_tables s p d = Some i \<Longrightarrow> fd_tables s q e = Some i \<Longrightarrow> p = q \<and> d = e"
  using assms unfolding fds_inv_def by blast+

lemma upd_node_fields [simp]:
  "g_backends (upd_node i f s) = g_backends s" "fd_tables (upd_node i f s) = fd_tables s" "vfs_fs (upd_node i f s) = vfs_fs s"
  "rings (upd_node i f s) = rings s" "vfs_ipc (upd_node i f s) = vfs_ipc s" "g_next_node_id (upd_node i f s) = g_next_node_id s"
  "g_nodes (upd_node i f s) = (g_nodes s)[i := f (g_nodes s ! i)]"
  by (simp_all add: upd_node_def)

lemma be_close_fields [simp]:
  "g_nodes (be_close b x s) = g_nodes s" "fd_tables (be_close b x s) = fd_tables s" "g_backends (be_close b x s) = g_backends s"
  "vfs_ipc (be_close b x s) = vfs_ipc s"
  by (simp_all add: be_close_def split: option.splits)

lemma fds_inv_cong: "fds_inv s \<Longrightarrow> g_nodes s' = g_nodes s \<Longrightarrow> fd_tables s' = fd_tables s \<Longrightarrow> fds_inv s'"
  by (simp add: fds_inv_def)

text \<open>A change of a node that keeps what its descriptor relies on, and of one that has none.\<close>

lemma upd_node_held:
  assumes i: "fds_inv s" and o: "\<And>n. node_ok k n \<Longrightarrow> node_ok k (f n)" and h: "\<And>p n. held p n k \<Longrightarrow> held p (f n) k"
  shows "fds_inv (upd_node k f s)"
  using assms by (cases "k < MAX_VFSNODES") (auto simp: fds_inv_def nth_list_update held_def list_update_beyond)

lemma upd_node_free:
  assumes i: "fds_inv s" and o: "node_ok k (f (g_nodes s ! k))" and n: "\<And>p d. fd_tables s p d \<noteq> Some k"
  shows "fds_inv (upd_node k f s)"
proof -
  have g: "g_nodes (upd_node k f s) ! i = g_nodes s ! i" if "fd_tables s p d = Some i" for p d i
    using n [of p d] that by (cases "i = k") auto
  show ?thesis
  proof (rule fds_invI)
    show "node_ok i (g_nodes (upd_node k f s) ! i)" if "i < MAX_VFSNODES" for i
      using fds_invD(1,2) [OF i] o that by (cases "i = k") auto
  qed (use fds_invD [OF i] g in auto)
qed

lemma alloc_node_spec:
  assumes "alloc_node_id s = (nid, s1)" "nid \<noteq> 0"
  shows "0 < nid \<and> nid < MAX_VFSNODES \<and> node_id (g_nodes s ! nid) = 0" "g_nodes s1 = g_nodes s" "fd_tables s1 = fd_tables s"
proof -
  let ?l = "map (\<lambda>i. (g_next_node_id s + i) mod MAX_VFSNODES) [0..<MAX_VFSNODES]"
  let ?P = "\<lambda>c. c \<noteq> 0 \<and> node_id (g_nodes s ! c) = 0"
  have f: "List.find ?P ?l = Some nid" and s1: "g_nodes s1 = g_nodes s \<and> fd_tables s1 = fd_tables s"
    using assms by (auto simp: alloc_node_id_def Let_def split: option.splits)
  then obtain i where "i < length ?l" "?P (?l ! i)" "nid = ?l ! i" using find_Some_iff [of ?P ?l nid] by blast
  moreover have "0 < MAX_VFSNODES" by (simp add: MAX_VFSNODES_def)
  ultimately show "0 < nid \<and> nid < MAX_VFSNODES \<and> node_id (g_nodes s ! nid) = 0" by auto
  show "g_nodes s1 = g_nodes s" "fd_tables s1 = fd_tables s" using s1 by auto
qed

lemma free_not_held: "fds_inv s \<Longrightarrow> node_id (g_nodes s ! k) = 0 \<Longrightarrow> fd_tables s p d \<noteq> Some k"
  unfolding fds_inv_def held_def by fastforce

lemma install_inv:
  assumes i: "fds_inv s" and k: "0 < k" "k < MAX_VFSNODES" "node_id (g_nodes s ! k) = k" "n_refcount (g_nodes s ! k) = 1"
    "n_pcb (g_nodes s ! k) = caller" and n: "\<And>p d. fd_tables s p d \<noteq> Some k" and e: "install_fd k caller s = (d, s')"
  shows "fds_inv s' \<and> g_nodes s' = g_nodes s \<and> (d = 0 \<longrightarrow> s' = s)"
proof (cases caller)
  case None
  then show ?thesis using e i k by (auto simp: install_fd_def)
next
  case (Some p)
  show ?thesis
  proof (cases "List.find (\<lambda>i. fd_tables s p i = None) [1..<MAX_FDS]")
    case None
    then show ?thesis using e i Some by (auto simp: install_fd_def)
  next
    case (Some x)
    then have x: "0 < x" "x < MAX_FDS" "fd_tables s p x = None"
      by (auto simp: find_Some_iff)
    have s': "d = of_nat x" "s' = s\<lparr>fd_tables := (fd_tables s)(p := (fd_tables s p)(x := Some k))\<rparr>"
      using e Some \<open>caller = Some p\<close> by (auto simp: install_fd_def)
    have h: "held p (g_nodes s ! k) k" using k \<open>caller = Some p\<close> by (simp add: held_def)
    have T: "fd_tables s' q e = Some i \<longleftrightarrow> (if i = k then q = p \<and> e = x else fd_tables s q e = Some i)" for q e i
      using n [of q e] x(3) unfolding s'(2) by (cases "q = p \<and> e = x") auto
    have g: "g_nodes s' = g_nodes s" by (simp add: s'(2))
    have "fds_inv s'"
    proof (rule fds_invI; unfold T g)
      show "length (g_nodes s) = MAX_VFSNODES" "j < MAX_VFSNODES \<Longrightarrow> node_ok j (g_nodes s ! j)" for j using fds_invD(1,2) [OF i] .
      show "0 < e \<and> e < MAX_FDS \<and> held q (g_nodes s ! j) j" if "if j = k then q = p \<and> e = x else fd_tables s q e = Some j" for q e j
        using that h x fds_invD(3) [OF i, of q e j] by (simp split: if_splits)
      show "q = q' \<and> e = e'" if "if j = k then q = p \<and> e = x else fd_tables s q e = Some j"
        "if j = k then q' = p \<and> e' = x else fd_tables s q' e' = Some j" for q e q' e' j
        using that fds_invD(4) [OF i, of q e j q' e'] by (simp split: if_splits)
    qed
    moreover have "d \<noteq> 0" using x s'(1) by (auto simp: MAX_FDS_def word_of_nat_eq_0_iff dest: dvd_imp_le)
    ultimately show ?thesis using s'(2) by simp
  qed
qed

lemma open_node_inv:
  assumes i: "fds_inv s" and e: "open_node path rel flags caller b bctx s = (d, s')"
  shows "fds_inv s'"
proof -
  obtain nid s1 where a: "alloc_node_id s = (nid, s1)" by fastforce
  show ?thesis
  proof (cases "nid = 0")
    case True
    have "g_nodes s1 = g_nodes s \<and> fd_tables s1 = fd_tables s" using a by (auto simp: alloc_node_id_def Let_def split: option.splits)
    then show ?thesis using e a True i by (auto simp: open_node_def intro: fds_inv_cong)
  next
    case False
    note al = alloc_node_spec [OF a False]
    let ?s2 = "upd_node nid (\<lambda>_. new_node nid flags path b bctx caller) s1"
    let ?s3 = "upd_node nid (\<lambda>n. n\<lparr>n_size := node_stat_size b rel ?s2 (n_size n)\<rparr>) ?s2"
    have i1: "fds_inv s1" using i al(2,3) by (rule fds_inv_cong)
    have nh: "fd_tables s1 p x \<noteq> Some nid" for p x using free_not_held [OF i1] al by simp
    have i2: "fds_inv ?s2" by (rule upd_node_free [OF i1 _ nh]) (simp add: node_ok_def new_node_def)
    have i3: "fds_inv ?s3" by (rule upd_node_held [OF i2]) (auto simp: node_ok_def held_def)
    have l: "nid < length (g_nodes s1)" using fds_invD(1) [OF i1] al(1) by simp
    obtain x s4 where f: "install_fd nid caller ?s3 = (x, s4)" by fastforce
    have i4: "fds_inv s4" "g_nodes s4 = g_nodes ?s3" "x = 0 \<Longrightarrow> s4 = ?s3"
      using install_inv [OF i3 _ _ _ _ _ _ f] al(1) l nh by (auto simp: new_node_def)
    show ?thesis
    proof (cases "x = 0")
      case True
      have "fds_inv (upd_node nid (\<lambda>n. n\<lparr>node_id := 0\<rparr>) s4)"
        by (rule upd_node_free [OF i4(1)]) (use i4(3) [OF True] nh in \<open>auto simp: node_ok_def\<close>)
      then have "fds_inv (be_close b bctx (upd_node nid (\<lambda>n. n\<lparr>node_id := 0\<rparr>) s4))" by (rule fds_inv_cong) simp_all
      then show ?thesis using e a False f True by (simp add: open_node_def Let_def)
    next
      case nz: False
      then show ?thesis using e a False f i4(1) by (simp add: open_node_def Let_def)
    qed
  qed
qed

lemma open_fd_inv:
  assumes i: "fds_inv s" and e: "vfs_open path flags caller s = (d, s')"
  shows "fds_inv s'"
proof -
  have c: "fds_inv (s\<lparr>vfs_fs := fs\<rparr>)" for fs using i by (rule fds_inv_cong) simp_all
  show ?thesis using e i c open_node_inv [OF c]
    by (auto simp: vfs_open_def Let_def split: if_splits option.splits prod.splits)
qed

lemma release_inv:
  fixes s :: "'fs vfs"
  assumes i: "fds_inv s" and n: "\<And>p d. fd_tables s p d \<noteq> Some k"
  shows "fds_inv (release_node k s)"
proof -
  let ?s1 = "upd_node k (\<lambda>n. n\<lparr>n_refcount := n_refcount n - 1\<rparr>) s"
  have o: "node_ok k (f (g_nodes s ! k))" if "\<And>n. node_id (f n) = node_id n" "k < MAX_VFSNODES" for f
    using fds_invD(2) [OF i that(2)] that(1) by (simp add: node_ok_def)
  have i1: "fds_inv ?s1"
  proof (cases "k < MAX_VFSNODES")
    case True
    show ?thesis by (rule upd_node_free [OF i o [OF _ True] n]) simp
  next
    case False
    then show ?thesis using i fds_invD(1) [OF i] by (intro fds_inv_cong [OF i]) (simp_all add: list_update_beyond)
  qed
  have f: "fds_inv (upd_node k (\<lambda>n. n\<lparr>node_id := 0\<rparr>) t)" if "g_nodes t = g_nodes ?s1" "fd_tables t = fd_tables ?s1" for t :: "'fs vfs"
    by (rule upd_node_free [OF fds_inv_cong [OF i1 that]]) (use that n in \<open>auto simp: node_ok_def\<close>)
  show ?thesis using i1 f by (auto simp: release_node_def Let_def split: option.splits)
qed

lemma clear_fd_inv:
  assumes i: "fds_inv s"
  shows "fds_inv (s\<lparr>fd_tables := (fd_tables s)(p := (fd_tables s p)(d := None))\<rparr>)" (is "fds_inv ?s")
proof (rule fds_invI)
  have T: "fd_tables ?s q e = Some j \<Longrightarrow> fd_tables s q e = Some j" for q e j by (auto split: if_splits)
  show "0 < e \<and> e < MAX_FDS \<and> held q (g_nodes ?s ! j) j" if "fd_tables ?s q e = Some j" for q e j
    using fds_invD(3) [OF i T [OF that]] by simp
  show "q = q' \<and> e = e'" if "fd_tables ?s q e = Some j" "fd_tables ?s q' e' = Some j" for q e q' e' j
    by (rule fds_invD(4) [OF i T [OF that(1)] T [OF that(2)]])
qed (use fds_invD(1,2) [OF i] in auto)

lemma close_own_inv:
  assumes i: "fds_inv s" and d: "unat d < MAX_FDS" and e: "vfs_close d s = (rc, s')"
  shows "fds_inv s'"
proof (cases "d = 0 \<or> node_of_fd d s = None")
  case True
  then show ?thesis using e i by (auto simp: vfs_close_def split: if_splits)
next
  case False
  then obtain cur k where k: "vfs_current s = Some cur" "fd_tables s cur (unat d) = Some k" "node_of_fd d s = Some k"
    using d by (auto simp: node_of_fd_def split: option.splits)
  let ?t = "s\<lparr>fd_tables := (fd_tables s)(cur := (fd_tables s cur)(unat d := None))\<rparr>"
  have "fd_tables ?t p x \<noteq> Some k" for p x using fds_invD(4) [OF i k(2), of p x] by auto
  then have "fds_inv (release_node k ?t)" by (rule release_inv [OF clear_fd_inv [OF i]])
  then show ?thesis using e False d k by (auto simp: vfs_close_def Let_def)
qed

lemma close_kernel_inv:
  assumes i: "fds_inv s" and d: "\<not> unat d < MAX_FDS" and o: "\<And>k. node_of_fd d s = Some k \<Longrightarrow> n_pcb (g_nodes s ! k) = None"
    and e: "vfs_close d s = (rc, s')"
  shows "fds_inv s'"
proof (cases "d = 0 \<or> node_of_fd d s = None")
  case True
  then show ?thesis using e i by (auto simp: vfs_close_def split: if_splits)
next
  case False
  then obtain k where k: "node_of_fd d s = Some k" by auto
  have "fd_tables s p x \<noteq> Some k" for p x using fds_invD(3) [OF i, of p x k] o [OF k] by (auto simp: held_def)
  then have "fds_inv (release_node k s)" by (rule release_inv [OF i])
  then show ?thesis using e False d k by (simp add: vfs_close_def)
qed

lemma offset_inv: "fds_inv s \<Longrightarrow> fds_inv (upd_node k (\<lambda>n. n\<lparr>n_offset := f n\<rparr>) s)"
  by (rule upd_node_held) (auto simp: node_ok_def held_def)

lemma fields_inv:
  assumes i: "fds_inv s"
  shows "fds_inv (s\<lparr>vfs_fs := fs\<rparr>)" "fds_inv (s\<lparr>rings := r\<rparr>)" "fds_inv (s\<lparr>vfs_ipc := p\<rparr>)" "fds_inv (s\<lparr>g_backends := b\<rparr>)"
  by (rule fds_inv_cong [OF i]; simp)+

lemma read_fd_inv: "fds_inv s \<Longrightarrow> vfs_read d buf n got s = Some (rc, dat, s') \<Longrightarrow> fds_inv s'"
  by (auto simp: vfs_read_def Let_def intro: offset_inv fields_inv split: if_splits option.splits prod.splits)

lemma write_fd_inv: "fds_inv s \<Longrightarrow> vfs_write now d buf s = Some (rc, s') \<Longrightarrow> fds_inv s'"
  by (auto simp: vfs_write_def Let_def intro: offset_inv fields_inv split: if_splits option.splits prod.splits)

lemma seek_fd_inv: "fds_inv s \<Longrightarrow> vfs_seek d off wh s = Some (rc, s') \<Longrightarrow> fds_inv s'"
  by (auto simp: vfs_seek_def Let_def intro: offset_inv fields_inv split: if_splits option.splits prod.splits sum.splits)

lemma path_ops_inv:
  assumes i: "fds_inv s"
  shows "fds_inv (snd (vfs_unlink path s))" "fds_inv (snd (vfs_mkdir path s))" "fds_inv (snd (vfs_mount mp ops s))"
    and "vfs_readdir path buf cap s = Some (rc, es, nn, s') \<Longrightarrow> fds_inv s'"
  using i fields_inv [OF i]
  by (auto simp: vfs_unlink_def vfs_mkdir_def vfs_mount_def vfs_readdir_def Let_def split: if_splits option.splits prod.splits)

lemma register_ring_inv:
  assumes i: "fds_inv s"
  shows "fds_inv (snd (vfs_register_ring path ring s))"
proof -
  obtain nid s1 where a: "alloc_node_id s = (nid, s1)" by fastforce
  have "g_nodes s1 = g_nodes s \<and> fd_tables s1 = fd_tables s" using a by (auto simp: alloc_node_id_def Let_def split: option.splits)
  then have i1: "fds_inv s1" using i by (auto intro: fds_inv_cong)
  have "fds_inv (upd_node nid (\<lambda>_. n) s1)" if "nid \<noteq> 0" "node_id n = nid" for n
    by (rule upd_node_free [OF i1]) (use alloc_node_spec [OF a that(1)] free_not_held [OF i1, of nid] that in \<open>auto simp: node_ok_def\<close>)
  then show ?thesis using i i1 a by (auto simp: vfs_register_ring_def split: option.splits)
qed

text \<open>
  The operations as steps. A close through a kernel descriptor is a step when the node is the
  kernel's own; everything outside the file system may change between two steps.
\<close>

inductive vfs_step :: "'fs vfs \<Rightarrow> 'fs vfs \<Rightarrow> bool" where
  step_open: "vfs_open path flags caller s = (d, s') \<Longrightarrow> vfs_step s s'"
| step_close: "unat d < MAX_FDS \<Longrightarrow> vfs_close d s = (rc, s') \<Longrightarrow> vfs_step s s'"
| step_kclose: "\<not> unat d < MAX_FDS \<Longrightarrow> (\<And>k. node_of_fd d s = Some k \<Longrightarrow> n_pcb (g_nodes s ! k) = None) \<Longrightarrow>
    vfs_close d s = (rc, s') \<Longrightarrow> vfs_step s s'"
| step_read: "vfs_read d buf n got s = Some (rc, dat, s') \<Longrightarrow> vfs_step s s'"
| step_write: "vfs_write now d src s = Some (rc, s') \<Longrightarrow> vfs_step s s'"
| step_seek: "vfs_seek d off wh s = Some (rc, s') \<Longrightarrow> vfs_step s s'"
| step_unlink: "vfs_step s (snd (vfs_unlink path s))"
| step_mkdir: "vfs_step s (snd (vfs_mkdir path s))"
| step_readdir: "vfs_readdir path es cap s = Some (rc, es', nn, s') \<Longrightarrow> vfs_step s s'"
| step_mount: "vfs_step s (snd (vfs_mount mp ops s))"
| step_ring: "vfs_step s (snd (vfs_register_ring path ring s))"
| step_world: "vfs_step s (s\<lparr>vfs_ipc := p\<rparr>)"

lemma vfs_step_inv: "vfs_step s s' \<Longrightarrow> fds_inv s \<Longrightarrow> fds_inv s'"
proof (induction rule: vfs_step.induct)
  case (step_kclose d s rc s')
  then show ?case using close_kernel_inv [of s d rc s'] by blast
qed (auto intro: open_fd_inv close_own_inv read_fd_inv write_fd_inv seek_fd_inv path_ops_inv register_ring_inv fields_inv)

lemma vfs_init_inv: "(\<And>p. fd_tables s p = Map.empty) \<Longrightarrow> fds_inv (vfs_init s)"
  by (rule fds_invI) (simp_all add: vfs_init_def node_ok_def zero_node_def)

lemma vfs_reachable_inv: "vfs_step\<^sup>*\<^sup>* (vfs_init s0) s \<Longrightarrow> (\<And>p. fd_tables s0 p = Map.empty) \<Longrightarrow> fds_inv s"
  by (induction rule: rtranclp_induct) (auto intro: vfs_init_inv vfs_step_inv)


definition blank_vfs :: "unit vfs" where
  "blank_vfs = \<lparr>g_nodes = [], g_backends = [], g_next_node_id = 0, fd_tables = (\<lambda>_. Map.empty), vfs_fs = (),
     rings = (\<lambda>_. ring_8_2), vfs_ipc = blank_ipc\<rparr>"

definition two_mounts :: "unit vfs" where
  "two_mounts = blank_vfs\<lparr>g_backends := [\<lparr>be_name = ''/'', mount_pt = ''/'', be_ops = no_ops, be_id = 1\<rparr>,
     \<lparr>be_name = ''/boot'', mount_pt = ''/boot'', be_ops = no_ops, be_id = 2\<rparr>]\<rparr>"

theorem find_backend_longest_witness:
  "find_backend ''/boot/k'' two_mounts = Some (1, ''/k'') \<and> serves ''/boot/k'' (g_backends two_mounts ! 1) \<and>
   find_backend ''/bootx'' two_mounts = Some (0, ''/bootx'') \<and> serves ''/bootx'' (g_backends two_mounts ! 0)"
proof -
  have "find_backend ''/boot/k'' two_mounts = Some (1, ''/k'')" "find_backend ''/bootx'' two_mounts = Some (0, ''/bootx'')"
    by (simp_all add: two_mounts_def find_backend_def mount_matches_def rel_path_def)
  then show ?thesis using find_backend_longest [where path = "''/boot/k''" and s = two_mounts] find_backend_longest [where path = "''/bootx''" and s = two_mounts] by simp
qed

text \<open>A file system with one file, whose context is 7.\<close>

definition one_file_ops :: "unit vfs_ops" where
  "one_file_ops = no_ops\<lparr>op_open := Some (\<lambda>path flags fs. (if path = ''/f'' then 7 else 0, fs))\<rparr>"

definition one_file_vfs :: "unit vfs" where
  "one_file_vfs = snd (vfs_mount (Some ''/'') one_file_ops (vfs_init blank_vfs))"

lemma find_best_unused: "find_best path (replicate n zero_backend) i best len = best"
  by (induction n arbitrary: i) (simp_all add: zero_backend_def)

lemma one_file_inv: "fds_inv one_file_vfs"
proof -
  have "fds_inv (vfs_init blank_vfs)" by (rule vfs_init_inv) (simp add: blank_vfs_def)
  then show ?thesis unfolding one_file_vfs_def by (rule path_ops_inv)
qed

lemma one_file_opened:
  shows "fd_tables (snd (vfs_open (Some ''/f'') 0 (Some (Proc 5)) one_file_vfs)) (Proc 5) 1 = Some 1"
    and one_file_fd: "fst (vfs_open (Some ''/f'') 0 (Some (Proc 5)) one_file_vfs) = 1"
proof -
  let ?s = one_file_vfs
  have b: "vfs_init blank_vfs = \<lparr>g_nodes = replicate MAX_VFSNODES zero_node, g_backends = zero_backend # replicate 15 zero_backend,
      g_next_node_id = 1, fd_tables = (\<lambda>_. Map.empty), vfs_fs = (), rings = (\<lambda>_. ring_8_2), vfs_ipc = blank_ipc\<rparr>"
    by (simp add: vfs_init_def blank_vfs_def MAX_BACKENDS_def flip: replicate_Suc)
  have s: "?s = (vfs_init blank_vfs)\<lparr>g_backends := \<lparr>be_name = ''/'', mount_pt = ''/'', be_ops = one_file_ops, be_id = 1\<rparr> # replicate 15 zero_backend\<rparr>"
    unfolding one_file_vfs_def b by (simp add: vfs_mount_def zero_backend_def VFS_PATH_MAX_def VFS_BE_NAME_LEN_def)
  have m: "g_nodes ?s = replicate MAX_VFSNODES zero_node" "g_next_node_id ?s = 1" "fd_tables ?s (Proc 5) = Map.empty"
      "be_ops (g_backends ?s ! 0) = one_file_ops"
    unfolding s b by (simp_all)
  have f: "find_backend ''/f'' ?s = Some (0, ''/f'')"
    unfolding s b by (simp add: find_backend_def mount_matches_def rel_path_def find_best_unused)
  have c: "vfs_canonicalize (Some ''/f'') VFS_PATH_MAX = Some ''/f''"
    by (simp add: vfs_canonicalize_def VFS_PATH_MAX_def canon_loop_nil canon_loop_cons)
  have a: "alloc_node_id ?s = (1, ?s\<lparr>g_next_node_id := 2\<rparr>)"
    unfolding alloc_node_id_def m by (simp add: MAX_VFSNODES_def upt_conv_Cons [of 0] zero_node_def)
  have d: "[1..<MAX_FDS] = 1 # [2..<MAX_FDS]" by (simp add: MAX_FDS_def upt_conv_Cons [of "Suc 0"] numeral_2_eq_2)
  have o: "vfs_open (Some ''/f'') 0 (Some (Proc 5)) ?s = open_node ''/f'' ''/f'' (0 OR VFS_O_READ) (Some (Proc 5)) 0 7 ?s"
    by (simp add: vfs_open_def c f m one_file_ops_def) (simp add: s b)
  show "fd_tables (snd (vfs_open (Some ''/f'') 0 (Some (Proc 5)) ?s)) (Proc 5) 1 = Some 1" "fst (vfs_open (Some ''/f'') 0 (Some (Proc 5)) ?s) = 1"
    unfolding o open_node_def a prod.case Let_def install_fd_def option.case d by (simp_all add: m)
qed


text \<open>
  C39. A node opened for a process can be closed by anyone through the kernel descriptor of its node:
  the call succeeds and the node becomes free, while the process's own descriptor still names it.
\<close>

theorem kernel_fd_closes_any_node:
  assumes f: "fds_inv s" and d: "fd_tables s p d = Some i" and c: "vfs_close (of_nat (MAX_FDS + i)) s = (rc, s')"
  shows "rc = 0 \<and> node_id (g_nodes s' ! i) = 0 \<and> fd_tables s' p d = Some i \<and> \<not> fds_inv s'"
proof -
  have h: "0 < i" "i < MAX_VFSNODES" "node_id (g_nodes s ! i) = i" "n_refcount (g_nodes s ! i) = 1"
    using fds_invD(3) [OF f d] by (auto simp: held_def)
  have l: "length (g_nodes s) = MAX_VFSNODES" by (rule fds_invD(1) [OF f])
  have u: "unat (of_nat (MAX_FDS + i) :: u32) = MAX_FDS + i" "(of_nat (MAX_FDS + i) :: u32) - of_nat MAX_FDS = (of_nat i :: u32)"
      "unat (of_nat i :: u32) = i"
    using h(2) by (simp_all add: unat_of_nat MAX_FDS_def MAX_VFSNODES_def del: of_nat_add) (simp only: of_nat_add of_nat_numeral add_diff_cancel_left')
  have z: "(of_nat (MAX_FDS + i) :: u32) \<noteq> 0" using u(1) by (auto simp: MAX_FDS_def)
  have n: "node_of_fd (of_nat (MAX_FDS + i)) s = Some i"
    unfolding node_of_fd_def u Let_def using h by simp
  have r: "(0, release_node i s) = (rc, s')" using c z unfolding vfs_close_def n u by (simp del: of_nat_add)
  have g: "node_id (g_nodes s' ! i) = 0" "fd_tables s' p d = Some i"
    using r h l d by (auto simp: release_node_def Let_def split: option.splits)
  then have "\<not> fds_inv s'" using fds_invD(3) [of s' p d i] h(1) by (auto simp: held_def)
  then show ?thesis using g r by simp
qed

theorem kernel_fd_closes_any_node_witness:
  "let s = snd (vfs_open (Some ''/f'') 0 (Some (Proc 5)) one_file_vfs) in
   fst (vfs_close 257 s) = 0 \<and> fd_tables (snd (vfs_close 257 s)) (Proc 5) 1 = Some 1 \<and> node_id (g_nodes (snd (vfs_close 257 s)) ! 1) = 0"
proof -
  let ?s = "snd (vfs_open (Some ''/f'') 0 (Some (Proc 5)) one_file_vfs)"
  have i: "fds_inv ?s" by (rule open_fd_inv [OF one_file_inv]) (rule prod.collapse [symmetric])
  note o = one_file_opened(1)
  have "(of_nat (MAX_FDS + 1) :: u32) = 257" by (simp add: MAX_FDS_def)
  then show ?thesis using kernel_fd_closes_any_node [OF i o, of "fst (vfs_close 257 ?s)" "snd (vfs_close 257 ?s)"]
    by (simp add: Let_def)
qed

section \<open>Rings behind nodes\<close>

lemma chunk_word: "m \<noteq> 0 \<Longrightarrow> (of_nat (if m > unat ss then unat ss else m) :: u32) \<le> ss \<and>
    unat (of_nat (if m > unat ss then unat ss else m) :: u32) = (if m > unat ss then unat ss else m)"
  for ss :: u32
proof -
  have "(if m > unat ss then unat ss else m) < 2 ^ 32" using unat_lt_2p32 [of ss] by (auto simp del: unat_lt_2p32)
  then show ?thesis by (simp add: word_le_nat_alt unat_of_nat)
qed

lemma ring_read_done: "\<not> length acc < n \<Longrightarrow> ring_read n acc r = Some (acc, r)"
  unfolding ring_read.simps [of n acc r] by (simp only: if_False)

lemma ring_read_more:
  assumes "length acc < n" "ringbuf_pop r (of_nat (if n - length acc > unat (slot_size r) then unat (slot_size r) else n - length acc)) = (rc, b, r')"
  shows "ring_read n acc r = (if rc \<noteq> 0 then Some (acc, r') else ring_read n (acc @ b) r')"
  unfolding ring_read.simps [of n acc r] Let_def assms(2) using assms(1) by (simp only: if_True prod.case)

text \<open>How many slots a read of \<open>m\<close> bytes consumes.\<close>

definition slots_for :: "nat \<Rightarrow> nat \<Rightarrow> nat" where "slots_for ss m = (m + ss - 1) div ss"

lemma slots_for_0: "0 < ss \<Longrightarrow> slots_for ss 0 = 0" by (simp add: slots_for_def)

lemma slots_for_step: "0 < ss \<Longrightarrow> 0 < m \<Longrightarrow> slots_for ss m = Suc (slots_for ss (m - (if m > ss then ss else m)))"
proof (cases "m > ss")
  case True
  assume ss: "0 < ss"
  have "m + ss - 1 = (m - ss + ss - 1) + ss" using True by simp
  then have "(m + ss - 1) div ss = Suc ((m - ss + ss - 1) div ss)" using ss by (simp only: div_add_self2)
  then show ?thesis using True by (simp only: slots_for_def if_True)
next
  case False
  assume "0 < ss" "0 < m"
  then have "(m + ss - 1) div ss = 1" using False by (intro div_nat_eqI) auto
  then show ?thesis using False \<open>0 < ss\<close> by (simp add: slots_for_def)
qed

lemma ring_read_items:
  assumes "rb_inv r" "0 < slot_size r" "length acc \<le> n" "ringbuf_contents r = xs"
  shows "\<exists>r'. ring_read n acc r = Some (acc @ take (n - length acc) (concat xs), r') \<and> rb_inv r' \<and>
    ringbuf_contents r' = drop (slots_for (unat (slot_size r)) (n - length acc)) xs"
  using assms
proof (induction xs arbitrary: r acc)
  case Nil
  then have "ringbuf_len r = 0" by (simp flip: length_contents)
  then have "ring_read n acc r = Some (acc, r)"
    using ring_read_done [of acc n r] ring_read_more [OF _ ringbuf_pop_empty, of acc n r] by (cases "length acc < n") simp_all
  then show ?case using Nil by simp
next
  case (Cons x xs)
  let ?ss = "unat (slot_size r)"
  have ss: "0 < ?ss" using Cons.prems(2) by (simp add: word_less_nat_alt)
  have x: "length x = ?ss" using contents_slot_item [OF Cons.prems(1), of x] Cons.prems(4) by (simp add: slot_item_def)
  show ?case
  proof (cases "length acc < n")
    case False
    then show ?thesis using ring_read_done [OF False, of r] Cons.prems slots_for_0 [OF ss] by simp
  next
    case True
    define m where "m = n - length acc"
    define k where "k = (if m > ?ss then ?ss else m)"
    have m: "m \<noteq> 0" using True by (simp add: m_def)
    obtain r1 where p: "ringbuf_pop r (of_nat k) = (0, take k x, r1)" and r1: "rb_inv r1" "ringbuf_contents r1 = xs" "slot_size r1 = slot_size r"
      using ringbuf_pop_item [OF Cons.prems(1) Cons.prems(4), of "of_nat k"] chunk_word [OF m, of "slot_size r"] unfolding k_def [symmetric] by auto
    have e: "ring_read n acc r = ring_read n (acc @ take k x) r1"
      using ring_read_more [OF True p [unfolded k_def m_def]] unfolding m_def [symmetric] k_def [symmetric] by simp
    have lk: "length (take k x) = k" "k \<le> m" using x by (auto simp: k_def)
    have a: "length (acc @ take k x) \<le> n" "n - length (acc @ take k x) = m - k" using lk True by (simp_all add: m_def)
    have q: "slots_for ?ss m = Suc (slots_for ?ss (m - k))" using slots_for_step [OF ss] m unfolding k_def by simp
    have t: "(acc @ take k x) @ take (m - k) (concat xs) = acc @ take m (concat (x # xs))" using x by (simp add: k_def)
    show ?thesis using Cons.IH [OF r1(1) _ a(1) r1(2)] Cons.prems(2) unfolding a(2) r1(3) e t m_def [symmetric] q by simp
  qed
qed

text \<open>
  C30. Reading a registered ring through its descriptor returns the first bytes of the items it holds, in order,
  and removes every item it touched, also the unread rest of the last one; the loop always ends.
\<close>

theorem vfs_read_ring:
  assumes "d \<noteq> 0" "node_of_fd d s = Some i" "n_ring (g_nodes s ! i) = Some k" "rb_inv (rings s k)" "0 < slot_size (rings s k)"
  shows "\<exists>r'. vfs_read d True n got s = Some
      (if n = 0 \<or> concat (ringbuf_contents (rings s k)) = [] then VFS_ERR else 0,
       take n (concat (ringbuf_contents (rings s k))), s\<lparr>rings := (rings s)(k := r')\<rparr>) \<and> rb_inv r' \<and>
    ringbuf_contents r' = drop (slots_for (unat (slot_size (rings s k))) n) (ringbuf_contents (rings s k))"
  using ring_read_items [OF assms(4,5), of "[]" n] assms(1-3) by (auto simp: vfs_read_def)

text \<open>A ring with one item registered as node 1.\<close>

definition ring_vfs :: "unit vfs" where
  "ring_vfs = snd (vfs_register_ring (Some ''/dev/kbd'') (Some 0)
     ((vfs_init blank_vfs)\<lparr>rings := (\<lambda>_. snd (ringbuf_push ring_8_2 [72, 105, 0, 0, 0, 0, 0, 33] 8))\<rparr>))"

theorem vfs_read_ring_witness:
  "\<exists>r'. vfs_read 257 True 2 True ring_vfs = Some (0, [72, 105], ring_vfs\<lparr>rings := (rings ring_vfs)(0 := r')\<rparr>) \<and> ringbuf_contents r' = []"
proof -
  let ?b = "(vfs_init blank_vfs)\<lparr>rings := (\<lambda>_. snd (ringbuf_push ring_8_2 [72, 105, 0, 0, 0, 0, 0, 33] 8))\<rparr>"
  have a: "alloc_node_id ?b = (1, ?b\<lparr>g_next_node_id := 2\<rparr>)"
    by (simp add: alloc_node_id_def vfs_init_def MAX_VFSNODES_def upt_conv_Cons [of 0] zero_node_def)
  have i: "node_of_fd 257 ring_vfs = Some 1" "n_ring (g_nodes ring_vfs ! 1) = Some 0"
    unfolding node_of_fd_def ring_vfs_def vfs_register_ring_def option.case prod.case a
    by (simp_all add: vfs_init_def MAX_FDS_def MAX_VFSNODES_def)
  have r: "rings ring_vfs 0 = snd (ringbuf_push ring_8_2 [72, 105, 0, 0, 0, 0, 0, 33] 8)"
    by (simp add: ring_vfs_def vfs_register_ring_def a)
  have c: "rb_inv (rings ring_vfs 0)" "0 < slot_size (rings ring_vfs 0)" "slot_size (rings ring_vfs 0) = 8"
      "ringbuf_contents (rings ring_vfs 0) = [[72, 105, 0, 0, 0, 0, 0, 33]]"
    unfolding r by code_simp+
  have d: "(257 :: u32) \<noteq> 0" "slots_for (unat (8 :: u32)) 2 = 1" "take 2 (concat [[72, 105, 0, 0, 0, 0, 0, 33 :: u8]]) = [72, 105]"
    by (simp_all add: slots_for_def)
  show ?thesis using vfs_read_ring [OF d(1) i c(1,2), of 2 True] unfolding c(3,4) d(2,3) by auto
qed

section \<open>Opening\<close>

lemma find_Some: "List.find P xs = Some x \<Longrightarrow> x \<in> set xs \<and> P x"
  by (auto simp: find_Some_iff)

lemma open_node_installs:
  assumes i: "fds_inv s" and e: "open_node path rel flags (Some p) b bctx s = (d, s')" and d: "d \<noteq> 0" "unat d < MAX_FDS"
    and l: "length path < VFS_PATH_MAX"
  shows "fd_tables s p (unat d) = None \<and> (\<exists>k. 0 < k \<and> k < MAX_VFSNODES \<and> node_id (g_nodes s ! k) = 0 \<and>
     fd_tables s' = (fd_tables s)(p := (fd_tables s p)(unat d \<mapsto> k)) \<and>
     (\<forall>j. j \<noteq> k \<longrightarrow> g_nodes s' ! j = g_nodes s ! j) \<and> node_id (g_nodes s' ! k) = k \<and> n_path (g_nodes s' ! k) = path \<and>
     n_flags (g_nodes s' ! k) = flags \<and> n_offset (g_nodes s' ! k) = 0 \<and> n_backend (g_nodes s' ! k) = Some b \<and>
     n_bctx (g_nodes s' ! k) = bctx \<and> n_pcb (g_nodes s' ! k) = Some p)"
proof -
  obtain k s1 where a: "alloc_node_id s = (k, s1)" by fastforce
  have big: "\<not> unat (of_int VFS_EMFILE :: u32) < MAX_FDS" by (simp add: VFS_EMFILE_def MAX_FDS_def)
  have k: "k \<noteq> 0"
  proof
    assume "k = 0"
    then have "d = of_int VFS_EMFILE" using e by (simp add: open_node_def a)
    then show False using d(2) big by blast
  qed
  have s1: "g_nodes s1 = g_nodes s" "fd_tables s1 = fd_tables s"
    using a by (auto simp: alloc_node_id_def Let_def split: option.splits)
  define n where "n = new_node k flags path b bctx (Some p)"
  define z where "z = node_stat_size b rel (upd_node k (\<lambda>_. n) s1) (n_size n)"
  have kk: "k < MAX_VFSNODES" "node_id (g_nodes s ! k) = 0" using alloc_node_spec [OF a k] by simp_all
  have ln: "length (g_nodes s) = MAX_VFSNODES" by (rule fds_invD(1) [OF i])
  let ?s2 = "upd_node k (\<lambda>n. n\<lparr>n_size := z\<rparr>) (upd_node k (\<lambda>_. n) s1)"
  have zz: "upd_node k (\<lambda>nd. nd\<lparr>n_size := node_stat_size b rel (upd_node k (\<lambda>_. n) s1) (n_size nd)\<rparr>) (upd_node k (\<lambda>_. n) s1) = ?s2"
    using kk ln s1 by (simp add: upd_node_def z_def)
  obtain x s3 where f: "install_fd k (Some p) ?s2 = (x, s3)" by fastforce
  have x: "x \<noteq> 0" "x = d" "s' = s3"
    using e d big k f unfolding open_node_def a prod.case n_def [symmetric] Let_def zz by (auto split: if_splits)
  have m: "List.find (\<lambda>i. fd_tables s p i = None) [1..<MAX_FDS] = Some (unat d) \<and>
      s' = ?s2\<lparr>fd_tables := (fd_tables s)(p := (fd_tables s p)(unat d \<mapsto> k))\<rparr>"
  proof (cases "List.find (\<lambda>i. fd_tables s p i = None) [1..<MAX_FDS]")
    case None
    then show ?thesis using f x by (simp add: install_fd_def s1)
  next
    case (Some y)
    then have "y < MAX_FDS" using find_Some [OF Some] by simp
    then have "unat (of_nat y :: u32) = y" by (simp add: unat_of_nat MAX_FDS_def)
    then show ?thesis using f x Some by (auto simp: install_fd_def s1)
  qed
  have g: "g_nodes s' = (g_nodes s)[k := n\<lparr>n_size := z\<rparr>]" using m s1 kk ln by simp
  have h: "fd_tables s' = (fd_tables s)(p := (fd_tables s p)(unat d \<mapsto> k))" using m by simp
  have "fd_tables s p (unat d) = None" using m find_Some by fast
  then show ?thesis using k kk ln l by (auto simp: g h n_def new_node_def intro!: exI [of _ k])
qed

text \<open>
  C21. A descriptor that \<open>vfs_open\<close> returns to a process was free, and now names a node that was free, opened on
  the canonical path by the longest mount that covers it, at offset 0; no other descriptor or node changes.
\<close>

theorem vfs_open_correct:
  assumes i: "fds_inv s" and e: "vfs_open (Some path) flags (Some p) s = (d, s')" and d: "d \<noteq> 0" "unat d < MAX_FDS"
  shows "\<exists>c b rel k. vfs_canonicalize (Some path) VFS_PATH_MAX = Some c \<and> find_backend c s = Some (b, rel) \<and>
    fd_tables s p (unat d) = None \<and> fd_tables s' = (fd_tables s)(p := (fd_tables s p)(unat d \<mapsto> k)) \<and>
    0 < k \<and> k < MAX_VFSNODES \<and> node_id (g_nodes s ! k) = 0 \<and> (\<forall>j. j \<noteq> k \<longrightarrow> g_nodes s' ! j = g_nodes s ! j) \<and>
    node_id (g_nodes s' ! k) = k \<and> n_path (g_nodes s' ! k) = c \<and> n_offset (g_nodes s' ! k) = 0 \<and>
    n_backend (g_nodes s' ! k) = Some b \<and> n_pcb (g_nodes s' ! k) = Some p \<and>
    (n_flags (g_nodes s' ! k) AND (VFS_O_READ OR VFS_O_WRITE)) \<noteq> 0"
proof -
  define fl where "fl = (if (flags AND (VFS_O_READ OR VFS_O_WRITE)) = 0 then flags OR VFS_O_READ else flags)"
  have big: "\<not> unat (of_int VFS_EINVAL :: u32) < MAX_FDS" "\<not> unat (of_int VFS_ENOENT :: u32) < MAX_FDS"
    by (simp_all add: VFS_EINVAL_def VFS_ENOENT_def MAX_FDS_def)
  have dd: "d \<noteq> of_int VFS_EINVAL" "d \<noteq> of_int VFS_ENOENT" using big d(2) by auto
  obtain c b rel bctx fs where c: "vfs_canonicalize (Some path) VFS_PATH_MAX = Some c" and f: "find_backend c s = Some (b, rel)"
    and o: "open_node c rel fl (Some p) b bctx (s\<lparr>vfs_fs := fs\<rparr>) = (d, s')"
    using e dd unfolding vfs_open_def fl_def [symmetric] Let_def by (auto split: if_split_asm option.splits prod.splits)
  have l: "length c < VFS_PATH_MAX" using canonicalize_walk(3) [OF c] by (simp add: VFS_PATH_MAX_def)
  have n: "(fl AND (VFS_O_READ OR VFS_O_WRITE)) \<noteq> 0"
    by (auto simp: fl_def VFS_O_READ_def VFS_O_WRITE_def bit.conj_disj_distrib2)
  show ?thesis using open_node_installs [OF fields_inv(1) [OF i] o d l] c f n by auto
qed

theorem vfs_open_correct_witness:
  "fst (vfs_open (Some ''/f'') 0 (Some (Proc 5)) one_file_vfs) = 1 \<and>
   (\<exists>k. fd_tables (snd (vfs_open (Some ''/f'') 0 (Some (Proc 5)) one_file_vfs)) (Proc 5) 1 = Some k \<and>
     n_path (g_nodes (snd (vfs_open (Some ''/f'') 0 (Some (Proc 5)) one_file_vfs)) ! k) = ''/f'')"
proof -
  have c: "vfs_canonicalize (Some ''/f'') VFS_PATH_MAX = Some ''/f''"
    by (simp add: vfs_canonicalize_def VFS_PATH_MAX_def canon_loop_nil canon_loop_cons)
  have d: "(1 :: u32) \<noteq> 0" "unat (1 :: u32) < MAX_FDS" by (simp_all add: MAX_FDS_def)
  show ?thesis using vfs_open_correct [OF one_file_inv prod.collapse [symmetric], of "''/f''" 0 "Proc 5"] d c one_file_fd by auto
qed

section \<open>Files of a mounted file system\<close>

text \<open>A descriptor of a file of a file system with the operations \<open>ops\<close>, whose handle is live.\<close>

definition file_fd :: "'fs vfs_ops \<Rightarrow> ('fs \<Rightarrow> u64 \<Rightarrow> bool) \<Rightarrow> u32 \<Rightarrow> nat \<Rightarrow> 'fs vfs \<Rightarrow> bool" where
  "file_fd ops live d i s \<longleftrightarrow> d \<noteq> 0 \<and> node_of_fd d s = Some i \<and> i < length (g_nodes s) \<and> n_ring (g_nodes s ! i) = None \<and>
     n_port_id (g_nodes s ! i) = 0 \<and> (\<exists>b. n_backend (g_nodes s ! i) = Some b \<and> be_ops (g_backends s ! b) = ops) \<and>
     live (vfs_fs s) (n_bctx (g_nodes s ! i))"

lemma node_of_fd_cong:
  assumes "\<And>k. node_id (g_nodes s' ! k) = node_id (g_nodes s ! k)" "fd_tables s' = fd_tables s" "vfs_ipc s' = vfs_ipc s"
  shows "node_of_fd d s' = node_of_fd d s"
  unfolding node_of_fd_def vfs_current_def assms ..

lemma file_fd_change:
  assumes "file_fd ops live d i s" "live fs (n_bctx (g_nodes s ! i))"
  shows "file_fd ops live d i (upd_node i (\<lambda>n. n\<lparr>n_offset := f n\<rparr>) (s\<lparr>vfs_fs := fs\<rparr>))" (is "file_fd _ _ _ _ ?s")
proof -
  have "node_of_fd d ?s = node_of_fd d s"
    by (rule node_of_fd_cong) (use assms(1) in \<open>auto simp: file_fd_def nth_list_update\<close>)
  then show ?thesis using assms unfolding file_fd_def by simp
qed

text \<open>
  What the VFS relies on in a file system that stores files: behind a live handle there are bytes
  and a position, and write, seek and read act on them.
\<close>

locale stored_files =
  fixes ops :: "'fs vfs_ops" and live :: "'fs \<Rightarrow> u64 \<Rightarrow> bool"
    and bytes :: "'fs \<Rightarrow> u64 \<Rightarrow> u8 list" and pos :: "'fs \<Rightarrow> u64 \<Rightarrow> nat"
  assumes has_write: "op_write ops \<noteq> None" and has_seek: "op_seek ops \<noteq> None" and has_read: "op_read ops \<noteq> None"
    and write_law: "live fs h \<Longrightarrow> pos fs h \<le> length (bytes fs h) \<Longrightarrow> length dat < 2 ^ 64 \<Longrightarrow>
      the (op_write ops) h dat fs = (0, fs') \<Longrightarrow>
      live fs' h \<and> pos fs' h = pos fs h + length dat \<and>
      bytes fs' h = take (pos fs h) (bytes fs h) @ dat @ drop (pos fs h + length dat) (bytes fs h)"
    and seek_law: "live fs h \<Longrightarrow> k \<le> length (bytes fs h) \<Longrightarrow> k < 2 ^ 63 \<Longrightarrow>
      the (op_seek ops) h (int k) VFS_SEEK_SET fs = (rc, fs') \<Longrightarrow>
      rc = int k \<and> live fs' h \<and> pos fs' h = k \<and> bytes fs' h = bytes fs h"
    and read_law: "live fs h \<Longrightarrow> n < 2 ^ 64 \<Longrightarrow> the (op_read ops) h n fs = (rc, dat, fs') \<Longrightarrow>
      rc = 0 \<and> dat = take n (drop (pos fs h) (bytes fs h)) \<and> live fs' h \<and> bytes fs' h = bytes fs h"
begin

lemma write_seek_read:
  assumes f: "file_fd ops live d i s" and h: "h = n_bctx (g_nodes s ! i)" and p: "p = pos (vfs_fs s) h" "p \<le> length (bytes (vfs_fs s) h)"
    and b: "p + length dat < 2 ^ 63" and w: "vfs_write now d (Some dat) s = Some (0, s1)"
  shows "\<exists>s2 s3. vfs_seek d (int p) VFS_SEEK_SET s1 = Some (int p, s2) \<and> vfs_read d True (length dat) got s2 = Some (0, dat, s3)"
proof -
  obtain fw fk fr where o: "op_write ops = Some fw" "op_seek ops = Some fk" "op_read ops = Some fr"
    using has_write has_seek has_read by auto
  have l: "live (vfs_fs s) h" using f h by (simp add: file_fd_def)
  have dat: "dat \<noteq> []" using w by (auto simp: vfs_write_def VFS_EINVAL_def split: if_splits)
  obtain rc fs1 where c: "fw h dat (vfs_fs s) = (rc, fs1)" by fastforce
  have s1: "rc = 0" "s1 = upd_node i (\<lambda>nd. nd\<lparr>n_offset := n_offset nd + of_nat (length dat)\<rparr>) (s\<lparr>vfs_fs := fs1\<rparr>)"
    using w f dat c o(1) h by (auto simp: vfs_write_def file_fd_def Let_def split: if_splits)
  have "length dat < 2 ^ 64" using b by simp
  then have w1: "live fs1 h" "bytes fs1 h = take p (bytes (vfs_fs s) h) @ dat @ drop (p + length dat) (bytes (vfs_fs s) h)"
    using write_law [OF l _ _ , of dat fs1] p c s1(1) o(1) by auto
  have f1: "file_fd ops live d i s1" and n1: "n_bctx (g_nodes s1 ! i) = h" "vfs_fs s1 = fs1"
    using file_fd_change [OF f, of fs1] w1(1) h f unfolding s1(2) file_fd_def by auto
  obtain rk fs2 where k: "fk h (int p) VFS_SEEK_SET fs1 = (rk, fs2)" by fastforce
  have "p \<le> length (bytes fs1 h)" "p < 2 ^ 63" using w1(2) p(2) b by auto
  then have k1: "rk = int p" "live fs2 h" "pos fs2 h = p" "bytes fs2 h = bytes fs1 h" using seek_law [OF w1(1) _ _ , of p rk fs2] k o(2) by auto
  let ?s2 = "upd_node i (\<lambda>nd. nd\<lparr>n_offset := of_int (int p)\<rparr>) (s1\<lparr>vfs_fs := fs2\<rparr>)"
  have sk: "vfs_seek d (int p) VFS_SEEK_SET s1 = Some (int p, ?s2)"
    using f1 k k1(1) n1 o(2) by (auto simp: vfs_seek_def file_fd_def Let_def)
  have f2: "file_fd ops live d i ?s2" and n2: "n_bctx (g_nodes ?s2 ! i) = h" "vfs_fs ?s2 = fs2"
    using file_fd_change [OF f1, of fs2] k1(2) n1 f1 unfolding file_fd_def by auto
  obtain rr dr fs3 where r: "fr h (length dat) fs2 = (rr, dr, fs3)" by (cases "fr h (length dat) fs2")
  have "rr = 0 \<and> dr = take (length dat) (drop p (bytes fs2 h))" using read_law [OF k1(2), of "length dat" rr dr fs3] r o(3) k1(3) b by simp
  then have "rr = 0" "dr = dat" using k1(4) w1(2) p(2) by simp_all
  then have "\<exists>s3. vfs_read d True (length dat) got ?s2 = Some (0, dat, s3)"
    using f2 n2 r o(3) unfolding file_fd_def vfs_read_def Let_def by auto
  then show ?thesis using sk by blast
qed

end

end
