(* ===== verification/RamFs.thy ===== *)
theory RamFs imports VfsInv begin

text \<open>
  The memory file system, \<open>src/kernel/vfs/ramfs.c\<close>: three fixed tables of entries, open files
  as objects of the kernel heap, and the table of operations it mounts. The contents of a file are
  the bytes of its own buffer; the bytes that nothing has written since the buffer was allocated
  are what \<open>garbage\<close> gives for their address. An operation is \<open>None\<close> where the code uses a dead
  handle, reads past a buffer, stores a path without its final zero, overflows a signed integer,
  or calls the heap where that is \<open>None\<close>.
\<close>

section \<open>State\<close>

definition RAMFS_NAME_LEN :: nat where "RAMFS_NAME_LEN = 256"
definition RAMFS_MAX_FILES :: nat where "RAMFS_MAX_FILES = 256"
definition VFS_DIRENT_NAME_LEN :: nat where "VFS_DIRENT_NAME_LEN = 256"

record ramfs_entry =
  e_path :: string
  e_ptr :: u64
  e_bytes :: "u8 list"
  e_size :: u64
  e_kind :: nat
  e_valid :: bool

definition zero_entry :: ramfs_entry where
  "zero_entry = \<lparr>e_path = [], e_ptr = 0, e_bytes = [], e_size = 0, e_kind = 0, e_valid = False\<rparr>"

text \<open>An entry of a table, or the shared entry of the root directory.\<close>

datatype eref = RootEnt | Ent nat

record ramfs_file =
  rf_fs :: nat
  rf_entry :: eref
  rf_offset :: u64

text \<open>The tables by number: 0 is \<open>g_boot_fs\<close>, 1 is \<open>g_vfs_root_fs\<close>, 2 is \<open>g_root_fs\<close>.\<close>

record ramworld =
  ram_fs :: "nat \<Rightarrow> ramfs_entry list"
  s_root :: ramfs_entry
  ram_files :: "u64 \<Rightarrow> ramfs_file option"
  ram_heap :: kheap
  garbage :: "u64 \<Rightarrow> u8"

definition s_root_init :: ramfs_entry where
  "s_root_init = \<lparr>e_path = ''/'', e_ptr = 0, e_bytes = [], e_size = 0, e_kind = VFS_NODE_DIR, e_valid = True\<rparr>"

definition get_entry :: "nat \<Rightarrow> eref \<Rightarrow> ramworld \<Rightarrow> ramfs_entry" where
  "get_entry n r w = (case r of RootEnt \<Rightarrow> s_root w | Ent i \<Rightarrow> ram_fs w n ! i)"

definition put_entry :: "nat \<Rightarrow> eref \<Rightarrow> ramfs_entry \<Rightarrow> ramworld \<Rightarrow> ramworld" where
  "put_entry n r e w =
     (case r of RootEnt \<Rightarrow> w\<lparr>s_root := e\<rparr> | Ent i \<Rightarrow> w\<lparr>ram_fs := (ram_fs w)(n := (ram_fs w n)[i := e])\<rparr>)"

definition ram_alloc :: "u64 \<Rightarrow> ramworld \<Rightarrow> (u64 \<times> u8 list \<times> ramworld) option" where
  "ram_alloc sz w =
     (case kmalloc sz (ram_heap w) of None \<Rightarrow> None
      | Some (p, h) \<Rightarrow> Some (p, if p = 0 then [] else map (\<lambda>i. garbage w (p + of_nat i)) [0..<unat sz], w\<lparr>ram_heap := h\<rparr>))"

definition ram_free :: "u64 \<Rightarrow> ramworld \<Rightarrow> ramworld option" where
  "ram_free p w = (case kfree p (ram_heap w) of None \<Rightarrow> None | Some h \<Rightarrow> Some (w\<lparr>ram_heap := h\<rparr>))"

section \<open>Entries\<close>

definition ramfs_find :: "nat \<Rightarrow> string \<Rightarrow> ramworld \<Rightarrow> nat option" where
  "ramfs_find n path w = find_index (\<lambda>e. e_valid e \<and> e_path e = path) (ram_fs w n)"

definition free_entry :: "nat \<Rightarrow> ramworld \<Rightarrow> nat option" where
  "free_entry n w = find_index (\<lambda>e. \<not> e_valid e) (ram_fs w n)"

text \<open>Copying \<open>size\<close> bytes in from a caller, who may pass no data.\<close>

definition too_short :: "u8 list option \<Rightarrow> u64 \<Rightarrow> bool" where
  "too_short dat sz \<longleftrightarrow> (case dat of None \<Rightarrow> False | Some bs \<Rightarrow> length bs < unat sz)"

definition copy_in :: "u8 list option \<Rightarrow> u8 list \<Rightarrow> u8 list" where
  "copy_in dat nb = (case dat of None \<Rightarrow> nb | Some bs \<Rightarrow> take (length nb) bs)"

definition ramfs_add_file :: "nat \<Rightarrow> string \<Rightarrow> u8 list option \<Rightarrow> u64 \<Rightarrow> ramworld \<Rightarrow> (int \<times> ramworld) option" where
  "ramfs_add_file n path dat sz w =
     (case free_entry n w of None \<Rightarrow> Some (-1, w)
      | Some i \<Rightarrow>
          if length path \<ge> RAMFS_NAME_LEN \<or> too_short dat sz then None
          else (case ram_alloc sz w of None \<Rightarrow> None
            | Some (p, nb, w) \<Rightarrow>
                let e = (get_entry n (Ent i) w)\<lparr>e_path := path, e_ptr := p\<rparr> in
                if p = 0 \<and> sz > 0 then Some (-1, put_entry n (Ent i) e w)
                else Some (0, put_entry n (Ent i) (e\<lparr>e_bytes := copy_in dat nb, e_size := sz,
                       e_kind := VFS_NODE_FILE, e_valid := True\<rparr>) w)))"

definition ramfs_add_dir :: "nat \<Rightarrow> string \<Rightarrow> ramworld \<Rightarrow> (int \<times> ramworld) option" where
  "ramfs_add_dir n path w =
     (case free_entry n w of None \<Rightarrow> Some (-1, w)
      | Some i \<Rightarrow>
          if length path \<ge> RAMFS_NAME_LEN then None
          else Some (0, put_entry n (Ent i) \<lparr>e_path = path, e_ptr = 0, e_bytes = [], e_size = 0,
                 e_kind = VFS_NODE_DIR, e_valid = True\<rparr> w))"

section \<open>Operations\<close>

text \<open>The entry a path is opened on: an existing one, the root directory, or a new file.\<close>

definition lookup_entry :: "nat \<Rightarrow> string \<Rightarrow> u32 \<Rightarrow> ramworld \<Rightarrow> (eref option \<times> ramworld) option" where
  "lookup_entry n path flags w =
     (case ramfs_find n path w of Some i \<Rightarrow> Some (Some (Ent i), w)
      | None \<Rightarrow>
          if (flags AND VFS_O_DIR) \<noteq> 0 \<and> path = ''/'' then Some (Some RootEnt, w)
          else if (flags AND VFS_O_CREAT) \<noteq> 0 then
            (case free_entry n w of None \<Rightarrow> Some (None, w)
             | Some i \<Rightarrow>
                 if length path \<ge> RAMFS_NAME_LEN then None
                 else Some (Some (Ent i), put_entry n (Ent i) \<lparr>e_path = path, e_ptr = 0, e_bytes = [], e_size = 0,
                        e_kind = VFS_NODE_FILE, e_valid = True\<rparr> w))
          else Some (None, w))"

definition truncate_entry :: "nat \<Rightarrow> eref \<Rightarrow> u32 \<Rightarrow> ramworld \<Rightarrow> ramworld option" where
  "truncate_entry n r flags w =
     (let e = get_entry n r w in
      if (flags AND VFS_O_TRUNC) \<noteq> 0 \<and> e_kind e = VFS_NODE_FILE \<and> e_ptr e \<noteq> 0
      then (case ram_free (e_ptr e) w of None \<Rightarrow> None
        | Some w \<Rightarrow> Some (put_entry n r (e\<lparr>e_ptr := 0, e_bytes := [], e_size := 0\<rparr>) w))
      else Some w)"

definition SIZEOF_RAMFS_FILE :: u64 where "SIZEOF_RAMFS_FILE = 24"

definition ramfs_open :: "nat \<Rightarrow> string \<Rightarrow> u32 \<Rightarrow> ramworld \<Rightarrow> (u64 \<times> ramworld) option" where
  "ramfs_open n path flags w =
     (case lookup_entry n path flags w of None \<Rightarrow> None
      | Some (None, w) \<Rightarrow> Some (0, w)
      | Some (Some r, w) \<Rightarrow>
          if e_kind (get_entry n r w) = VFS_NODE_DIR \<and> (flags AND VFS_O_DIR) = 0 then Some (0, w)
          else (case truncate_entry n r flags w of None \<Rightarrow> None
            | Some w \<Rightarrow> (case ram_alloc SIZEOF_RAMFS_FILE w of None \<Rightarrow> None
                | Some (p, _, w) \<Rightarrow>
                    if p = 0 then Some (0, w)
                    else Some (p, w\<lparr>ram_files := (ram_files w)(p \<mapsto> \<lparr>rf_fs = n, rf_entry = r, rf_offset = 0\<rparr>)\<rparr>))))"

definition ramfs_close :: "u64 \<Rightarrow> ramworld \<Rightarrow> ramworld option" where
  "ramfs_close h w =
     (if h \<noteq> 0 then (case ram_free h w of None \<Rightarrow> None | Some w \<Rightarrow> Some (w\<lparr>ram_files := (ram_files w)(h := None)\<rparr>))
      else Some w)"

definition set_offset :: "u64 \<Rightarrow> u64 \<Rightarrow> ramworld \<Rightarrow> ramworld" where
  "set_offset h off w = w\<lparr>ram_files := (ram_files w)(h := map_option (\<lambda>f. f\<lparr>rf_offset := off\<rparr>) (ram_files w h))\<rparr>"

definition ramfs_read :: "u64 \<Rightarrow> u64 \<Rightarrow> ramworld \<Rightarrow> (int \<times> u8 list \<times> ramworld) option" where
  "ramfs_read h n w =
     (if h = 0 then Some (VFS_EINVAL, [], w)
      else (case ram_files w h of None \<Rightarrow> None
        | Some f \<Rightarrow>
            let e = get_entry (rf_fs f) (rf_entry f) w in
            if rf_offset f \<ge> e_size e then Some (0, [], w)
            else
              let avail = e_size e - rf_offset f; to_read = (if n < avail then n else avail) in
              if unat (rf_offset f) + unat to_read > length (e_bytes e) then None
              else Some (0, take (unat to_read) (drop (unat (rf_offset f)) (e_bytes e)),
                         set_offset h (rf_offset f + to_read) w)))"

definition overwrite :: "nat \<Rightarrow> u8 list \<Rightarrow> u8 list \<Rightarrow> u8 list" where
  "overwrite off dat bs = take off bs @ dat @ drop (off + length dat) bs"

text \<open>The step that makes room: a larger buffer with the old contents; 0 is a failed allocation.\<close>

definition grow_entry :: "nat \<Rightarrow> eref \<Rightarrow> u64 \<Rightarrow> ramworld \<Rightarrow> (bool \<times> ramworld) option" where
  "grow_entry n r new_end w =
     (let e = get_entry n r w in
      if new_end > e_size e then
        (case ram_alloc new_end w of None \<Rightarrow> None
         | Some (p, nb, w) \<Rightarrow>
             if p = 0 then Some (False, w)
             else
               let cp = (if e_ptr e \<noteq> 0 \<and> e_size e > 0 then unat (e_size e) else 0) in
               if cp > length (e_bytes e) then None
               else (case (if e_ptr e \<noteq> 0 then ram_free (e_ptr e) w else Some w) of None \<Rightarrow> None
                 | Some w \<Rightarrow> Some (True, put_entry n r
                     (e\<lparr>e_ptr := p, e_bytes := take cp (e_bytes e) @ drop cp nb, e_size := new_end\<rparr>) w)))
      else Some (True, w))"

definition ramfs_write :: "u64 \<Rightarrow> u8 list \<Rightarrow> ramworld \<Rightarrow> (int \<times> ramworld) option" where
  "ramfs_write h dat w =
     (if h = 0 then Some (VFS_EINVAL, w)
      else (case ram_files w h of None \<Rightarrow> None
        | Some f \<Rightarrow>
            let n = of_nat (length dat) in
            if n > 0 \<and> rf_offset f + n < rf_offset f then Some (VFS_ENOSPC, w)
            else (case grow_entry (rf_fs f) (rf_entry f) (rf_offset f + n) w of None \<Rightarrow> None
              | Some (False, w) \<Rightarrow> Some (VFS_ENOSPC, w)
              | Some (True, w) \<Rightarrow>
                  let e = get_entry (rf_fs f) (rf_entry f) w in
                  if unat (rf_offset f) + length dat > length (e_bytes e) then None
                  else Some (0, set_offset h (rf_offset f + n)
                    (put_entry (rf_fs f) (rf_entry f) (e\<lparr>e_bytes := overwrite (unat (rf_offset f)) dat (e_bytes e)\<rparr>) w)))))"

definition ramfs_seek :: "u64 \<Rightarrow> int \<Rightarrow> int \<Rightarrow> ramworld \<Rightarrow> (int \<times> ramworld) option" where
  "ramfs_seek h off whence w =
     (if h = 0 then Some (VFS_EINVAL, w)
      else (case ram_files w h of None \<Rightarrow> None
        | Some f \<Rightarrow>
            let e = get_entry (rf_fs f) (rf_entry f) w in
            if whence \<notin> {VFS_SEEK_SET, VFS_SEEK_CUR, VFS_SEEK_END} then Some (VFS_EINVAL, w)
            else
              let new_off = (if whence = VFS_SEEK_SET then off
                             else if whence = VFS_SEEK_CUR then sint (rf_offset f) + off else sint (e_size e) + off) in
              if \<not> in_int64 new_off then None
              else if new_off < 0 \<or> (of_int new_off :: u64) > e_size e then Some (VFS_EINVAL, w)
              else Some (new_off, set_offset h (of_int new_off) w)))"

text \<open>
  Listing a directory. A name is written into the entry's array of characters, which keeps the
  rest of what it held; \<open>put_name\<close> is \<open>strncpy\<close> into it.
\<close>

definition put_name :: "string \<Rightarrow> nat \<Rightarrow> string \<Rightarrow> string" where
  "put_name nm n arr = take n (nm @ replicate n (CHR 0x00)) @ drop n arr"

definition child_name :: "string \<Rightarrow> string \<Rightarrow> string option" where
  "child_name dir path =
     (if dir = ''/'' then
        (if path = [] \<or> hd path \<noteq> CHR ''/'' \<or> tl path = [] then None else Some (tl path))
      else if take (length dir) path \<noteq> dir then None
      else if length path = length dir \<or> path ! length dir \<noteq> CHR ''/'' then None
      else Some (drop (Suc (length dir)) path))"

definition last_slash :: "string \<Rightarrow> nat option" where
  "last_slash nm = (if CHR ''/'' \<in> set nm then Some (length nm - 1 - length (takeWhile (\<lambda>c. c \<noteq> CHR ''/'') (rev nm))) else None)"

definition already_listed :: "string \<Rightarrow> nat \<Rightarrow> vfs_dirent \<Rightarrow> bool" where
  "already_listed nm sub_len d \<longleftrightarrow>
     take sub_len (de_name d) = take sub_len nm \<and> de_name d ! sub_len = CHR 0x00 \<and> de_kind d = VFS_NODE_DIR"

fun readdir_loop ::
    "string \<Rightarrow> eref \<Rightarrow> nat \<Rightarrow> ramfs_entry list \<Rightarrow> nat \<Rightarrow> vfs_dirent list \<Rightarrow> nat \<Rightarrow> (vfs_dirent list \<times> nat) option" where
  "readdir_loop dir self cap [] i buf count = Some (buf, count)"
| "readdir_loop dir self cap (e # es) i buf count =
     (if \<not> count < cap then Some (buf, count)
      else if \<not> e_valid e \<or> self = Ent i then readdir_loop dir self cap es (Suc i) buf count
      else (case child_name dir (e_path e) of None \<Rightarrow> readdir_loop dir self cap es (Suc i) buf count
        | Some nm \<Rightarrow>
            (case last_slash nm of
               Some sub_len \<Rightarrow>
                 if list_ex (already_listed nm sub_len) (take count buf) then readdir_loop dir self cap es (Suc i) buf count
                 else if \<not> count < length buf then None
                 else readdir_loop dir self cap es (Suc i)
                   (buf[count := (buf ! count)\<lparr>de_name := put_name nm (sub_len + 1) (de_name (buf ! count)),
                      de_kind := VFS_NODE_DIR, de_size := 0\<rparr>]) (Suc count)
             | None \<Rightarrow>
                 if \<not> count < length buf then None
                 else readdir_loop dir self cap es (Suc i)
                   (buf[count := (buf ! count)\<lparr>de_name := put_name nm VFS_DIRENT_NAME_LEN (de_name (buf ! count)),
                      de_kind := e_kind e, de_size := sint (e_size e)\<rparr>]) (Suc count))))"

definition ramfs_readdir ::
    "u64 \<Rightarrow> vfs_dirent list \<Rightarrow> u32 \<Rightarrow> ramworld \<Rightarrow> (int \<times> vfs_dirent list \<times> u32 option \<times> ramworld) option" where
  "ramfs_readdir h buf cap w =
     (if h = 0 then Some (VFS_EINVAL, buf, None, w)
      else (case ram_files w h of None \<Rightarrow> None
        | Some f \<Rightarrow>
            (case readdir_loop (e_path (get_entry (rf_fs f) (rf_entry f) w)) (rf_entry f) (unat cap) (ram_fs w (rf_fs f)) 0 buf 0 of
               None \<Rightarrow> None
             | Some (buf, count) \<Rightarrow> Some (0, buf, Some (of_nat count), w))))"

definition base_name_from_path :: "string \<Rightarrow> nat \<Rightarrow> string" where
  "base_name_from_path path out_sz = take out_sz (last_component path path)"

definition ramfs_stat :: "nat \<Rightarrow> string \<Rightarrow> stat_info \<Rightarrow> ramworld \<Rightarrow> int \<times> stat_info" where
  "ramfs_stat n path out w =
     (case ramfs_find n path w of None \<Rightarrow> (VFS_ENOENT, out)
      | Some i \<Rightarrow>
          let e = get_entry n (Ent i) w in
          (0, out\<lparr>si_size := sint (e_size e), si_kind := e_kind e, si_mtime_ns := 0,
                  si_name := base_name_from_path (e_path e) VFS_PATH_MAX\<rparr>))"

definition ramfs_unlink :: "nat \<Rightarrow> string \<Rightarrow> ramworld \<Rightarrow> (int \<times> ramworld) option" where
  "ramfs_unlink n path w = Some (VFS_EPERM, w)"

definition ramfs_mkdir :: "nat \<Rightarrow> string \<Rightarrow> ramworld \<Rightarrow> (int \<times> ramworld) option" where
  "ramfs_mkdir n path w =
     (case ramfs_add_dir n path w of None \<Rightarrow> None | Some (rc, w) \<Rightarrow> Some (if rc = 0 then 0 else VFS_ENOSPC, w))"

section \<open>The table of operations and the mounts\<close>

text \<open>
  Undefined behaviour is a state of its own for the mounted file system, which it never leaves; the
  value that stands for the result is then no success.
\<close>

definition lift_op :: "'r \<Rightarrow> (ramworld \<Rightarrow> ('r \<times> ramworld) option) \<Rightarrow> ramworld option \<Rightarrow> 'r \<times> ramworld option" where
  "lift_op dflt f ws =
     (case ws of None \<Rightarrow> (dflt, None)
      | Some w \<Rightarrow> (case f w of None \<Rightarrow> (dflt, None) | Some (r, w) \<Rightarrow> (r, Some w)))"

definition ramfs_ops :: "nat \<Rightarrow> ramworld option vfs_ops" where
  "ramfs_ops n = \<lparr>
     op_open = Some (\<lambda>path flags. lift_op 0 (ramfs_open n path flags)),
     op_close = Some (\<lambda>h ws. case ws of None \<Rightarrow> None | Some w \<Rightarrow> ramfs_close h w),
     op_read = Some (\<lambda>h k ws. case lift_op (VFS_ERR, []) (\<lambda>w. map_option (\<lambda>(rc, dat, w). ((rc, dat), w)) (ramfs_read h (of_nat k) w)) ws of
         ((rc, dat), ws) \<Rightarrow> (rc, dat, ws)),
     op_write = Some (\<lambda>h dat. lift_op VFS_ERR (ramfs_write h dat)),
     op_seek = Some (\<lambda>h off whence. lift_op VFS_ERR (ramfs_seek h off whence)),
     op_readdir = Some (\<lambda>h buf cap ws.
         case lift_op (VFS_ERR, buf, None) (\<lambda>w. map_option (\<lambda>(rc, buf, k, w). ((rc, buf, k), w)) (ramfs_readdir h buf cap w)) ws of
         ((rc, buf, k), ws) \<Rightarrow> (rc, buf, k, ws)),
     op_stat = Some (\<lambda>path out ws. case ws of None \<Rightarrow> (VFS_ERR, out) | Some w \<Rightarrow> ramfs_stat n path out w),
     op_unlink = Some (\<lambda>path. lift_op VFS_ERR (ramfs_unlink n path)),
     op_mkdir = Some (\<lambda>path. lift_op VFS_ERR (ramfs_mkdir n path))\<rparr>"

definition clear_fs :: "nat \<Rightarrow> ramworld \<Rightarrow> ramworld" where
  "clear_fs n w = w\<lparr>ram_fs := (ram_fs w)(n := replicate RAMFS_MAX_FILES zero_entry)\<rparr>"

definition ramfs_boot_init :: "ramworld option vfs \<Rightarrow> nat \<times> ramworld option vfs" where
  "ramfs_boot_init s = vfs_mount (Some ''/boot'') (ramfs_ops 0) (s\<lparr>vfs_fs := map_option (clear_fs 0) (vfs_fs s)\<rparr>)"

definition ramfs_root_init :: "u8 list option \<Rightarrow> u64 \<Rightarrow> ramworld option vfs \<Rightarrow> nat \<times> ramworld option vfs" where
  "ramfs_root_init initrd sz s =
     (let s = s\<lparr>vfs_fs := map_option (clear_fs 2) (vfs_fs s)\<rparr>;
          s = (if initrd \<noteq> None \<and> sz > 0
               then s\<lparr>vfs_fs := snd (lift_op VFS_ERR (ramfs_add_file 2 ''/initrd'' initrd sz) (vfs_fs s))\<rparr> else s) in
      vfs_mount (Some ''/root'') (ramfs_ops 2) s)"

definition ramfs_mount_root :: "ramworld option vfs \<Rightarrow> nat \<times> ramworld option vfs" where
  "ramfs_mount_root s = vfs_mount (Some ''/'') (ramfs_ops 1) (s\<lparr>vfs_fs := map_option (clear_fs 1) (vfs_fs s)\<rparr>)"

definition ramfs_root_mkdir :: "string \<Rightarrow> ramworld \<Rightarrow> (int \<times> ramworld) option" where
  "ramfs_root_mkdir path w =
     (case ramfs_find 1 path w of Some _ \<Rightarrow> Some (0, w) | None \<Rightarrow> ramfs_add_dir 1 path w)"

definition ramfs_root_writefile :: "string \<Rightarrow> u8 list option \<Rightarrow> u64 \<Rightarrow> ramworld \<Rightarrow> (int \<times> ramworld) option" where
  "ramfs_root_writefile path dat sz w =
     (case ramfs_find 1 path w of None \<Rightarrow> ramfs_add_file 1 path dat sz w
      | Some i \<Rightarrow>
          if too_short dat sz then None
          else (case (if sz > 0 then ram_alloc sz w else Some (0, [], w)) of None \<Rightarrow> None
            | Some (p, nb, w) \<Rightarrow>
                if p = 0 \<and> sz > 0 then Some (-1, w)
                else
                  let e = get_entry 1 (Ent i) w in
                  (case (if e_ptr e \<noteq> 0 then ram_free (e_ptr e) w else Some w) of None \<Rightarrow> None
                   | Some w \<Rightarrow> Some (0, put_entry 1 (Ent i) (e\<lparr>e_ptr := p, e_bytes := copy_in dat nb, e_size := sz\<rparr>) w))))"

section \<open>Well-formed tables\<close>

definition entry_ok :: "ramfs_entry \<Rightarrow> bool" where
  "entry_ok e \<longleftrightarrow> length (e_bytes e) = unat (e_size e) \<and> (e_ptr e = 0 \<or> \<not> e_valid e \<longrightarrow> e_size e = 0)"

definition ref_ok :: "nat \<Rightarrow> eref \<Rightarrow> ramworld \<Rightarrow> bool" where
  "ref_ok n r w \<longleftrightarrow> (case r of RootEnt \<Rightarrow> e_valid (s_root w) | Ent i \<Rightarrow> i < length (ram_fs w n) \<and> e_valid (ram_fs w n ! i))"

definition ram_inv :: "ramworld \<Rightarrow> bool" where
  "ram_inv w \<longleftrightarrow> (\<forall>n. \<forall>e \<in> set (ram_fs w n). entry_ok e) \<and> entry_ok (s_root w) \<and> e_valid (s_root w) \<and>
     (\<forall>h f. ram_files w h = Some f \<longrightarrow> h \<noteq> 0 \<and> ref_ok (rf_fs f) (rf_entry f) w)"

lemma ram_inv_slot: "ram_inv w \<Longrightarrow> i < length (ram_fs w n) \<Longrightarrow> entry_ok (get_entry n (Ent i) w)"
  unfolding ram_inv_def get_entry_def eref.case using nth_mem by blast

lemma ram_inv_entry: "ram_inv w \<Longrightarrow> ref_ok n r w \<Longrightarrow> entry_ok (get_entry n r w)"
  using ram_inv_slot [of w _ n] by (cases r) (auto simp: ref_ok_def, simp add: ram_inv_def get_entry_def)

lemma ram_inv_file: "ram_inv w \<Longrightarrow> ram_files w h = Some f \<Longrightarrow> h \<noteq> 0 \<and> ref_ok (rf_fs f) (rf_entry f) w"
  by (simp add: ram_inv_def)

lemma put_entry_fields [simp]:
  "ram_files (put_entry n r e w) = ram_files w" "ram_heap (put_entry n r e w) = ram_heap w"
  "garbage (put_entry n r e w) = garbage w" "length (ram_fs (put_entry n r e w) k) = length (ram_fs w k)"
  by (simp_all add: put_entry_def split: eref.splits)

lemma get_put_entry: "ref_ok n r w \<Longrightarrow> get_entry n r (put_entry n r e w) = e"
  by (auto simp: ref_ok_def get_entry_def put_entry_def split: eref.splits)

lemma get_put_slot: "i < length (ram_fs w n) \<Longrightarrow> get_entry n (Ent i) (put_entry n (Ent i) e w) = e"
  by (simp add: get_entry_def put_entry_def)

text \<open>Two references to different entries: the root entry is shared by all tables.\<close>

definition apart :: "nat \<Rightarrow> eref \<Rightarrow> nat \<Rightarrow> eref \<Rightarrow> bool" where
  "apart n r m q \<longleftrightarrow> r \<noteq> q \<or> r \<noteq> RootEnt \<and> n \<noteq> m"

lemma get_put_apart: "apart n r m q \<Longrightarrow> get_entry m q (put_entry n r e w) = get_entry m q w"
  by (cases r; cases q) (auto simp: apart_def get_entry_def put_entry_def intro: nth_list_update_neq)

lemma put_entry_inv:
  assumes "ram_inv w" "entry_ok e" "e_valid e \<or> (\<exists>i. r = Ent i \<and> \<not> e_valid (ram_fs w n ! i))"
  shows "ram_inv (put_entry n r e w)"
proof (cases r)
  case RootEnt
  then show ?thesis using assms by (auto simp: ram_inv_def put_entry_def ref_ok_def split: eref.splits)
next
  case (Ent i)
  have r: "ref_ok m q (put_entry n (Ent i) e w)" if "ref_ok m q w" for m q
  proof (cases "m = n \<and> q = Ent i")
    case True
    then show ?thesis using that assms(3) unfolding Ent by (auto simp: ref_ok_def put_entry_def)
  next
    case False
    then show ?thesis using that by (cases q) (auto simp: ref_ok_def put_entry_def)
  qed
  show ?thesis using assms r unfolding Ent
    by (auto simp: ram_inv_def put_entry_def dest: set_update_subset_insert [THEN subsetD])
qed

lemma ram_inv_fields:
  "ram_inv (w\<lparr>ram_heap := h\<rparr>) = ram_inv w" "get_entry n r (w\<lparr>ram_heap := h\<rparr>) = get_entry n r w" "ref_ok n r (w\<lparr>ram_heap := h\<rparr>) = ref_ok n r w"
  by (simp_all add: ram_inv_def ref_ok_def get_entry_def split: eref.splits)

lemma ram_alloc_spec:
  assumes "ram_alloc sz w = Some (p, nb, w')"
  obtains h where "w' = w\<lparr>ram_heap := h\<rparr>" "length nb = (if p = 0 then 0 else unat sz)"
  using assms by (auto simp: ram_alloc_def split: option.splits)

lemma ram_free_spec:
  assumes "ram_free p w = Some w'"
  obtains h where "w' = w\<lparr>ram_heap := h\<rparr>"
  using assms by (auto simp: ram_free_def split: option.splits)

lemma copy_in_length: "\<not> too_short dat sz \<Longrightarrow> length nb = unat sz \<Longrightarrow> length (copy_in dat nb) = unat sz"
  by (auto simp: copy_in_def too_short_def split: option.splits)

lemma free_entry_spec: "free_entry n w = Some i \<Longrightarrow> i < length (ram_fs w n) \<and> \<not> e_valid (ram_fs w n ! i)"
  using find_index_Some [of "\<lambda>e. \<not> e_valid e" "ram_fs w n" i] by (simp add: free_entry_def)

lemma ramfs_find_spec: "ramfs_find n path w = Some i \<Longrightarrow> ref_ok n (Ent i) w \<and> e_path (get_entry n (Ent i) w) = path"
  using find_index_Some [of "\<lambda>e. e_valid e \<and> e_path e = path" "ram_fs w n" i] by (simp add: ramfs_find_def ref_ok_def get_entry_def)

section \<open>Each operation keeps them\<close>

lemma add_file_inv:
  assumes i: "ram_inv w" and e: "ramfs_add_file n path dat sz w = Some (rc, w')"
  shows "ram_inv w'"
proof (cases "free_entry n w")
  case None
  then show ?thesis using i e by (simp add: ramfs_add_file_def)
next
  case (Some k)
  obtain p nb w1 where a: "ram_alloc sz w = Some (p, nb, w1)" and ts: "\<not> too_short dat sz"
    using e Some by (auto simp: ramfs_add_file_def split: if_splits option.splits)
  obtain h where h: "w1 = w\<lparr>ram_heap := h\<rparr>" "length nb = (if p = 0 then 0 else unat sz)" using ram_alloc_spec [OF a] .
  have i1: "ram_inv w1" and k: "\<not> e_valid (ram_fs w1 n ! k)" using i free_entry_spec [OF Some] by (simp_all add: h ram_inv_fields)
  have o: "entry_ok (get_entry n (Ent k) w1)" using ram_inv_slot [OF i] free_entry_spec [OF Some] by (simp add: h ram_inv_fields)
  then have z: "e_size (get_entry n (Ent k) w1) = 0" using k by (simp add: entry_ok_def get_entry_def)
  let ?e = "(get_entry n (Ent k) w1)\<lparr>e_path := path, e_ptr := p\<rparr>"
  show ?thesis
  proof (cases "p = 0 \<and> sz > 0")
    case True
    then have "w' = put_entry n (Ent k) ?e w1" using e Some a ts by (simp add: ramfs_add_file_def Let_def split: if_splits)
    then show ?thesis using put_entry_inv [OF i1, of ?e "Ent k" n] o z k by (auto simp: entry_ok_def)
  next
    case False
    let ?f = "?e\<lparr>e_bytes := copy_in dat nb, e_size := sz, e_kind := VFS_NODE_FILE, e_valid := True\<rparr>"
    have w: "w' = put_entry n (Ent k) ?f w1" using e Some a ts False unfolding ramfs_add_file_def Let_def by (auto split: if_splits)
    have "length nb = unat sz" using h(2) False by (auto simp: word_gt_0)
    then have "entry_ok ?f" using copy_in_length [OF ts] False by (auto simp: entry_ok_def word_gt_0)
    then show ?thesis unfolding w by (rule put_entry_inv [OF i1]) simp
  qed
qed

lemma add_dir_inv: "ram_inv w \<Longrightarrow> ramfs_add_dir n path w = Some (rc, w') \<Longrightarrow> ram_inv w'"
  by (auto simp: ramfs_add_dir_def entry_ok_def intro!: put_entry_inv split: if_splits option.splits)

lemma lookup_entry_inv:
  assumes i: "ram_inv w" and e: "lookup_entry n path flags w = Some (r, w')"
  shows "ram_inv w'" and "r = Some q \<Longrightarrow> ref_ok n q w'"
proof -
  have "ram_inv w' \<and> (\<forall>q. r = Some q \<longrightarrow> ref_ok n q w')"
  proof (cases "ramfs_find n path w")
    case (Some k)
    then show ?thesis using e i ramfs_find_spec [OF Some] by (auto simp: lookup_entry_def)
  next
    case None
    let ?e = "\<lparr>e_path = path, e_ptr = 0, e_bytes = [], e_size = 0, e_kind = VFS_NODE_FILE, e_valid = True\<rparr>"
    have "ram_inv (put_entry n (Ent k) ?e w)" for k by (rule put_entry_inv [OF i]) (simp_all add: entry_ok_def)
    moreover have "ref_ok n (Ent k) (put_entry n (Ent k) ?e w)" if "free_entry n w = Some k" for k
      using free_entry_spec [OF that] by (simp add: ref_ok_def put_entry_def)
    moreover have "ref_ok n RootEnt w" using i by (simp add: ref_ok_def ram_inv_def)
    ultimately show ?thesis using e i None unfolding lookup_entry_def by (auto split: if_splits option.splits)
  qed
  then show "ram_inv w'" and "r = Some q \<Longrightarrow> ref_ok n q w'" by blast+
qed

lemma truncate_entry_inv:
  assumes i: "ram_inv w" and r: "ref_ok n q w" and e: "truncate_entry n q flags w = Some w'"
  shows "ram_inv w' \<and> ref_ok n q w'"
proof (cases "w' = w")
  case False
  then obtain w1 where f: "ram_free (e_ptr (get_entry n q w)) w = Some w1"
    and w: "w' = put_entry n q ((get_entry n q w)\<lparr>e_ptr := 0, e_bytes := [], e_size := 0\<rparr>) w1"
    using e by (auto simp: truncate_entry_def Let_def split: if_splits option.splits)
  obtain h where h: "w1 = w\<lparr>ram_heap := h\<rparr>" using ram_free_spec [OF f] .
  have v: "e_valid (get_entry n q w)" using r by (auto simp: ref_ok_def get_entry_def split: eref.splits)
  show ?thesis using put_entry_inv [of w1 "(get_entry n q w)\<lparr>e_ptr := 0, e_bytes := [], e_size := 0\<rparr>" q n] i v r
    unfolding w h by (auto simp: ram_inv_fields entry_ok_def ref_ok_def put_entry_def split: eref.splits)
qed (use i r in simp)

lemma ram_files_inv:
  assumes i: "ram_inv w" and f: "\<And>h f. F h = Some f \<Longrightarrow> h \<noteq> 0 \<and> ref_ok (rf_fs f) (rf_entry f) w"
  shows "ram_inv (w\<lparr>ram_files := F\<rparr>)"
proof -
  have "ref_ok n r (w\<lparr>ram_files := F\<rparr>) = ref_ok n r w" for n r by (simp add: ref_ok_def split: eref.splits)
  then show ?thesis using i f unfolding ram_inv_def by simp
qed

lemma file_put_inv: "ram_inv w \<Longrightarrow> p \<noteq> 0 \<Longrightarrow> ref_ok n q w \<Longrightarrow>
    ram_inv (w\<lparr>ram_files := (ram_files w)(p \<mapsto> \<lparr>rf_fs = n, rf_entry = q, rf_offset = off\<rparr>)\<rparr>)"
  by (auto dest: ram_inv_file intro!: ram_files_inv split: if_splits)

lemma file_del_inv: "ram_inv w \<Longrightarrow> ram_inv (w\<lparr>ram_files := (ram_files w)(p := None)\<rparr>)"
  by (auto dest: ram_inv_file intro!: ram_files_inv split: if_splits)

lemma set_offset_inv:
  assumes i: "ram_inv w"
  shows "ram_inv (set_offset h off w)"
  unfolding set_offset_def by (rule ram_files_inv [OF i]) (auto dest!: ram_inv_file [OF i] split: if_splits)

lemma set_offset_fields [simp]:
  "get_entry n r (set_offset h off w) = get_entry n r w" "ram_fs (set_offset h off w) = ram_fs w" "s_root (set_offset h off w) = s_root w"
  "ram_files (set_offset h off w) k = (if k = h then map_option (\<lambda>f. f\<lparr>rf_offset := off\<rparr>) (ram_files w h) else ram_files w k)"
  by (simp_all add: set_offset_def get_entry_def split: eref.splits)

lemma open_file_inv:
  assumes i: "ram_inv w" and e: "ramfs_open n path flags w = Some (p, w')"
  shows "ram_inv w' \<and> (p \<noteq> 0 \<longrightarrow> (\<exists>r. ram_files w' p = Some \<lparr>rf_fs = n, rf_entry = r, rf_offset = 0\<rparr>))"
proof -
  obtain r w1 where l: "lookup_entry n path flags w = Some (r, w1)" using e by (auto simp: ramfs_open_def split: option.splits)
  note i1 = lookup_entry_inv [OF i l]
  show ?thesis
  proof (cases "r = None \<or> e_kind (get_entry n (the r) w1) = VFS_NODE_DIR \<and> (flags AND VFS_O_DIR) = 0")
    case True
    then have "p = 0 \<and> w' = w1" using e l by (cases r) (auto simp: ramfs_open_def)
    then show ?thesis using i1(1) by simp
  next
    case False
    then obtain q where q: "r = Some q" "\<not> (e_kind (get_entry n q w1) = VFS_NODE_DIR \<and> (flags AND VFS_O_DIR) = 0)" by auto
    have e2: "(case truncate_entry n q flags w1 of None \<Rightarrow> None
        | Some w \<Rightarrow> (case ram_alloc SIZEOF_RAMFS_FILE w of None \<Rightarrow> None
            | Some (p, _, w) \<Rightarrow> if p = 0 then Some (0, w)
                else Some (p, w\<lparr>ram_files := (ram_files w)(p \<mapsto> \<lparr>rf_fs = n, rf_entry = q, rf_offset = 0\<rparr>)\<rparr>))) = Some (p, w')"
      using e unfolding ramfs_open_def l q(1) option.case prod.case if_not_P [OF q(2)] .
    then obtain w2 p2 nb w3 where t: "truncate_entry n q flags w1 = Some w2" and a: "ram_alloc SIZEOF_RAMFS_FILE w2 = Some (p2, nb, w3)"
      by (auto split: option.splits)
    obtain h where h: "w3 = w2\<lparr>ram_heap := h\<rparr>" using ram_alloc_spec [OF a] .
    have i3: "ram_inv w3" "ref_ok n q w3" using truncate_entry_inv [OF i1(1) i1(2) [OF q(1)] t] by (simp_all add: h ram_inv_fields)
    show ?thesis using e2 t a i3 file_put_inv [OF i3(1) _ i3(2), of p2 0] by (auto split: if_splits)
  qed
qed

lemma close_file_inv: "ram_inv w \<Longrightarrow> ramfs_close h w = Some w' \<Longrightarrow> ram_inv w'"
  by (auto simp: ramfs_close_def ram_inv_fields intro!: file_del_inv elim!: ram_free_spec split: if_splits option.splits)

lemma read_seek_file_inv:
  "ram_inv w \<Longrightarrow> ramfs_read h k w = Some (rc, dat, w') \<Longrightarrow> ram_inv w'"
  "ram_inv w \<Longrightarrow> ramfs_seek h off wh w = Some (rc, w') \<Longrightarrow> ram_inv w'"
  by (auto simp: ramfs_read_def ramfs_seek_def Let_def intro: set_offset_inv split: if_splits option.splits)

text \<open>Growing a file keeps its bytes and everything else.\<close>

lemma grow_entry_spec:
  assumes i: "ram_inv w" and r: "ref_ok n q w" and e: "grow_entry n q ne w = Some (ok, w')"
  shows "ram_inv w' \<and> ref_ok n q w' \<and> ram_files w' = ram_files w \<and> (\<forall>m p. apart n q m p \<longrightarrow> get_entry m p w' = get_entry m p w) \<and>
    (ok \<longrightarrow> (\<exists>junk. e_bytes (get_entry n q w') = e_bytes (get_entry n q w) @ junk) \<and>
       e_size (get_entry n q w') = (if ne > e_size (get_entry n q w) then ne else e_size (get_entry n q w)))"
proof (cases "ne > e_size (get_entry n q w)")
  case False
  then show ?thesis using e i r by (auto simp: grow_entry_def Let_def)
next
  case True
  let ?e = "get_entry n q w"
  let ?cp = "if e_ptr ?e \<noteq> 0 \<and> e_size ?e > 0 then unat (e_size ?e) else 0"
  obtain p nb w1 where a: "ram_alloc ne w = Some (p, nb, w1)" using e True by (auto simp: grow_entry_def Let_def split: option.splits)
  obtain h where h: "w1 = w\<lparr>ram_heap := h\<rparr>" "length nb = (if p = 0 then 0 else unat ne)" using ram_alloc_spec [OF a] .
  have o: "entry_ok ?e" by (rule ram_inv_entry [OF i r])
  have v: "e_valid ?e" using r by (auto simp: ref_ok_def get_entry_def split: eref.splits)
  have cp: "?cp = length (e_bytes ?e)" using o by (auto simp: entry_ok_def word_gt_0)
  show ?thesis
  proof (cases "p = 0")
    case z: True
    then have "\<not> ok \<and> w' = w1" using e True a by (simp add: grow_entry_def Let_def)
    then show ?thesis using i r by (simp add: h ram_inv_fields)
  next
    case nz: False
    let ?f = "?e\<lparr>e_ptr := p, e_bytes := e_bytes ?e @ drop (length (e_bytes ?e)) nb, e_size := ne\<rparr>"
    obtain w2 where w2: "(if e_ptr ?e \<noteq> 0 then ram_free (e_ptr ?e) w1 else Some w1) = Some w2" and w': "ok" "w' = put_entry n q ?f w2"
      using e True a nz cp unfolding grow_entry_def Let_def by (auto split: if_splits option.splits)
    obtain h2 where h2: "w2 = w\<lparr>ram_heap := h2\<rparr>" using w2 h(1) by (auto elim!: ram_free_spec split: if_splits)
    have b: "length (e_bytes ?e) \<le> unat ne" using o True by (simp add: entry_ok_def word_less_nat_alt)
    have f: "entry_ok ?f" using nz v h(2) b by (simp add: entry_ok_def)
    have r2: "ref_ok n q w2" "ram_inv w2" using r i by (simp_all add: h2 ram_inv_fields)
    have g: "get_entry n q w' = ?f" "ram_inv w'" "ref_ok n q w'"
      using get_put_entry [OF r2(1), of ?f] put_entry_inv [OF r2(2) f, of q n] v r2(1) unfolding w'(2)
      by (auto simp: ref_ok_def put_entry_def split: eref.splits)
    have "get_entry m x w' = get_entry m x w" if "apart n q m x" for m x
      using get_put_apart [OF that, of ?f w2] by (simp add: w'(2) h2 ram_inv_fields)
    then show ?thesis using g True by (auto simp: w'(2) h2)
  qed
qed

text \<open>What a write does: the bytes at the offset become the data, the file grows if it has to, the offset moves on.\<close>

lemma overwrite_append: "off + length dat \<le> length bs \<Longrightarrow> overwrite off dat (bs @ junk) = overwrite off dat bs @ junk"
  by (simp add: overwrite_def)

lemma write_spec:
  assumes i: "ram_inv w" and f: "ram_files w h = Some f" and n: "length dat < 2 ^ 64" and e: "ramfs_write h dat w = Some (rc, w')"
  defines "q \<equiv> get_entry (rf_fs f) (rf_entry f)"
  shows "ram_inv w' \<and> (\<forall>m p. apart (rf_fs f) (rf_entry f) m p \<longrightarrow> get_entry m p w' = get_entry m p w) \<and>
    (rc = 0 \<longrightarrow> ram_files w' h = Some (f\<lparr>rf_offset := rf_offset f + of_nat (length dat)\<rparr>) \<and>
       unat (rf_offset f) + length dat < 2 ^ 64 \<and>
       (\<exists>junk. e_bytes (q w') = overwrite (unat (rf_offset f)) dat (e_bytes (q w) @ junk) \<and>
         length (e_bytes (q w) @ junk) = max (length (e_bytes (q w))) (unat (rf_offset f) + length dat)))"
proof -
  let ?n = "rf_fs f" and ?r = "rf_entry f" and ?k = "of_nat (length dat) :: u64"
  have h0: "h \<noteq> 0" and r: "ref_ok ?n ?r w" using ram_inv_file [OF i f] by auto
  have k: "unat ?k = length dat" using n by (simp add: unat_of_nat)
  show ?thesis
  proof (cases "?k > 0 \<and> rf_offset f + ?k < rf_offset f")
    case True
    then have "rc = VFS_ENOSPC \<and> w' = w" using e f h0 unfolding ramfs_write_def Let_def by simp
    then show ?thesis using i by (simp add: VFS_ENOSPC_def)
  next
    case False
    then have "rf_offset f \<le> rf_offset f + ?k" by (cases "?k = 0") (auto simp: word_gt_0)
    then have s: "unat (rf_offset f + ?k) = unat (rf_offset f) + length dat" unfolding unat_plus_simple k .
    have lt: "unat (rf_offset f) + length dat < 2 ^ 64" using unat_lt_2p64 [of "rf_offset f + ?k"] unfolding s by simp
    obtain ok w1 where g: "grow_entry ?n ?r (rf_offset f + ?k) w = Some (ok, w1)"
      using e f h0 False unfolding ramfs_write_def Let_def by (auto split: option.splits)
    note gs = grow_entry_spec [OF i r g]
    have i1: "ram_inv w1" "ref_ok ?n ?r w1" "ram_files w1 = ram_files w" using gs by auto
    show ?thesis
    proof (cases ok)
      case no: False
      then have "rc = VFS_ENOSPC \<and> w' = w1" using e f h0 False g unfolding ramfs_write_def Let_def by simp
      then show ?thesis using gs by (auto simp: VFS_ENOSPC_def)
    next
      case True
      let ?e = "q w1"
      let ?x = "?e\<lparr>e_bytes := overwrite (unat (rf_offset f)) dat (e_bytes ?e)\<rparr>"
      have g': "grow_entry ?n ?r (rf_offset f + ?k) w = Some (True, w1)" using g True by simp
      have ne: "\<not> unat (rf_offset f) + length dat > length (e_bytes ?e)" and
        w': "rc = 0" "w' = set_offset h (rf_offset f + ?k) (put_entry ?n ?r ?x w1)"
        using e f h0 False g' unfolding ramfs_write_def Let_def q_def by (auto split: if_splits)
      have o1: "entry_ok ?e" and v: "e_valid ?e" using ram_inv_entry [OF i1(1,2)] i1(2)
        by (auto simp: q_def ref_ok_def get_entry_def split: eref.splits)
      have o: "entry_ok ?x" using o1 ne by (simp add: entry_ok_def overwrite_def)
      have iw: "ram_inv w'" unfolding w' by (rule set_offset_inv) (rule put_entry_inv [OF i1(1) o], use v in simp)
      have ap: "get_entry m p w' = get_entry m p w" if "apart ?n ?r m p" for m p
        using gs get_put_apart [OF that, of ?x w1] that by (simp add: w')
      obtain junk where j: "e_bytes ?e = e_bytes (q w) @ junk" using gs True by (auto simp: q_def)
      have sz: "e_size ?e = (if rf_offset f + ?k > e_size (q w) then rf_offset f + ?k else e_size (q w))" using gs True by (simp add: q_def)
      have "length (e_bytes ?e) = unat (e_size ?e)" "length (e_bytes (q w)) = unat (e_size (q w))"
        using o1 ram_inv_entry [OF i r] by (simp_all add: entry_ok_def q_def)
      then have l: "length (e_bytes (q w) @ junk) = max (length (e_bytes (q w))) (unat (rf_offset f) + length dat)"
        using sz s unfolding j [symmetric] by (auto simp: word_less_nat_alt max_def)
      have b: "e_bytes (q w') = overwrite (unat (rf_offset f)) dat (e_bytes (q w) @ junk)"
        using get_put_entry [OF i1(2), of ?x] by (simp add: w' q_def [symmetric] j) (simp add: q_def)
      have "ram_files w' h = Some (f\<lparr>rf_offset := rf_offset f + ?k\<rparr>)" using f by (simp add: w' i1(3))
      then show ?thesis using iw ap lt b l by blast
    qed
  qed
qed

section \<open>What the VFS sees\<close>

definition ram_live :: "ramworld option \<Rightarrow> u64 \<Rightarrow> bool" where
  "ram_live ws h \<longleftrightarrow> (case ws of None \<Rightarrow> False | Some w \<Rightarrow> ram_inv w \<and> ram_files w h \<noteq> None)"

definition ram_bytes :: "ramworld option \<Rightarrow> u64 \<Rightarrow> u8 list" where
  "ram_bytes ws h = (let w = the ws; f = the (ram_files w h) in e_bytes (get_entry (rf_fs f) (rf_entry f) w))"

definition ram_pos :: "ramworld option \<Rightarrow> u64 \<Rightarrow> nat" where
  "ram_pos ws h = unat (rf_offset (the (ram_files (the ws) h)))"

lemma read_spec:
  assumes i: "ram_inv w" and f: "ram_files w h = Some f"
  defines "bs \<equiv> e_bytes (get_entry (rf_fs f) (rf_entry f) w)"
  shows "\<exists>off. ramfs_read h n w = Some (0, take (unat n) (drop (unat (rf_offset f)) bs), set_offset h off w)"
proof -
  let ?e = "get_entry (rf_fs f) (rf_entry f) w"
  have h: "h \<noteq> 0" and l: "length bs = unat (e_size ?e)"
    using ram_inv_file [OF i f] ram_inv_entry [OF i] by (auto simp: entry_ok_def bs_def)
  have self: "set_offset h (rf_offset f) w = w" using f by (simp add: set_offset_def fun_upd_idem)
  show ?thesis
  proof (cases "rf_offset f \<ge> e_size ?e")
    case True
    then have "drop (unat (rf_offset f)) bs = []" using l by (simp add: word_le_nat_alt)
    moreover have "ramfs_read h n w = Some (0, [], w)" using f h True by (simp add: ramfs_read_def)
    ultimately show ?thesis using self by (metis take_Nil)
  next
    case False
    let ?a = "e_size ?e - rf_offset f"
    let ?t = "if n < ?a then n else ?a"
    have a: "unat ?a = unat (e_size ?e) - unat (rf_offset f)" using False by (intro unat_sub) simp
    have lt: "unat (rf_offset f) < unat (e_size ?e)" using False by (simp add: word_le_nat_alt)
    have t: "unat ?t = min (unat n) (length bs - unat (rf_offset f))" using a l by (auto simp: word_less_nat_alt)
    then have nb: "\<not> unat (rf_offset f) + unat ?t > length bs" using lt l by simp
    have "ramfs_read h n w = Some (0, take (unat ?t) (drop (unat (rf_offset f)) bs), set_offset h (rf_offset f + ?t) w)"
      using f h False nb unfolding ramfs_read_def Let_def bs_def by simp
    moreover have "take (unat ?t) (drop (unat (rf_offset f)) bs) = take (unat n) (drop (unat (rf_offset f)) bs)"
      unfolding t by (auto simp: min_def)
    ultimately show ?thesis by auto
  qed
qed

lemma seek_set_spec:
  assumes i: "ram_inv w" and f: "ram_files w h = Some f" and k: "k \<le> length (e_bytes (get_entry (rf_fs f) (rf_entry f) w))" "k < 2 ^ 63"
  shows "ramfs_seek h (int k) VFS_SEEK_SET w = Some (int k, set_offset h (of_nat k) w)"
proof -
  let ?e = "get_entry (rf_fs f) (rf_entry f) w"
  have h: "h \<noteq> 0" and l: "length (e_bytes ?e) = unat (e_size ?e)" using ram_inv_file [OF i f] ram_inv_entry [OF i] by (auto simp: entry_ok_def)
  have "unat (of_nat k :: u64) = k" using k(2) by (simp add: unat_of_nat)
  then have "\<not> (of_nat k :: u64) > e_size ?e" using k(1) l by (simp add: word_less_nat_alt)
  moreover have "in_int64 (int k)" using k(2) by (simp add: in_int64_def)
  ultimately show ?thesis using f h by (simp add: ramfs_seek_def Let_def)
qed

lemma overwrite_junk:
  assumes "p \<le> length bs" "length (bs @ junk) = max (length bs) (p + length dat)"
  shows "overwrite p dat (bs @ junk) = take p bs @ dat @ drop (p + length dat) bs"
  using assms by (auto simp: overwrite_def max_def split: if_splits)

lemma ram_write_law:
  assumes l: "ram_live fs h" and p: "ram_pos fs h \<le> length (ram_bytes fs h)" and n: "length dat < 2 ^ 64"
    and e: "the (op_write (ramfs_ops k)) h dat fs = (0, fs')"
  shows "ram_live fs' h \<and> ram_pos fs' h = ram_pos fs h + length dat \<and>
    ram_bytes fs' h = take (ram_pos fs h) (ram_bytes fs h) @ dat @ drop (ram_pos fs h + length dat) (ram_bytes fs h)"
proof -
  obtain w f where w: "fs = Some w" "ram_inv w" "ram_files w h = Some f" using l by (auto simp: ram_live_def split: option.splits)
  obtain w' where w': "ramfs_write h dat w = Some (0, w')" "fs' = Some w'"
    using e w(1) by (auto simp: ramfs_ops_def lift_op_def VFS_ERR_def split: option.splits)
  note s = write_spec [OF w(2,3) n w'(1)]
  let ?q = "get_entry (rf_fs f) (rf_entry f)"
  obtain junk where j: "e_bytes (?q w') = overwrite (unat (rf_offset f)) dat (e_bytes (?q w) @ junk)"
    "length (e_bytes (?q w) @ junk) = max (length (e_bytes (?q w))) (unat (rf_offset f) + length dat)" using s by auto
  have f': "ram_files w' h = Some (f\<lparr>rf_offset := rf_offset f + of_nat (length dat)\<rparr>)" and lt: "unat (rf_offset f) + length dat < 2 ^ 64"
    using s by auto
  have b: "ram_bytes fs h = e_bytes (?q w)" "ram_pos fs h = unat (rf_offset f)" "ram_bytes fs' h = e_bytes (?q w')"
    by (simp_all add: ram_bytes_def ram_pos_def w w'(2) f' Let_def)
  have "unat (rf_offset f + of_nat (length dat)) = unat (rf_offset f) + length dat"
    using lt n by (subst unat_add_lem [THEN iffD1]) (simp_all add: unat_of_nat)
  then have "ram_pos fs' h = ram_pos fs h + length dat" by (simp add: ram_pos_def w w'(2) f')
  then show ?thesis using overwrite_junk [OF p [unfolded b] j(2)] j(1) s unfolding b by (simp add: ram_live_def w'(2) f')
qed

interpretation ramstore: stored_files "ramfs_ops k" ram_live ram_bytes ram_pos for k
proof (unfold_locales, goal_cases)
  case (4 fs h dat fs')
  then show ?case by (rule ram_write_law)
next
  case (5 fs h p rc fs')
  obtain w f where w: "fs = Some w" "ram_inv w" "ram_files w h = Some f" using 5(1) by (auto simp: ram_live_def split: option.splits)
  have "ramfs_seek h (int p) VFS_SEEK_SET w = Some (int p, set_offset h (of_nat p) w)"
    by (rule seek_set_spec [OF w(2,3)]) (use 5 w in \<open>simp_all add: ram_bytes_def Let_def\<close>)
  then have r: "rc = int p" "fs' = Some (set_offset h (of_nat p) w)" using 5(4) w(1) by (auto simp: ramfs_ops_def lift_op_def)
  show ?case using 5(3) set_offset_inv [OF w(2)]
    by (simp add: r w ram_live_def ram_bytes_def ram_pos_def Let_def unat_of_nat)
next
  case (6 fs h n rc dat fs')
  obtain w f where w: "fs = Some w" "ram_inv w" "ram_files w h = Some f" using 6(1) by (auto simp: ram_live_def split: option.splits)
  obtain off where o: "ramfs_read h (of_nat n) w = Some (0, take n (drop (ram_pos fs h) (ram_bytes fs h)), set_offset h off w)"
    using read_spec [OF w(2,3), of "of_nat n"] 6(2) by (auto simp: ram_bytes_def ram_pos_def w Let_def unat_of_nat)
  then have r: "rc = 0" "dat = take n (drop (ram_pos fs h) (ram_bytes fs h))" "fs' = Some (set_offset h off w)"
    using 6(3) by (auto simp: ramfs_ops_def lift_op_def w(1))
  show ?case using set_offset_inv [OF w(2)] by (simp add: r w ram_live_def ram_bytes_def Let_def)
qed (simp_all add: ramfs_ops_def)

text \<open>
  C12. A file written through a descriptor and read back from where it was written gives the same bytes:
  \<open>vfs_write\<close>, \<open>vfs_seek\<close> to the old position and \<open>vfs_read\<close>, all the way down to the memory file system.
\<close>

theorem file_write_read:
  assumes "file_fd (ramfs_ops k) ram_live d i s" and "h = n_bctx (g_nodes s ! i)"
    and "p = ram_pos (vfs_fs s) h" and "p \<le> length (ram_bytes (vfs_fs s) h)" and "p + length dat < 2 ^ 63"
    and "vfs_write now d (Some dat) s = Some (0, s1)"
  shows "\<exists>s2 s3. vfs_seek d (int p) VFS_SEEK_SET s1 = Some (int p, s2) \<and> vfs_read d True (length dat) got s2 = Some (0, dat, s3)"
  by (rule ramstore.write_seek_read [OF assms])

definition demo_ram :: ramworld where
  "demo_ram = \<lparr>ram_fs = (\<lambda>n. [\<lparr>e_path = ''/f'', e_ptr = 0x3000, e_bytes = [1, 2, 3, 4], e_size = 4, e_kind = VFS_NODE_FILE, e_valid = True\<rparr>]),
     s_root = s_root_init, ram_files = [0x2040 \<mapsto> \<lparr>rf_fs = 1, rf_entry = Ent 0, rf_offset = 1\<rparr>], ram_heap = tiny_heap, garbage = (\<lambda>_. 0)\<rparr>"

definition demo_vfs :: "ramworld option vfs" where
  "demo_vfs = \<lparr>g_nodes = [zero_node, new_node 1 3 ''/f'' 0 0x2040 None], g_backends = [\<lparr>be_name = ''/'', mount_pt = ''/'', be_ops = ramfs_ops 1, be_id = 1\<rparr>],
     g_next_node_id = 2, fd_tables = (\<lambda>_. Map.empty), vfs_fs = Some demo_ram, rings = (\<lambda>_. ring_8_2), vfs_ipc = blank_ipc\<rparr>"

lemma demo_ram_inv: "ram_inv demo_ram"
  by (auto simp: ram_inv_def demo_ram_def s_root_init_def entry_ok_def ref_ok_def split: if_splits)

theorem file_write_read_witness:
  "\<exists>s1 s2 s3. vfs_write 0 257 (Some [9, 8]) demo_vfs = Some (0, s1) \<and> vfs_seek 257 1 VFS_SEEK_SET s1 = Some (1, s2) \<and>
     vfs_read 257 True 2 True s2 = Some (0, [9, 8], s3)"
proof -
  have n: "node_of_fd 257 demo_vfs = Some 1" by (simp add: node_of_fd_def demo_vfs_def MAX_FDS_def MAX_VFSNODES_def new_node_def)
  have f: "file_fd (ramfs_ops 1) ram_live 257 1 demo_vfs"
    unfolding file_fd_def n using demo_ram_inv by (simp add: demo_vfs_def new_node_def zero_node_def ram_live_def) (simp add: demo_ram_def)
  have p: "ram_pos (vfs_fs demo_vfs) 0x2040 = 1" "ram_bytes (vfs_fs demo_vfs) 0x2040 = [1, 2, 3, 4]" "n_bctx (g_nodes demo_vfs ! 1) = 0x2040"
    by (simp_all add: ram_pos_def ram_bytes_def demo_vfs_def demo_ram_def get_entry_def new_node_def)
  have g: "grow_entry 1 (Ent 0) 3 demo_ram = Some (True, demo_ram)"
    by (simp add: grow_entry_def get_entry_def demo_ram_def)
  have r: "\<exists>w'. ramfs_write 0x2040 [9, 8] demo_ram = Some (0, w')"
  proof -
    have "ram_files demo_ram 0x2040 = Some \<lparr>rf_fs = 1, rf_entry = Ent 0, rf_offset = 1\<rparr>" "e_bytes (get_entry 1 (Ent 0) demo_ram) = [1, 2, 3, 4]"
      by (simp_all add: demo_ram_def get_entry_def)
    then show ?thesis using g by (simp add: ramfs_write_def Let_def)
  qed
  then obtain w' where w: "ramfs_write 0x2040 [9, 8] demo_ram = Some (0, w')" by blast
  have v: "\<exists>s1. vfs_write 0 257 (Some [9, 8]) demo_vfs = Some (0, s1)"
    unfolding vfs_write_def n by (simp add: Let_def) (simp add: demo_vfs_def new_node_def zero_node_def ramfs_ops_def lift_op_def w)
  then obtain s1 where s1: "vfs_write 0 257 (Some [9, 8]) demo_vfs = Some (0, s1)" by blast
  show ?thesis using file_write_read [OF f p(3) [symmetric] p(1) [symmetric] _ _ s1, of True] p(2) s1 by (simp add: numeral_2_eq_2 [symmetric])
qed

text \<open>The operations as steps.\<close>

inductive ram_step :: "ramworld \<Rightarrow> ramworld \<Rightarrow> bool" where
  ram_add_file: "ramfs_add_file n path dat sz w = Some (rc, w') \<Longrightarrow> ram_step w w'"
| ram_add_dir: "ramfs_add_dir n path w = Some (rc, w') \<Longrightarrow> ram_step w w'"
| ram_open: "ramfs_open n path flags w = Some (h, w') \<Longrightarrow> ram_step w w'"
| ram_close: "ramfs_close h w = Some w' \<Longrightarrow> ram_step w w'"
| ram_read: "ramfs_read h k w = Some (rc, dat, w') \<Longrightarrow> ram_step w w'"
| ram_write: "length dat < 2 ^ 64 \<Longrightarrow> ramfs_write h dat w = Some (rc, w') \<Longrightarrow> ram_step w w'"
| ram_seek: "ramfs_seek h off wh w = Some (rc, w') \<Longrightarrow> ram_step w w'"
| ram_mkdir: "ramfs_mkdir n path w = Some (rc, w') \<Longrightarrow> ram_step w w'"
| ram_root_mkdir: "ramfs_root_mkdir path w = Some (rc, w') \<Longrightarrow> ram_step w w'"
| ram_root_writefile: "ramfs_root_writefile path dat sz w = Some (rc, w') \<Longrightarrow> ram_step w w'"

lemma write_file_inv: "ram_inv w \<Longrightarrow> length dat < 2 ^ 64 \<Longrightarrow> ramfs_write h dat w = Some (rc, w') \<Longrightarrow> ram_inv w'"
  using write_spec [of w h _ dat rc w'] by (cases "ram_files w h") (auto simp: ramfs_write_def split: if_splits)

text \<open>What \<open>ramfs_root_writefile\<close> leaves behind when the file exists.\<close>

lemma writefile_existing:
  assumes i: "ram_inv w" and f: "ramfs_find 1 path w = Some k" and e: "ramfs_root_writefile path dat sz w = Some (rc, w')"
  shows "ram_inv w' \<and> (rc = 0 \<longrightarrow> (\<exists>p nb hp. length nb = unat sz \<and> w' = put_entry 1 (Ent k)
      ((get_entry 1 (Ent k) w)\<lparr>e_ptr := p, e_bytes := copy_in dat nb, e_size := sz\<rparr>) (w\<lparr>ram_heap := hp\<rparr>) \<and> length (copy_in dat nb) = unat sz))"
proof -
  obtain p nb w1 where a: "(if sz > 0 then ram_alloc sz w else Some (0, [], w)) = Some (p, nb, w1)" and ts: "\<not> too_short dat sz"
    using e f by (auto simp: ramfs_root_writefile_def split: if_splits option.splits)
  obtain h where h: "w1 = w\<lparr>ram_heap := h\<rparr>" and nb: "sz > 0 \<Longrightarrow> p \<noteq> 0 \<Longrightarrow> length nb = unat sz" "sz = 0 \<Longrightarrow> p = 0 \<and> nb = []"
  proof (cases "sz > 0")
    case True
    then show ?thesis using a that by (auto elim!: ram_alloc_spec)
  next
    case False
    then have "w1 = w\<lparr>ram_heap := ram_heap w\<rparr>" "p = 0" "nb = []" using a by auto
    then show ?thesis using that False by blast
  qed
  have r: "ref_ok 1 (Ent k) w" using ramfs_find_spec [OF f] by simp
  have v: "e_valid (get_entry 1 (Ent k) w)" using r by (simp add: ref_ok_def get_entry_def)
  show ?thesis
  proof (cases "p = 0 \<and> sz > 0")
    case True
    then have "rc = -1 \<and> w' = w1" using e f a ts unfolding ramfs_root_writefile_def by simp
    then show ?thesis using i by (simp add: h ram_inv_fields)
  next
    case False
    then have l: "length nb = unat sz" using nb by (cases "sz = 0") (auto simp: word_gt_0)
    let ?e = "get_entry 1 (Ent k) w"
    let ?x = "?e\<lparr>e_ptr := p, e_bytes := copy_in dat nb, e_size := sz\<rparr>"
    obtain w2 where w2: "(if e_ptr ?e \<noteq> 0 then ram_free (e_ptr ?e) w1 else Some w1) = Some w2" and w': "w' = put_entry 1 (Ent k) ?x w2"
      using e f a ts False unfolding ramfs_root_writefile_def Let_def by (auto simp: h ram_inv_fields split: if_splits option.splits)
    obtain h2 where h2: "w2 = w\<lparr>ram_heap := h2\<rparr>" using w2 h by (auto elim!: ram_free_spec split: if_splits)
    have c: "length (copy_in dat nb) = unat sz" by (rule copy_in_length [OF ts l])
    then have "entry_ok ?x" using v False by (auto simp: entry_ok_def word_gt_0)
    then have "ram_inv w'" unfolding w' by (intro put_entry_inv) (use i v in \<open>simp_all add: h2 ram_inv_fields\<close>)
    then show ?thesis using l c w' h2 by blast
  qed
qed

lemma ram_step_inv: "ram_step w w' \<Longrightarrow> ram_inv w \<Longrightarrow> ram_inv w'"
proof (induction rule: ram_step.induct)
  case (ram_mkdir n path w rc w')
  then show ?case by (auto simp: ramfs_mkdir_def intro: add_dir_inv split: option.splits)
next
  case (ram_root_mkdir path w rc w')
  then show ?case by (auto simp: ramfs_root_mkdir_def intro: add_dir_inv split: option.splits)
next
  case (ram_root_writefile path dat sz w rc w')
  then show ?case using writefile_existing [of w path _ dat sz rc w'] add_file_inv [of w 1 path dat sz rc w']
    by (cases "ramfs_find 1 path w") (auto simp: ramfs_root_writefile_def)
next
  case (ram_open n path flags w h w')
  then show ?case using open_file_inv by blast
qed (auto intro: add_file_inv add_dir_inv close_file_inv read_seek_file_inv write_file_inv)

text \<open>
  C24. Through every sequence of operations of the memory file system, a live handle belongs to a valid entry whose
  buffer holds exactly its size in bytes, so that reading returns the bytes from the offset on, never more than there are.
\<close>

theorem ramfs_reads_in_bounds:
  assumes "ram_step\<^sup>*\<^sup>* w0 w" "ram_inv w0" "ram_files w h = Some f"
  shows "ref_ok (rf_fs f) (rf_entry f) w \<and>
    length (e_bytes (get_entry (rf_fs f) (rf_entry f) w)) = unat (e_size (get_entry (rf_fs f) (rf_entry f) w)) \<and>
    (\<exists>off. ramfs_read h n w =
       Some (0, take (unat n) (drop (unat (rf_offset f)) (e_bytes (get_entry (rf_fs f) (rf_entry f) w))), set_offset h off w))"
proof -
  have i: "ram_inv w" using assms(1,2) by (induction rule: rtranclp_induct) (auto intro: ram_step_inv)
  show ?thesis using read_spec [OF i assms(3)] ram_inv_file [OF i assms(3)] ram_inv_entry [OF i] by (auto simp: entry_ok_def)
qed

theorem ramfs_reads_in_bounds_witness: "\<exists>w'. ramfs_read 0x2040 100 demo_ram = Some (0, [2, 3, 4], w')"
proof -
  have f: "ram_files demo_ram 0x2040 = Some \<lparr>rf_fs = 1, rf_entry = Ent 0, rf_offset = 1\<rparr>" by (simp add: demo_ram_def)
  have b: "e_bytes (get_entry 1 (Ent 0) demo_ram) = [1, 2, 3, 4]" by (simp add: demo_ram_def get_entry_def)
  show ?thesis using ramfs_reads_in_bounds [OF rtranclp.rtrancl_refl demo_ram_inv f, where n = 100] b by auto
qed

lemma find_put_entry:
  assumes k: "k < length (ram_fs w n)" and j: "\<And>j. j < k \<Longrightarrow> \<not> (e_valid (ram_fs w n ! j) \<and> e_path (ram_fs w n ! j) = path)"
    and e: "e_valid e" "e_path e = path"
  shows "ramfs_find n path (put_entry n (Ent k) e w) = Some k"
  using find_index_first [of k "(ram_fs w n)[k := e]" "\<lambda>e. e_valid e \<and> e_path e = path"] k j e by (simp add: ramfs_find_def put_entry_def)

lemma add_file_new:
  assumes i: "ram_inv w" and nf: "ramfs_find n path w = None" and e: "ramfs_add_file n path (Some dat) sz w = Some (0, w')"
  shows "\<exists>k e. ramfs_find n path w' = Some k \<and> get_entry n (Ent k) w' = e \<and> e_bytes e = take (unat sz) dat \<and> e_size e = sz \<and>
    (\<forall>m q. apart n (Ent k) m q \<longrightarrow> get_entry m q w' = get_entry m q w)"
proof -
  obtain k where k: "free_entry n w = Some k" using e by (auto simp: ramfs_add_file_def split: option.splits)
  obtain p nb w1 where a: "ram_alloc sz w = Some (p, nb, w1)" and ts: "\<not> too_short (Some dat) sz"
    using e k by (auto simp: ramfs_add_file_def split: if_splits option.splits)
  have ps: "\<not> (p = 0 \<and> sz > 0)" using e k a by (auto simp: ramfs_add_file_def Let_def split: if_splits)
  obtain h where h: "w1 = w\<lparr>ram_heap := h\<rparr>" "length nb = (if p = 0 then 0 else unat sz)" using ram_alloc_spec [OF a] .
  have l: "length nb = unat sz" using h(2) ps by (auto simp: word_gt_0)
  let ?f = "(get_entry n (Ent k) w1)\<lparr>e_path := path, e_ptr := p, e_bytes := copy_in (Some dat) nb, e_size := sz, e_kind := VFS_NODE_FILE, e_valid := True\<rparr>"
  have w': "w' = put_entry n (Ent k) ?f w1" using e k a ts ps unfolding ramfs_add_file_def Let_def by (auto split: if_splits)
  have kl: "k < length (ram_fs w1 n)" using free_entry_spec [OF k] by (simp add: h)
  have no: "\<not> (e_valid (ram_fs w1 n ! j) \<and> e_path (ram_fs w1 n ! j) = path)" if "j < k" for j
    using find_index_None [of "\<lambda>e. e_valid e \<and> e_path e = path" "ram_fs w n"] nf that kl by (simp add: ramfs_find_def h)
  have "ramfs_find n path w' = Some k" unfolding w' by (rule find_put_entry [OF kl no]) simp_all
  moreover have "get_entry n (Ent k) w' = ?f" unfolding w' by (rule get_put_slot [OF kl])
  moreover have "get_entry m q w' = get_entry m q w" if "apart n (Ent k) m q" for m q
    using get_put_apart [OF that, of ?f w1] by (simp add: w') (simp add: h ram_inv_fields)
  ultimately show ?thesis using l by (auto simp: copy_in_def)
qed

text \<open>
  C23. After a successful \<open>ramfs_root_writefile\<close>, looking the path up finds an entry with exactly the bytes that were
  passed, whether the file existed or not, and every other entry of every table is as it was.
\<close>

theorem root_writefile_correct:
  assumes i: "ram_inv w" and e: "ramfs_root_writefile path (Some dat) sz w = Some (0, w')"
  shows "\<exists>k. ramfs_find 1 path w' = Some k \<and> e_bytes (get_entry 1 (Ent k) w') = take (unat sz) dat \<and>
    e_size (get_entry 1 (Ent k) w') = sz \<and> (\<forall>m q. apart 1 (Ent k) m q \<longrightarrow> get_entry m q w' = get_entry m q w)"
proof (cases "ramfs_find 1 path w")
  case None
  then show ?thesis using add_file_new [OF i None, of dat sz w'] e by (auto simp: ramfs_root_writefile_def)
next
  case (Some k)
  obtain p nb hp where w': "length nb = unat sz" "w' = put_entry 1 (Ent k)
      ((get_entry 1 (Ent k) w)\<lparr>e_ptr := p, e_bytes := copy_in (Some dat) nb, e_size := sz\<rparr>) (w\<lparr>ram_heap := hp\<rparr>)" (is "w' = put_entry 1 _ ?x ?w")
    using writefile_existing [OF i Some e] by auto
  have k: "k < length (ram_fs ?w 1)" "e_valid (ram_fs w 1 ! k)" "e_path (ram_fs w 1 ! k) = path"
    using ramfs_find_spec [OF Some] by (simp_all add: ref_ok_def get_entry_def)
  have no: "\<not> (e_valid (ram_fs ?w 1 ! j) \<and> e_path (ram_fs ?w 1 ! j) = path)" if "j < k" for j
    using find_index_Some [of "\<lambda>e. e_valid e \<and> e_path e = path" "ram_fs w 1" k] Some that by (simp add: ramfs_find_def)
  have "ramfs_find 1 path w' = Some k" unfolding w'(2) by (rule find_put_entry [OF k(1) no]) (use k in \<open>simp_all add: get_entry_def\<close>)
  moreover have "get_entry 1 (Ent k) w' = ?x" unfolding w'(2) by (rule get_put_slot [OF k(1)])
  moreover have "get_entry m q w' = get_entry m q w" if "apart 1 (Ent k) m q" for m q
    using get_put_apart [OF that, of ?x ?w] by (simp add: w'(2)) (simp add: ram_inv_fields)
  ultimately show ?thesis using w'(1) by (auto simp: copy_in_def)
qed

definition empty_ram :: ramworld where
  "empty_ram = \<lparr>ram_fs = (\<lambda>n. [zero_entry]), s_root = s_root_init, ram_files = Map.empty, ram_heap = tiny_heap, garbage = (\<lambda>_. 0)\<rparr>"

theorem root_writefile_correct_witness:
  "\<exists>w' k. ramfs_root_writefile ''/e'' (Some [7, 7, 9]) 3 empty_ram = Some (0, w') \<and>
     ramfs_find 1 ''/e'' w' = Some k \<and> e_bytes (get_entry 1 (Ent k) w') = [7, 7, 9]"
proof -
  have i: "ram_inv empty_ram" by (simp add: ram_inv_def empty_ram_def s_root_init_def entry_ok_def zero_entry_def)
  have c: "slab_class (unat (3 :: u64)) = Some 0" "slab_order 0 = 0" by (simp_all add: slab_class_def slab_order_def slab_sizes_def)
  obtain h' where h: "kmalloc 3 tiny_heap = Some (0x2040, h')" using tiny_kmalloc [OF c] by auto
  have "\<exists>w'. ramfs_root_writefile ''/e'' (Some [7, 7, 9]) 3 empty_ram = Some (0, w')"
    by (simp add: ramfs_root_writefile_def ramfs_find_def ramfs_add_file_def free_entry_def too_short_def RAMFS_NAME_LEN_def
        empty_ram_def zero_entry_def ram_alloc_def h)
  then obtain w' where w: "ramfs_root_writefile ''/e'' (Some [7, 7, 9]) 3 empty_ram = Some (0, w')" by blast
  show ?thesis using root_writefile_correct [OF i w] w by auto
qed

end
