(* ===== verification/Kbd.thy ===== *)
theory Kbd imports RingBuf begin

text \<open>
  The keyboard driver, \<open>src/kernel/drv/ps2kbd.c\<close>: the interrupt handler that turns scan codes into
  characters, and the ring in which they wait. The handler gets what the controller holds:
  \<open>None\<close> if its status register reports no byte, else the scan code. The indices, which never
  reach 256, are natural numbers.
\<close>

section \<open>The driver\<close>

definition KBD_BUF :: nat where "KBD_BUF = 256"

record kbd =
  g_buf :: "u8 list"
  g_head :: nat
  g_tail :: nat
  g_shift :: bool
  g_ext :: bool

definition kbd_zero :: kbd where
  "kbd_zero = \<lparr>g_buf = replicate KBD_BUF 0, g_head = 0, g_tail = 0, g_shift = False, g_ext = False\<rparr>"

definition buf_push :: "u8 \<Rightarrow> kbd \<Rightarrow> kbd" where
  "buf_push c k =
     (let next = (g_head k + 1) mod KBD_BUF in
      if next \<noteq> g_tail k then k\<lparr>g_buf := (g_buf k)[g_head k := c], g_head := next\<rparr> else k)"

text \<open>The tables by rows of scan codes: 0 stands for a key without a character.\<close>

definition g_map :: "u8 list" where
  "g_map =
     [0, 0, 0x31, 0x32, 0x33, 0x34, 0x35, 0x36, 0x37, 0x38, 0x39, 0x30, 0x2D, 0x3D, 0x08, 0x09] @
     map of_char ''qwertyuiop[]'' @ [0x0A, 0] @ map of_char ''asdfghjkl;'' @ [0x27, 0x60, 0, 0x5C] @
     map of_char ''zxcvbnm,./'' @ [0, 0, 0, 0x20] @ replicate 70 0"

definition g_smap :: "u8 list" where
  "g_smap =
     [0, 0] @ map of_char ''!@#$%^&*()_+'' @ [0, 0x09] @
     map of_char ''QWERTYUIOP{}'' @ [0x0A, 0] @ map of_char ''ASDFGHJKL:'' @ [0x22, 0x7E, 0, 0x7C] @
     map of_char ''ZXCVBNM<>?'' @ [0, 0, 0, 0x20] @ replicate 70 0"

definition ps2kbd_isr :: "u8 option \<Rightarrow> kbd \<Rightarrow> kbd" where
  "ps2kbd_isr port k =
     (case port of None \<Rightarrow> k
      | Some sc \<Rightarrow>
          if sc = 0xE0 then k\<lparr>g_ext := True\<rparr>
          else if g_ext k then
            let k = k\<lparr>g_ext := False\<rparr> in
            if sc = 0x48 then buf_push 0x80 k
            else if sc = 0x50 then buf_push 0x81 k
            else if sc = 0x4B then buf_push 0x82 k
            else if sc = 0x4D then buf_push 0x83 k
            else k
          else if sc = 0x2A \<or> sc = 0x36 then k\<lparr>g_shift := True\<rparr>
          else if sc = 0xAA \<or> sc = 0xB6 then k\<lparr>g_shift := False\<rparr>
          else if (sc AND 0x80) \<noteq> 0 then k
          else
            let ch = (if g_shift k then g_smap ! unat sc else g_map ! unat sc) in
            if ch \<noteq> 0 then buf_push ch k else k)"

definition ps2kbd_getc :: "kbd \<Rightarrow> u8 option \<times> kbd" where
  "ps2kbd_getc k =
     (if g_head k = g_tail k then (None, k)
      else (Some (g_buf k ! g_tail k), k\<lparr>g_tail := (g_tail k + 1) mod KBD_BUF\<rparr>))"

lemma map_sizes: "length g_map = 128" "length g_smap = 128"
  by (simp_all add: g_map_def g_smap_def)

section \<open>The ring is a queue\<close>

definition kbd_inv :: "kbd \<Rightarrow> bool" where
  "kbd_inv k \<longleftrightarrow> length (g_buf k) = KBD_BUF \<and> g_head k < KBD_BUF \<and> g_tail k < KBD_BUF"

definition kbd_len :: "kbd \<Rightarrow> nat" where
  "kbd_len k = (g_head k + KBD_BUF - g_tail k) mod KBD_BUF"

definition kbd_contents :: "kbd \<Rightarrow> u8 list" where
  "kbd_contents k = map (\<lambda>i. g_buf k ! ((g_tail k + i) mod KBD_BUF)) [0..<kbd_len k]"

text \<open>Pushing, with the answer whether there was room.\<close>

definition kbd_put :: "kbd \<Rightarrow> u8 \<Rightarrow> bool \<times> kbd" where
  "kbd_put k c = ((g_head k + 1) mod KBD_BUF \<noteq> g_tail k, buf_push c k)"

lemma length_kbd_contents [simp]: "length (kbd_contents k) = kbd_len k" by (simp add: kbd_contents_def)

lemma kbd_len_cases:
  assumes "kbd_inv k"
  shows "kbd_len k = (if g_tail k \<le> g_head k then g_head k - g_tail k else g_head k + 256 - g_tail k)"
  using assms by (auto simp: kbd_inv_def kbd_len_def KBD_BUF_def mod_if)

lemma kbd_full: "kbd_inv k \<Longrightarrow> (g_head k + 1) mod KBD_BUF = g_tail k \<longleftrightarrow> kbd_len k = 255"
  using kbd_len_cases [of k] by (auto simp: kbd_inv_def KBD_BUF_def mod_if split: if_splits)

lemma buf_push_room:
  assumes i: "kbd_inv k" and r: "kbd_len k < 255"
  shows "kbd_inv (buf_push c k) \<and> kbd_contents (buf_push c k) = kbd_contents k @ [c]"
proof -
  have n: "(g_head k + 1) mod KBD_BUF \<noteq> g_tail k" using kbd_full [OF i] r by simp
  have p: "buf_push c k = k\<lparr>g_buf := (g_buf k)[g_head k := c], g_head := (g_head k + 1) mod KBD_BUF\<rparr>" (is "_ = ?k")
    using n by (simp add: buf_push_def Let_def)
  have i': "kbd_inv ?k" using i by (simp add: kbd_inv_def KBD_BUF_def)
  have l: "kbd_len ?k = Suc (kbd_len k)"
    using kbd_len_cases [OF i] kbd_len_cases [OF i'] i r by (auto simp: kbd_inv_def KBD_BUF_def mod_if split: if_splits)
  have h: "(g_tail k + kbd_len k) mod KBD_BUF = g_head k"
    using kbd_len_cases [OF i] i by (auto simp: kbd_inv_def KBD_BUF_def mod_if split: if_splits)
  have o: "(g_tail k + j) mod KBD_BUF \<noteq> g_head k" if "j < kbd_len k" for j
    using that kbd_len_cases [OF i] i r by (auto simp: kbd_inv_def KBD_BUF_def mod_if split: if_splits)
  have "map (\<lambda>j. (g_buf k)[g_head k := c] ! ((g_tail k + j) mod KBD_BUF)) [0..<kbd_len k] = kbd_contents k"
    unfolding kbd_contents_def by (rule map_cong) (simp_all add: nth_list_update_neq [OF o [symmetric]])
  moreover have "(g_buf k)[g_head k := c] ! ((g_tail k + kbd_len k) mod KBD_BUF) = c"
    unfolding h using i by (simp add: kbd_inv_def)
  ultimately have "kbd_contents ?k = kbd_contents k @ [c]" unfolding kbd_contents_def [of ?k] l by simp
  then show ?thesis using i' p by simp
qed

lemma getc_item:
  assumes i: "kbd_inv k" and c: "kbd_contents k = x # xs"
  shows "\<exists>k'. ps2kbd_getc k = (Some x, k') \<and> kbd_inv k' \<and> kbd_contents k' = xs"
proof -
  let ?k = "k\<lparr>g_tail := (g_tail k + 1) mod KBD_BUF\<rparr>"
  have l: "0 < kbd_len k" using arg_cong [OF c, of length] by simp
  have ne: "g_head k \<noteq> g_tail k" using l by (auto simp: kbd_len_def)
  have i': "kbd_inv ?k" using i by (simp add: kbd_inv_def KBD_BUF_def)
  have l': "kbd_len k = Suc (kbd_len ?k)"
    using kbd_len_cases [OF i] kbd_len_cases [OF i'] i ne by (auto simp: kbd_inv_def KBD_BUF_def mod_if split: if_splits)
  have "g_buf k ! g_tail k = hd (kbd_contents k)"
    using l i by (simp add: kbd_contents_def hd_map kbd_inv_def upt_conv_Cons)
  then have x: "g_buf k ! g_tail k = x" by (simp add: c)
  have "tl (kbd_contents k) = map (\<lambda>j. g_buf k ! ((g_tail k + j) mod KBD_BUF)) [1..<Suc (kbd_len ?k)]"
    unfolding kbd_contents_def l' by (simp add: map_tl [symmetric] upt_conv_Cons del: upt_Suc)
  also have "\<dots> = kbd_contents ?k"
    unfolding kbd_contents_def by (simp only: One_nat_def map_Suc_upt [symmetric] map_map) (simp add: mod_simps)
  finally have "kbd_contents ?k = xs" by (simp add: c)
  then show ?thesis using x ne i' by (simp add: ps2kbd_getc_def)
qed

interpretation keys: bounded_fifo kbd_inv kbd_contents "\<lambda>k. 255" "\<lambda>k c. True" kbd_put ps2kbd_getc
proof unfold_locales
  show "length (kbd_contents k) \<le> 255" if "kbd_inv k" for k
    using that kbd_len_cases [OF that] by (auto simp: kbd_inv_def KBD_BUF_def)
next
  show "kbd_put k c = (False, k)" if "kbd_inv k" "length (kbd_contents k) = 255" for k c
    using kbd_full [OF that(1)] that(2) by (simp add: kbd_put_def buf_push_def Let_def)
next
  show "\<exists>t. kbd_put k c = (True, t) \<and> kbd_inv t \<and> kbd_contents t = kbd_contents k @ [c] \<and> (255 :: nat) = 255 \<and> (\<lambda>c :: u8. True) = (\<lambda>c. True)"
    if "kbd_inv k" "length (kbd_contents k) < 255" for k c
    using kbd_full [OF that(1)] buf_push_room [OF that(1)] that(2) by (simp add: kbd_put_def)
next
  show "ps2kbd_getc k = (None, k)" if "kbd_inv k" "kbd_contents k = []" for k
  proof -
    have "kbd_len k = 0" using arg_cong [OF that(2), of length] by simp
    then show ?thesis using kbd_len_cases [OF that(1)] that(1) by (auto simp: ps2kbd_getc_def kbd_inv_def KBD_BUF_def split: if_splits)
  qed
next
  show "\<exists>t. ps2kbd_getc k = (Some x, t) \<and> kbd_inv t \<and> kbd_contents t = xs \<and> (255 :: nat) = 255 \<and> (\<lambda>c :: u8. True) = (\<lambda>c. True)"
    if "kbd_inv k" "kbd_contents k = x # xs" for k x xs
    using getc_item [OF that] by simp
qed

section \<open>What is typed\<close>

text \<open>
  The reference: a grammar of scan codes. \<open>0xE0\<close> announces that the next other code is one of the
  extended keys; the shift keys change how the codes after them are read.
\<close>

definition arrow :: "u8 \<Rightarrow> u8 list" where
  "arrow sc = (if sc = 0x48 then [0x80] else if sc = 0x50 then [0x81] else if sc = 0x4B then [0x82] else if sc = 0x4D then [0x83] else [])"

fun typed :: "bool \<Rightarrow> u8 list \<Rightarrow> u8 list" where
  "typed sh [] = []"
| "typed sh (sc # scs) =
     (if sc = 0xE0 then
        (case scs of [] \<Rightarrow> [] | e # rest \<Rightarrow> if e = 0xE0 then typed sh scs else arrow e @ typed sh rest)
      else if sc = 0x2A \<or> sc = 0x36 then typed True scs
      else if sc = 0xAA \<or> sc = 0xB6 then typed False scs
      else if unat sc < 128 \<and> (if sh then g_smap else g_map) ! unat sc \<noteq> 0
      then (if sh then g_smap else g_map) ! unat sc # typed sh scs
      else typed sh scs)"

declare typed.simps(2) [simp del]

lemma release_bit: "(sc AND 0x80) \<noteq> 0 \<longleftrightarrow> \<not> unat sc < 128" for sc :: u8
proof -
  have l: "unat sc < 256" by (rule order_less_le_trans [OF unsigned_less]) simp
  have "(sc AND 2 ^ 7) \<noteq> 0 \<longleftrightarrow> bit sc 7" unfolding and_exp_eq_0_iff_not_bit by (rule not_not)
  also have "bit sc 7 \<longleftrightarrow> bit (unat sc) 7" by (simp add: bit_unsigned_iff)
  also have "\<dots> \<longleftrightarrow> odd (unat sc div 128)" by (simp add: bit_iff_odd)
  also have "\<dots> \<longleftrightarrow> \<not> unat sc < 128" using l by (cases "unat sc < 128") (auto simp: div_nat_eqI [of _ 1])
  finally show ?thesis by simp
qed

text \<open>What one interrupt appends, with the flag for extended keys read as a code still to come.\<close>

definition pending :: "kbd \<Rightarrow> u8 list \<Rightarrow> u8 list" where
  "pending k scs = (if g_ext k then 0xE0 # scs else scs)"

lemma isr_step:
  assumes i: "kbd_inv k" and r: "kbd_len k + length (typed (g_shift k) (pending k (sc # scs))) \<le> 255"
  shows "kbd_inv (ps2kbd_isr (Some sc) k) \<and>
    kbd_contents (ps2kbd_isr (Some sc) k) @ typed (g_shift (ps2kbd_isr (Some sc) k)) (pending (ps2kbd_isr (Some sc) k) scs) =
    kbd_contents k @ typed (g_shift k) (pending k (sc # scs))"
proof -
  have f: "kbd_contents (k\<lparr>g_ext := b\<rparr>) = kbd_contents k" "kbd_contents (k\<lparr>g_shift := b\<rparr>) = kbd_contents k"
    "kbd_inv (k\<lparr>g_ext := b\<rparr>) = kbd_inv k" "kbd_inv (k\<lparr>g_shift := b\<rparr>) = kbd_inv k"
    "kbd_len (k\<lparr>g_ext := b\<rparr>) = kbd_len k" for k b
    by (simp_all add: kbd_contents_def kbd_len_def kbd_inv_def)
  have p: "g_shift (buf_push c k) = g_shift k" "g_ext (buf_push c k) = g_ext k" for c k by (simp_all add: buf_push_def Let_def)
  have push: "kbd_inv (buf_push c k') \<and> kbd_contents (buf_push c k') = kbd_contents k' @ [c]" if "kbd_inv k'" "kbd_len k' < 255" for c k'
    by (rule buf_push_room [OF that])
  consider (ext) "sc = 0xE0" | (arrow) "sc \<noteq> 0xE0" "g_ext k" | (down) "sc = 0x2A \<or> sc = 0x36" "sc \<noteq> 0xE0" "\<not> g_ext k"
    | (up) "sc = 0xAA \<or> sc = 0xB6" "sc \<noteq> 0xE0" "\<not> g_ext k" "\<not> (sc = 0x2A \<or> sc = 0x36)"
    | (other) "sc \<noteq> 0xE0" "\<not> g_ext k" "\<not> (sc = 0x2A \<or> sc = 0x36)" "\<not> (sc = 0xAA \<or> sc = 0xB6)" by blast
  then show ?thesis
  proof cases
    case ext
    then show ?thesis using i by (auto simp: ps2kbd_isr_def pending_def f typed.simps(2))
  next
    case arrow
    then have t: "typed (g_shift k) (pending k (sc # scs)) = arrow sc @ typed (g_shift k) scs" by (simp add: pending_def typed.simps(2))
    show ?thesis using arrow i r push [of "k\<lparr>g_ext := False\<rparr>"] unfolding t
      by (auto simp: ps2kbd_isr_def pending_def f p arrow_def Let_def split: if_splits)
  next
    case down
    then show ?thesis using i by (auto simp: ps2kbd_isr_def pending_def f typed.simps(2))
  next
    case up
    then show ?thesis using i by (auto simp: ps2kbd_isr_def pending_def f typed.simps(2))
  next
    case other
    let ?ch = "(if g_shift k then g_smap else g_map) ! unat sc"
    have t: "typed (g_shift k) (pending k (sc # scs)) = (if unat sc < 128 \<and> ?ch \<noteq> 0 then ?ch # typed (g_shift k) scs else typed (g_shift k) scs)"
      using other by (simp add: pending_def typed.simps(2))
    have k: "ps2kbd_isr (Some sc) k = (if unat sc < 128 \<and> ?ch \<noteq> 0 then buf_push ?ch k else k)"
      using other release_bit [of sc] by (simp add: ps2kbd_isr_def Let_def)
    show ?thesis using other i r push [OF i, of ?ch] unfolding t k by (auto simp: pending_def p)
  qed
qed

lemma isr_run:
  assumes "kbd_inv k" "kbd_len k + length (typed (g_shift k) (pending k scs)) \<le> 255"
  shows "kbd_inv (fold (\<lambda>sc. ps2kbd_isr (Some sc)) scs k) \<and>
    kbd_contents (fold (\<lambda>sc. ps2kbd_isr (Some sc)) scs k) = kbd_contents k @ typed (g_shift k) (pending k scs)"
  using assms
proof (induction scs arbitrary: k)
  case Nil
  then show ?case by (simp add: pending_def typed.simps(2))
next
  case (Cons sc scs)
  let ?k = "ps2kbd_isr (Some sc) k"
  note st = isr_step [OF Cons.prems]
  have "length (kbd_contents ?k @ typed (g_shift ?k) (pending ?k scs)) = length (kbd_contents k @ typed (g_shift k) (pending k (sc # scs)))"
    using st by presburger
  then have "kbd_len ?k + length (typed (g_shift ?k) (pending ?k scs)) \<le> 255" using Cons.prems(2) by simp
  with Cons.IH [of ?k] st show ?case by simp
qed

text \<open>
  C31. As long as no more than 255 characters wait, the interrupt handler turns any sequence of scan
  codes into exactly the characters of the grammar, and \<open>ps2kbd_getc\<close> hands them out in that order.
\<close>

theorem kbd_types_text:
  assumes "length (typed False scs) \<le> 255"
  shows "kbd_contents (fold (\<lambda>sc. ps2kbd_isr (Some sc)) scs kbd_zero) = typed False scs \<and>
    fst (snd (fifo_run kbd_put ps2kbd_getc (fold (\<lambda>sc. ps2kbd_isr (Some sc)) scs kbd_zero) (replicate (length (typed False scs)) Pop))) = typed False scs"
proof -
  let ?k = "fold (\<lambda>sc. ps2kbd_isr (Some sc)) scs kbd_zero"
  have z: "kbd_inv kbd_zero" "kbd_len kbd_zero = 0" "kbd_contents kbd_zero = []" "\<not> g_shift kbd_zero" "\<not> g_ext kbd_zero"
    by (simp_all add: kbd_zero_def kbd_inv_def kbd_len_def kbd_contents_def KBD_BUF_def)
  have c: "kbd_inv ?k" "kbd_contents ?k = typed False scs" using isr_run [of kbd_zero scs] z assms by (simp_all add: pending_def)
  have pops: "fst (snd (fifo_run kbd_put ps2kbd_getc k (replicate (length (kbd_contents k)) Pop))) = kbd_contents k" if "kbd_inv k" for k
    using that
  proof (induction "kbd_contents k" arbitrary: k)
    case Nil
    then show ?case by (simp flip: Nil(1))
  next
    case (Cons x xs)
    obtain k' where k': "ps2kbd_getc k = (Some x, k')" "kbd_inv k'" "kbd_contents k' = xs" using getc_item [OF Cons.prems Cons.hyps(2) [symmetric]] by blast
    obtain a b c where r: "fifo_run kbd_put ps2kbd_getc k' (replicate (length xs) Pop) = (a, b, c)" by (rule prod_cases3)
    have "b = xs" using Cons.hyps(1) [OF k'(3) [symmetric] k'(2)] unfolding k'(3) r by simp
    then show ?case using r k'(1) by (simp add: Cons.hyps(2) [symmetric])
  qed
  show ?thesis using pops [OF c(1)] c(2) by simp
qed

theorem kbd_types_text_witness:
  "kbd_contents (fold (\<lambda>sc. ps2kbd_isr (Some sc)) [0x2A, 0x23, 0xA3, 0xAA, 0x17, 0x97, 0xE0, 0x48] kbd_zero) = [0x48, 0x69, 0x80]"
proof -
  have "typed False [0x2A, 0x23, 0xA3, 0xAA, 0x17, 0x97, 0xE0, 0x48] = [0x48, 0x69, 0x80]" by code_simp
  then show ?thesis using kbd_types_text [of "[0x2A, 0x23, 0xA3, 0xAA, 0x17, 0x97, 0xE0, 0x48]"] by simp
qed

end
