(* ===== verification/Spec2Isabelle.thy ===== *)
theory Spec2Isabelle
  imports CStr RingConc Security UsrDb Slab SchedInv SvcMgr RamFs Kbd PhysMem Region PageTable AddrSpace
begin

text \<open>
  A verification library for the OpenASD kernel and its service manager.

  \<^item> \<open>OsPrelude\<close>: machine word and buffer lemmas shared by all theories.
  \<^item> \<open>CStr\<close>: \<open>src/kernel/lib/string.c\<close>.
  \<^item> \<open>RingBuf\<close>, \<open>RingConc\<close>: \<open>src/kernel/ipc/ringbuf.h\<close>.
\<close>

end
